(* ===== verification/Prelude.thy ===== *)
theory Prelude
  imports Main "HOL-Library.Multiset" "HOL-Library.Word"
begin

text \<open>
  Shared vocabulary of the development: the error values that \<^verbatim>\<open>ereport\<close> and
  \<^verbatim>\<open>elog\<close> raise, 32-bit signed wrap-around, C arrays as lists (exchange of two
  elements, sub-ranges), and the contract of a three-way comparison function as the
  locale \<open>sort_comparator\<close>, in which the facts on sorted lists that the sorting
  components share are proved once.
\<close>

section \<open>Collections of facts\<close>

named_theorems array_simps \<open>lengths and reads of updated C arrays\<close>
named_theorems perm_simps \<open>operations that keep the multiset of an array's elements\<close>

section \<open>Errors\<close>

text \<open>
  \<^verbatim>\<open>ereport(ERROR, ...)\<close> aborts the statement, \<^verbatim>\<open>ereport(FATAL, ...)\<close> the
  process, \<^verbatim>\<open>elog(PANIC, ...)\<close> the whole server, and \<open>TRAP\<close> is a failed \<^verbatim>\<open>Assert\<close>. A
  fallible routine returns \<open>pg_error + 'a\<close> with the error on the left.
\<close>

datatype pg_error = ERROR string | FATAL string | PANIC string | TRAP string

text \<open>
  Reading or writing memory that is not allocated, or no longer: C leaves open what
  happens, and no theorem relies on it. The model stops there with an error of its own.
\<close>

definition wild :: pg_error where
  "wild = FATAL ''invalid address''"

text \<open>Sequential composition: an error leaves the routine.\<close>

primrec bindE :: "'e + 'a \<Rightarrow> ('a \<Rightarrow> 'e + 'b) \<Rightarrow> 'e + 'b" where
  "bindE (Inl e) f = Inl e"
| "bindE (Inr a) f = f a"

lemma bindE_Inr_iff: "bindE x f = Inr b \<longleftrightarrow> (\<exists>a. x = Inr a \<and> f a = Inr b)"
  by (cases x) auto

lemma bindE_cong [fundef_cong]:
  "x = x' \<Longrightarrow> (\<And>a. x' = Inr a \<Longrightarrow> f a = g a) \<Longrightarrow> bindE x f = bindE x' g"
  by (cases x) auto

text \<open>A counting loop whose body may fail.\<close>

primrec foldE :: "('a \<Rightarrow> 's \<Rightarrow> 'e + 's) \<Rightarrow> 'a list \<Rightarrow> 's \<Rightarrow> 'e + 's" where
  "foldE f [] s = Inr s"
| "foldE f (x # xs) s = bindE (f x s) (foldE f xs)"

lemma foldE_append: "foldE f (xs @ ys) s = bindE (foldE f xs s) (foldE f ys)"
proof (induction xs arbitrary: s)
  case (Cons x xs)
  then show ?case by (cases "f x s") auto
qed simp

lemma foldE_invariant:
  assumes "I 0 s" and "\<And>i s. I i s \<Longrightarrow> i < length xs \<Longrightarrow> \<exists>s'. f (xs ! i) s = Inr s' \<and> I (Suc i) s'"
  shows "\<exists>s'. foldE f xs s = Inr s' \<and> I (length xs) s'"
  using assms(2)
proof (induction xs rule: rev_induct)
  case Nil
  with assms(1) show ?case by simp
next
  case (snoc x xs)
  have "\<exists>s'. foldE f xs s = Inr s' \<and> I (length xs) s'"
  proof (rule snoc.IH)
    fix i s assume "I i s" "i < length xs"
    with snoc.prems [of i s] show "\<exists>s'. f (xs ! i) s = Inr s' \<and> I (Suc i) s'"
      by (simp add: nth_append)
  qed
  with snoc.prems [of "length xs"] show ?case by (fastforce simp: foldE_append bindE_Inr_iff)
qed

section \<open>Machine integers\<close>

text \<open>C's \<^verbatim>\<open>int\<close> and \<^verbatim>\<open>int32\<close>: two's complement on 32 bits.\<close>

abbreviation INT_MAX :: int where "INT_MAX \<equiv> 2147483647"

abbreviation INT_MIN :: int where "INT_MIN \<equiv> -2147483648"

definition wrap32 :: "int \<Rightarrow> int" where
  "wrap32 i = (i + 2147483648) mod 4294967296 - 2147483648"

lemma wrap32_id: "INT_MIN \<le> i \<Longrightarrow> i \<le> INT_MAX \<Longrightarrow> wrap32 i = i"
  by (simp add: wrap32_def)

lemma wrap32_range: "INT_MIN \<le> wrap32 i" "wrap32 i \<le> INT_MAX"
  using pos_mod_bound [of 4294967296 "i + 2147483648"]
  by (simp_all add: wrap32_def)

section \<open>Arrays\<close>

text \<open>Exchanging two elements, C's three-assignment swap.\<close>

definition swap_at :: "'a list \<Rightarrow> nat \<Rightarrow> nat \<Rightarrow> 'a list" where
  "swap_at xs i j = xs[i := xs ! j, j := xs ! i]"

lemma length_swap_at [simp, array_simps]: "length (swap_at xs i j) = length xs"
  by (simp add: swap_at_def)

lemma swap_at_nth [array_simps]:
  "i < length xs \<Longrightarrow> j < length xs \<Longrightarrow> k < length xs \<Longrightarrow>
   swap_at xs i j ! k = (if k = j then xs ! i else if k = i then xs ! j else xs ! k)"
  by (simp add: swap_at_def nth_list_update)

lemma swap_at_same [simp]: "swap_at xs i i = xs"
  by (simp add: swap_at_def)

lemma mset_swap_at [perm_simps]:
  "i < length xs \<Longrightarrow> j < length xs \<Longrightarrow> mset (swap_at xs i j) = mset xs"
  by (simp add: swap_at_def mset_swap)

lemma set_swap_at [perm_simps]:
  "i < length xs \<Longrightarrow> j < length xs \<Longrightarrow> set (swap_at xs i j) = set xs"
  by (metis mset_swap_at set_mset_mset)

lemma take_swap_at:
  "i < n \<Longrightarrow> j < n \<Longrightarrow> n \<le> length xs \<Longrightarrow> take n (swap_at xs i j) = swap_at (take n xs) i j"
  by (simp add: swap_at_def take_update_swap)

lemma drop_swap_at: "i < n \<Longrightarrow> j < n \<Longrightarrow> drop n (swap_at xs i j) = drop n xs"
  by (simp add: swap_at_def)

lemma mset_take_swap_at [perm_simps]:
  "i < n \<Longrightarrow> j < n \<Longrightarrow> n \<le> length xs \<Longrightarrow> mset (take n (swap_at xs i j)) = mset (take n xs)"
  by (simp add: take_swap_at mset_swap_at)

text \<open>Moving a value out of the way of a hole, then the hole: an exchange.\<close>

lemma list_update_hole:
  "i \<noteq> j \<Longrightarrow> j < length xs \<Longrightarrow>
   (xs[i := xs ! j])[j := x] = swap_at (xs[i := x]) i j" if "i < length xs"
  using that by (auto intro!: nth_equalityI simp: swap_at_def nth_list_update)

subsection \<open>Rearranging a range\<close>

lemma drop_eq_nth:
  assumes "drop n xs = drop n ys" "n \<le> k" "k < length xs" shows "xs ! k = ys ! k"
proof -
  have "length (drop n ys) = length xs - n" using assms(1) by (metis length_drop)
  with assms have "n \<le> length xs" "n \<le> length ys" by auto
  then have "drop n xs ! (k - n) = xs ! k" "drop n ys ! (k - n) = ys ! k" using assms(2) by auto
  with assms(1) show ?thesis by simp
qed

text \<open>
  An in-place routine on the elements \<open>a\<close> to \<open>e - 1\<close> of an array: it permutes the
  array and leaves every other element where it is.
\<close>

definition permutes_range :: "nat \<Rightarrow> nat \<Rightarrow> 'a list \<Rightarrow> 'a list \<Rightarrow> bool" where
  "permutes_range a e xs ys \<longleftrightarrow> length ys = length xs \<and> mset ys = mset xs \<and>
     (\<forall>k < length xs. k < a \<or> e \<le> k \<longrightarrow> ys ! k = xs ! k)"

lemma permutes_range_refl [simp, intro]: "permutes_range a e xs xs"
  by (simp add: permutes_range_def)

lemma permutes_range_trans [trans]:
  "permutes_range a e xs ys \<Longrightarrow> permutes_range a e ys zs \<Longrightarrow> permutes_range a e xs zs"
  by (simp add: permutes_range_def)

lemma permutes_range_mono:
  "permutes_range a e xs ys \<Longrightarrow> a' \<le> a \<Longrightarrow> e \<le> e' \<Longrightarrow> permutes_range a' e' xs ys"
  by (auto simp: permutes_range_def)

lemma permutes_range_length: "permutes_range a e xs ys \<Longrightarrow> length ys = length xs"
  by (simp add: permutes_range_def)

lemma permutes_range_mset: "permutes_range a e xs ys \<Longrightarrow> mset ys = mset xs"
  by (simp add: permutes_range_def)

lemma permutes_range_outside:
  "permutes_range a e xs ys \<Longrightarrow> k < length xs \<Longrightarrow> k < a \<or> e \<le> k \<Longrightarrow> ys ! k = xs ! k"
  by (auto simp: permutes_range_def)

lemma permutes_range_swap:
  "a \<le> i \<Longrightarrow> i < e \<Longrightarrow> a \<le> j \<Longrightarrow> j < e \<Longrightarrow> e \<le> length xs \<Longrightarrow>
   permutes_range a e xs (swap_at xs i j)"
  by (auto simp: permutes_range_def mset_swap_at swap_at_nth)

lemma permutes_range_slice:
  assumes "permutes_range a e xs ys" and "a \<le> e" and "e \<le> length xs"
  shows "mset (take (e - a) (drop a ys)) = mset (take (e - a) (drop a xs))"
proof -
  have len: "length ys = length xs"
    using assms(1) by (rule permutes_range_length)
  have split: "mset zs = mset (take a zs) + mset (take (e - a) (drop a zs)) + mset (drop e zs)"
    if "length zs = length xs" for zs :: "'a list"
  proof -
    have "zs = take a zs @ take (e - a) (drop a zs) @ drop e zs"
      using assms(2) by (metis append_take_drop_id drop_drop le_add_diff_inverse2)
    then have "mset zs = mset (take a zs @ take (e - a) (drop a zs) @ drop e zs)" by simp
    then show ?thesis by (simp add: add.assoc)
  qed
  have "take a ys = take a xs"
    using assms len by (intro nth_equalityI) (auto simp: permutes_range_outside)
  moreover have "drop e ys = drop e xs"
    using assms len by (intro nth_equalityI) (auto simp: permutes_range_outside)
  ultimately show ?thesis
    using split [of ys] split [of xs] len permutes_range_mset [OF assms(1)] by simp
qed

lemma set_slice: "e \<le> length xs \<Longrightarrow> set (take (e - a) (drop a xs)) = {xs ! k | k. a \<le> k \<and> k < e}"
proof (intro set_eqI iffI)
  fix x assume e: "e \<le> length xs" and "x \<in> set (take (e - a) (drop a xs))"
  then obtain i where "i < e - a" "x = xs ! (a + i)"
    by (auto simp: in_set_conv_nth)
  then show "x \<in> {xs ! k | k. a \<le> k \<and> k < e}"
    by (intro CollectI exI [of _ "a + i"]) auto
next
  fix x assume e: "e \<le> length xs" and "x \<in> {xs ! k | k. a \<le> k \<and> k < e}"
  then obtain k where k: "x = xs ! k" "a \<le> k" "k < e" by blast
  then have "x = take (e - a) (drop a xs) ! (k - a)" "k - a < length (take (e - a) (drop a xs))"
    using e by auto
  then show "x \<in> set (take (e - a) (drop a xs))" by (metis nth_mem)
qed

lemma permutes_range_all:
  assumes "permutes_range a e xs ys" and "e \<le> length xs"
    and "\<And>k. a \<le> k \<Longrightarrow> k < e \<Longrightarrow> P (xs ! k)" and "a \<le> k" "k < e"
  shows "P (ys ! k)"
proof -
  have "set (take (e - a) (drop a ys)) = set (take (e - a) (drop a xs))"
    using assms(1,2,4,5) by (intro mset_eq_setD permutes_range_slice) auto
  moreover have "ys ! k \<in> set (take (e - a) (drop a ys))"
    using assms by (auto simp: set_slice permutes_range_length [OF assms(1)])
  ultimately show ?thesis
    using assms(2,3) by (auto simp: set_slice)
qed

section \<open>Comparison functions\<close>

text \<open>
  What every sorting routine of the program relies on: a comparison function in the
  convention of \<^verbatim>\<open>qsort\<close>, negative, zero or positive, that orders its arguments
  consistently. Reflexivity and totality follow from the first law.
\<close>

locale sort_comparator =
  fixes cmp :: "'a \<Rightarrow> 'a \<Rightarrow> int"
  assumes cmp_flip: "cmp a b > 0 \<longleftrightarrow> cmp b a < 0"
    and cmp_trans: "cmp a b \<le> 0 \<Longrightarrow> cmp b c \<le> 0 \<Longrightarrow> cmp a c \<le> 0"
begin

lemma cmp_refl [simp]: "cmp a a = 0"
  using cmp_flip [of a a] by linarith

lemma cmp_total: "cmp a b \<le> 0 \<or> cmp b a \<le> 0"
  using cmp_flip [of a b] by linarith

lemma cmp_le_flip: "cmp a b \<le> 0 \<longleftrightarrow> cmp b a \<ge> 0"
  using cmp_flip [of a b] cmp_flip [of b a] by linarith

lemma cmp_zero_sym: "cmp a b = 0 \<longleftrightarrow> cmp b a = 0"
  using cmp_flip [of a b] cmp_flip [of b a] by linarith

lemma cmp_less_le_trans: "cmp a b < 0 \<Longrightarrow> cmp b c \<le> 0 \<Longrightarrow> cmp a c < 0"
  using cmp_flip [of c a] cmp_flip [of b a] cmp_trans [of b c a] cmp_flip [of a c]
  by linarith

lemma cmp_le_less_trans: "cmp a b \<le> 0 \<Longrightarrow> cmp b c < 0 \<Longrightarrow> cmp a c < 0"
  using cmp_flip [of c a] cmp_flip [of c b] cmp_trans [of c a b] cmp_flip [of a c]
  by linarith

lemma cmp_ge_trans: "cmp a b \<ge> 0 \<Longrightarrow> cmp b c \<ge> 0 \<Longrightarrow> cmp a c \<ge> 0"
  using cmp_le_flip [of b a] cmp_le_flip [of c b] cmp_le_flip [of c a] cmp_trans [of c b a]
  by blast

text \<open>Sorted with respect to the comparison.\<close>

abbreviation sorted_cmp :: "'a list \<Rightarrow> bool" where
  "sorted_cmp \<equiv> sorted_wrt (\<lambda>a b. cmp a b \<le> 0)"

lemma transp_cmp: "transp (\<lambda>a b. cmp a b \<le> 0)"
  by (rule transpI) (rule cmp_trans)

lemma sorted_cmp_adjacent:
  "sorted_cmp xs \<longleftrightarrow> (\<forall>i. Suc i < length xs \<longrightarrow> cmp (xs ! i) (xs ! Suc i) \<le> 0)"
  by (simp add: sorted_wrt_iff_nth_Suc_transp [OF transp_cmp])

lemma sorted_cmp_append:
  "sorted_cmp (xs @ ys) \<longleftrightarrow>
     sorted_cmp xs \<and> sorted_cmp ys \<and> (\<forall>x\<in>set xs. \<forall>y\<in>set ys. cmp x y \<le> 0)"
  by (simp add: sorted_wrt_append)

text \<open>Sorted between two indices of an array.\<close>

definition sorted_range :: "'a list \<Rightarrow> nat \<Rightarrow> nat \<Rightarrow> bool" where
  "sorted_range xs a e \<longleftrightarrow> (\<forall>i j. a \<le> i \<and> i < j \<and> j < e \<longrightarrow> cmp (xs ! i) (xs ! j) \<le> 0)"

lemma sorted_range_slice:
  "e \<le> length xs \<Longrightarrow> sorted_range xs a e \<Longrightarrow> sorted_cmp (take (e - a) (drop a xs))"
  by (auto simp: sorted_range_def sorted_wrt_iff_nth_less)

lemma sorted_range_adjacent:
  assumes "\<And>i. a \<le> i \<Longrightarrow> Suc i < e \<Longrightarrow> cmp (xs ! i) (xs ! Suc i) \<le> 0"
  shows "sorted_range xs a e"
proof -
  have "cmp (xs ! i) (xs ! j) \<le> 0" if "a \<le> i" "i < j" "j < e" for i j
    using that(2,3)
  proof (induction j)
    case (Suc j)
    then show ?case
      using assms [of j] \<open>a \<le> i\<close> cmp_trans [of "xs ! i" "xs ! j" "xs ! Suc j"]
      by (cases "i = j") auto
  qed simp
  then show ?thesis by (auto simp: sorted_range_def)
qed

text \<open>The reversed comparison is a comparison again, and so is one read through a projection.\<close>

lemma reversed: "sort_comparator (\<lambda>a b. cmp b a)"
  by unfold_locales (use cmp_flip cmp_trans in blast)+

lemma negated: "sort_comparator (\<lambda>a b. - cmp a b)"
proof
  show "- cmp a b > 0 \<longleftrightarrow> - cmp b a < 0" for a b
    using cmp_flip [of b a] by linarith
  show "- cmp a b \<le> 0 \<Longrightarrow> - cmp b c \<le> 0 \<Longrightarrow> - cmp a c \<le> 0" for a b c
    using cmp_ge_trans [of a b c] by linarith
qed

lemma through: "sort_comparator (\<lambda>a b. cmp (f a) (f b))"
  by unfold_locales (rule cmp_flip, rule cmp_trans)

end

text \<open>Two comparisons in lexicographic order: the second decides where the first is zero.\<close>

definition lex_cmp :: "('a \<Rightarrow> 'a \<Rightarrow> int) \<Rightarrow> ('a \<Rightarrow> 'a \<Rightarrow> int) \<Rightarrow> 'a \<Rightarrow> 'a \<Rightarrow> int" where
  "lex_cmp c d a b = (if c a b \<noteq> 0 then c a b else d a b)"

lemma sort_comparator_lex:
  assumes "sort_comparator c" and "sort_comparator d"
  shows "sort_comparator (lex_cmp c d)"
proof
  note c = sort_comparator.cmp_flip [OF assms(1)] sort_comparator.cmp_zero_sym [OF assms(1)]
  show "0 < lex_cmp c d a b \<longleftrightarrow> lex_cmp c d b a < 0" for a b
    using c [of a b] sort_comparator.cmp_flip [OF assms(2), of a b] by (simp add: lex_cmp_def)
  show "lex_cmp c d a b \<le> 0 \<Longrightarrow> lex_cmp c d b e \<le> 0 \<Longrightarrow> lex_cmp c d a e \<le> 0" for a b e
    using sort_comparator.cmp_less_le_trans [OF assms(1), of a b e]
      sort_comparator.cmp_le_less_trans [OF assms(1), of a b e]
      sort_comparator.cmp_trans [OF assms(1), of a b e]
      sort_comparator.cmp_trans [OF assms(2), of a b e]
    by (auto simp: lex_cmp_def split: if_splits)
qed

lemma sort_comparator_const: "sort_comparator (\<lambda>a b. 0)"
  by unfold_locales simp_all

end
