(* ===== verification/SortKeys.thy ===== *)
theory SortKeys
  imports Prelude
begin

text \<open>
  Sort keys and tuple comparison: the comparison procedures of the trivial data types
  (\<^verbatim>\<open>nbtcompare.c\<close>), scan keys with btree's flag bits, and the comparison of two
  sort tuples key by key (\<^verbatim>\<open>inlineApplySortFunction\<close>, \<^verbatim>\<open>comparetup_heap\<close>,
  \<^verbatim>\<open>reversedirection_heap\<close> of \<^verbatim>\<open>tuplesort.c\<close>).

  A datum is a value of a type \<open>'d\<close>, a minimal tuple a value of a type \<open>'t\<close>;
  \<open>getattr\<close> stands for \<^verbatim>\<open>heap_getattr\<close>, which reads an attribute of a tuple and
  whether it is null. What a support procedure of a btree operator class owes its
  callers is the locale \<open>btree_proc\<close>.
\<close>

unbundle bit_operations_syntax

section \<open>Comparison procedures of the trivial types\<close>

text \<open>
  The arguments are the C values; the narrow types are read as signed words of their
  width, \<^verbatim>\<open>Oid\<close> and \<^verbatim>\<open>char\<close> as unsigned ones.
\<close>

definition btboolcmp :: "bool \<Rightarrow> bool \<Rightarrow> int" where
  "btboolcmp a b = wrap32 (of_bool a - of_bool b)"

definition btint2cmp :: "16 word \<Rightarrow> 16 word \<Rightarrow> int" where
  "btint2cmp a b = wrap32 (sint a - sint b)"

definition btint4cmp :: "32 word \<Rightarrow> 32 word \<Rightarrow> int" where
  "btint4cmp a b = (if sint a > sint b then 1 else if a = b then 0 else -1)"

definition btint8cmp :: "64 word \<Rightarrow> 64 word \<Rightarrow> int" where
  "btint8cmp a b = (if sint a > sint b then 1 else if a = b then 0 else -1)"

definition btoidcmp :: "32 word \<Rightarrow> 32 word \<Rightarrow> int" where
  "btoidcmp a b = (if a > b then 1 else if a = b then 0 else -1)"

definition btcharcmp :: "8 word \<Rightarrow> 8 word \<Rightarrow> int" where
  "btcharcmp a b = wrap32 (uint a - uint b)"

section \<open>Scan keys\<close>

definition SK_BT_INDOPTION_SHIFT :: nat where
  "SK_BT_INDOPTION_SHIFT = 24"

definition SK_BT_DESC :: "32 word" where
  "SK_BT_DESC = push_bit SK_BT_INDOPTION_SHIFT 1"

definition SK_BT_NULLS_FIRST :: "32 word" where
  "SK_BT_NULLS_FIRST = push_bit SK_BT_INDOPTION_SHIFT 2"

text \<open>
  \<^verbatim>\<open>sk_func\<close> is the support procedure the operator resolves to; \<open>None\<close> is a call
  that comes back with the null flag set.
\<close>

record 'd ScanKey =
  sk_flags :: "32 word"
  sk_attno :: int
  sk_func :: "'d \<Rightarrow> 'd \<Rightarrow> int option"

definition ScanKeyInit :: "int \<Rightarrow> ('d \<Rightarrow> 'd \<Rightarrow> int option) \<Rightarrow> 'd ScanKey" where
  "ScanKeyInit attno proc = \<lparr>sk_flags = 0, sk_attno = attno, sk_func = proc\<rparr>"

section \<open>Sort tuples\<close>

record ('t, 'd) SortTuple =
  tuple :: 't
  datum1 :: 'd
  isnull1 :: bool
  tupindex :: int

section \<open>Comparing two tuples\<close>

definition myFunctionCall2 :: "('d \<Rightarrow> 'd \<Rightarrow> int option) \<Rightarrow> 'd \<Rightarrow> 'd \<Rightarrow> pg_error + int" where
  "myFunctionCall2 flinfo arg1 arg2 =
     (case flinfo arg1 arg2 of None \<Rightarrow> Inl (ERROR ''function returned NULL'')
      | Some result \<Rightarrow> Inr result)"

definition inlineApplySortFunction ::
  "('d \<Rightarrow> 'd \<Rightarrow> int option) \<Rightarrow> 32 word \<Rightarrow> 'd \<Rightarrow> bool \<Rightarrow> 'd \<Rightarrow> bool \<Rightarrow> pg_error + int" where
  "inlineApplySortFunction sortFunction flags d1 isNull1 d2 isNull2 =
     (if isNull1 then
        (if isNull2 then Inr 0
         else if flags AND SK_BT_NULLS_FIRST \<noteq> 0 then Inr (-1)
         else Inr 1)
      else if isNull2 then
        (if flags AND SK_BT_NULLS_FIRST \<noteq> 0 then Inr 1 else Inr (-1))
      else
        (case myFunctionCall2 sortFunction d1 d2 of
           Inl e \<Rightarrow> Inl e
         | Inr c \<Rightarrow> Inr (if flags AND SK_BT_DESC \<noteq> 0 then wrap32 (- c) else c)))"

text \<open>The loop over the additional keys, then the routine with its leading key.\<close>

fun comparetup_heap_loop ::
  "('t \<Rightarrow> int \<Rightarrow> 'd \<times> bool) \<Rightarrow> 'd ScanKey list \<Rightarrow> 't \<Rightarrow> 't \<Rightarrow> pg_error + int" where
  "comparetup_heap_loop getattr [] l r = Inr 0"
| "comparetup_heap_loop getattr (k # ks) l r =
     (let (d1, null1) = getattr l (sk_attno k);
          (d2, null2) = getattr r (sk_attno k)
      in case inlineApplySortFunction (sk_func k) (sk_flags k) d1 null1 d2 null2 of
           Inl e \<Rightarrow> Inl e
         | Inr c \<Rightarrow> if c \<noteq> 0 then Inr c else comparetup_heap_loop getattr ks l r)"

definition comparetup_heap ::
  "('t \<Rightarrow> int \<Rightarrow> 'd \<times> bool) \<Rightarrow> 'd ScanKey list \<Rightarrow>
   ('t, 'd) SortTuple \<Rightarrow> ('t, 'd) SortTuple \<Rightarrow> pg_error + int" where
  "comparetup_heap getattr scanKeys a b =
     (let k = scanKeys ! 0
      in case inlineApplySortFunction (sk_func k) (sk_flags k)
                (datum1 a) (isnull1 a) (datum1 b) (isnull1 b) of
           Inl e \<Rightarrow> Inl e
         | Inr c \<Rightarrow> if c \<noteq> 0 then Inr c
                    else comparetup_heap_loop getattr (drop 1 scanKeys) (tuple a) (tuple b))"

definition reversedirection_heap :: "'d ScanKey list \<Rightarrow> 'd ScanKey list" where
  "reversedirection_heap =
     map (\<lambda>k. k\<lparr>sk_flags := sk_flags k XOR (SK_BT_DESC OR SK_BT_NULLS_FIRST)\<rparr>)"

text \<open>
  The order the sort works with: the result of the comparison. An error leaves the
  sort by a long jump, so no result of the sort depends on the value chosen for it.
\<close>

definition tuplecmp ::
  "('t \<Rightarrow> int \<Rightarrow> 'd \<times> bool) \<Rightarrow> 'd ScanKey list \<Rightarrow>
   ('t, 'd) SortTuple \<Rightarrow> ('t, 'd) SortTuple \<Rightarrow> int" where
  "tuplecmp getattr scanKeys a b =
     (case comparetup_heap getattr scanKeys a b of Inl _ \<Rightarrow> 0 | Inr c \<Rightarrow> c)"

section \<open>The contract of a btree support procedure\<close>

text \<open>
  Support procedure 1 of a btree operator class: it returns a 32-bit result for every
  pair of datums and orders them consistently. \<^verbatim>\<open>INT_MIN\<close> is excluded, since the sort
  code negates the result for a descending key.
\<close>

locale btree_proc =
  fixes proc :: "'d \<Rightarrow> 'd \<Rightarrow> int option"
  assumes proc_returns: "\<exists>c. proc a b = Some c \<and> INT_MIN < c \<and> c \<le> INT_MAX"
    and proc_flip: "proc a b = Some c \<Longrightarrow> proc b a = Some c' \<Longrightarrow> c > 0 \<longleftrightarrow> c' < 0"
    and proc_trans: "proc a b = Some x \<Longrightarrow> proc b d = Some y \<Longrightarrow> proc a d = Some z \<Longrightarrow>
      x \<le> 0 \<Longrightarrow> y \<le> 0 \<Longrightarrow> z \<le> 0"
begin

lemma proc_value: "proc a b = Some (the (proc a b))"
  using proc_returns [of a b] by auto

lemma proc_bounds: "INT_MIN < the (proc a b)" "the (proc a b) \<le> INT_MAX"
  using proc_returns [of a b] by auto

lemma proc_comparator: "sort_comparator (\<lambda>a b. the (proc a b))"
  using proc_flip [OF proc_value proc_value] proc_trans [OF proc_value proc_value proc_value]
  by unfold_locales blast+

end

lemma btree_procI:
  assumes "sort_comparator c" and "\<And>a b. INT_MIN < c a b" and "\<And>a b. c a b \<le> INT_MAX"
  shows "btree_proc (\<lambda>a b. Some (c a b))"
  using assms(2,3) sort_comparator.cmp_flip [OF assms(1)] sort_comparator.cmp_trans [OF assms(1)]
  by unfold_locales auto

text \<open>A comparison of keys in a linear order, by sign or by difference.\<close>

lemma sort_comparator_linorder:
  fixes f :: "'a \<Rightarrow> 'b::linorder"
  shows "sort_comparator (\<lambda>a b. if f a > f b then 1 else if f a = f b then 0 else -1)"
  by unfold_locales (auto split: if_splits)

lemma sort_comparator_diff: "sort_comparator (\<lambda>a b. f a - f b)" for f :: "'a \<Rightarrow> int"
  by unfold_locales auto

lemma btint4cmp_comparator: "sort_comparator btint4cmp"
proof -
  have "btint4cmp = (\<lambda>a b. if sint a > sint b then 1 else if sint a = sint b then 0 else -1)"
    by (intro ext) (auto simp: btint4cmp_def dest: signed_word_eqI)
  then show ?thesis
    using sort_comparator_linorder [of "sint :: 32 word \<Rightarrow> int"] by simp
qed

lemma btint8cmp_comparator: "sort_comparator btint8cmp"
proof -
  have "btint8cmp = (\<lambda>a b. if sint a > sint b then 1 else if sint a = sint b then 0 else -1)"
    by (intro ext) (auto simp: btint8cmp_def dest: signed_word_eqI)
  then show ?thesis
    using sort_comparator_linorder [of "sint :: 64 word \<Rightarrow> int"] by simp
qed

lemma btoidcmp_comparator: "sort_comparator btoidcmp"
  using sort_comparator_linorder [of "\<lambda>x::32 word. x"] by (simp add: btoidcmp_def [abs_def])

lemma btboolcmp_eq: "btboolcmp a b = of_bool a - of_bool b"
  by (simp add: btboolcmp_def wrap32_def)

lemma btint2cmp_eq: "btint2cmp a b = sint a - sint b"
  using sint_range_size [of a] sint_range_size [of b]
  by (simp add: btint2cmp_def wrap32_id word_size)

lemma uchar_bounds: "0 \<le> uint a" "uint a < 256" for a :: "8 word"
  using uint_lt2p [of a] by simp_all

lemma btcharcmp_eq: "btcharcmp a b = uint a - uint b"
  using uchar_bounds [of a] uchar_bounds [of b] unfolding btcharcmp_def by (intro wrap32_id) linarith+

interpretation btint4: btree_proc "\<lambda>a b. Some (btint4cmp a b)"
  by (rule btree_procI [OF btint4cmp_comparator]) (simp_all add: btint4cmp_def)

interpretation btint8: btree_proc "\<lambda>a b. Some (btint8cmp a b)"
  by (rule btree_procI [OF btint8cmp_comparator]) (simp_all add: btint8cmp_def)

interpretation btoid: btree_proc "\<lambda>a b. Some (btoidcmp a b)"
  by (rule btree_procI [OF btoidcmp_comparator]) (simp_all add: btoidcmp_def)

interpretation btbool: btree_proc "\<lambda>a b. Some (btboolcmp a b)"
  by (rule btree_procI) (simp_all add: btboolcmp_eq [abs_def] sort_comparator_diff)

interpretation btint2: btree_proc "\<lambda>a b. Some (btint2cmp a b)"
proof (rule btree_procI)
  show "sort_comparator btint2cmp"
    by (simp add: btint2cmp_eq [abs_def] sort_comparator_diff)
  show "INT_MIN < btint2cmp a b" "btint2cmp a b \<le> INT_MAX" for a b
    using sint_range_size [of a] sint_range_size [of b] by (simp_all add: btint2cmp_eq word_size)
qed

interpretation btchar: btree_proc "\<lambda>a b. Some (btcharcmp a b)"
proof (rule btree_procI)
  show "sort_comparator btcharcmp"
    by (simp add: btcharcmp_eq [abs_def] sort_comparator_diff)
  show "INT_MIN < btcharcmp a b" "btcharcmp a b \<le> INT_MAX" for a b
    using uchar_bounds [of a] uchar_bounds [of b] unfolding btcharcmp_eq by linarith+
qed

section \<open>The order of one key\<close>

text \<open>The comparison of two nullable datums under a key whose procedure keeps its contract.\<close>

definition keycmp :: "'d ScanKey \<Rightarrow> 'd \<times> bool \<Rightarrow> 'd \<times> bool \<Rightarrow> int" where
  "keycmp k a b =
     (if snd a then
        (if snd b then 0 else if sk_flags k AND SK_BT_NULLS_FIRST \<noteq> 0 then -1 else 1)
      else if snd b then (if sk_flags k AND SK_BT_NULLS_FIRST \<noteq> 0 then 1 else -1)
      else if sk_flags k AND SK_BT_DESC \<noteq> 0 then - the (sk_func k (fst a) (fst b))
      else the (sk_func k (fst a) (fst b)))"

definition good_keys :: "'d ScanKey list \<Rightarrow> bool" where
  "good_keys ks \<longleftrightarrow> (\<forall>k\<in>set ks. btree_proc (sk_func k))"

lemma inlineApply_keycmp:
  assumes "btree_proc (sk_func k)"
  shows "inlineApplySortFunction (sk_func k) (sk_flags k) d1 n1 d2 n2 =
    Inr (keycmp k (d1, n1) (d2, n2))"
proof -
  obtain c where c: "sk_func k d1 d2 = Some c" "INT_MIN < c" "c \<le> INT_MAX"
    using btree_proc.proc_returns [OF assms] by blast
  then show ?thesis
    by (simp add: inlineApplySortFunction_def myFunctionCall2_def keycmp_def wrap32_id)
qed

lemma keycmp_comparator:
  assumes "btree_proc (sk_func k)"
  shows "sort_comparator (keycmp k)"
proof -
  let ?c = "\<lambda>a b. the (sk_func k a b)"
  have c: "sort_comparator ?c"
    by (rule btree_proc.proc_comparator [OF assms])
  have n: "sort_comparator (\<lambda>a b. - ?c a b)"
    by (rule sort_comparator.negated [OF c])
  show ?thesis
  proof
    show "keycmp k a b > 0 \<longleftrightarrow> keycmp k b a < 0" for a b
      using sort_comparator.cmp_flip [OF c, of "fst a" "fst b"]
        sort_comparator.cmp_flip [OF n, of "fst a" "fst b"]
      by (simp add: keycmp_def)
    show "keycmp k a b \<le> 0 \<Longrightarrow> keycmp k b d \<le> 0 \<Longrightarrow> keycmp k a d \<le> 0" for a b d
      using sort_comparator.cmp_trans [OF c, of "fst a" "fst b" "fst d"]
        sort_comparator.cmp_trans [OF n, of "fst a" "fst b" "fst d"]
      by (auto simp: keycmp_def split: if_splits)
  qed
qed

lemma flag_bits:
  "w AND SK_BT_DESC \<noteq> 0 \<longleftrightarrow> bit w 24" "w AND SK_BT_NULLS_FIRST \<noteq> 0 \<longleftrightarrow> bit w 25"
proof -
  have "SK_BT_DESC = push_bit 24 1" "SK_BT_NULLS_FIRST = push_bit 25 1"
    by (simp_all add: SK_BT_DESC_def SK_BT_NULLS_FIRST_def SK_BT_INDOPTION_SHIFT_def)
  then show "w AND SK_BT_DESC \<noteq> 0 \<longleftrightarrow> bit w 24" "w AND SK_BT_NULLS_FIRST \<noteq> 0 \<longleftrightarrow> bit w 25"
    by (simp_all only: bit_iff_and_push_bit_not_eq_0)
qed

lemma flags_reversed:
  "(w XOR (SK_BT_DESC OR SK_BT_NULLS_FIRST)) AND SK_BT_DESC \<noteq> 0 \<longleftrightarrow> w AND SK_BT_DESC = 0"
  "(w XOR (SK_BT_DESC OR SK_BT_NULLS_FIRST)) AND SK_BT_NULLS_FIRST \<noteq> 0 \<longleftrightarrow>
     w AND SK_BT_NULLS_FIRST = 0"
proof -
  have b: "bit (SK_BT_DESC OR SK_BT_NULLS_FIRST) 24" "bit (SK_BT_DESC OR SK_BT_NULLS_FIRST) 25"
    by (simp_all add: SK_BT_DESC_def SK_BT_NULLS_FIRST_def SK_BT_INDOPTION_SHIFT_def bit_simps)
  show "(w XOR (SK_BT_DESC OR SK_BT_NULLS_FIRST)) AND SK_BT_DESC \<noteq> 0 \<longleftrightarrow> w AND SK_BT_DESC = 0"
    unfolding flag_bits bit_xor_iff using flag_bits(1) [of w] b(1) by blast
  show "(w XOR (SK_BT_DESC OR SK_BT_NULLS_FIRST)) AND SK_BT_NULLS_FIRST \<noteq> 0 \<longleftrightarrow>
     w AND SK_BT_NULLS_FIRST = 0"
    unfolding flag_bits bit_xor_iff using flag_bits(2) [of w] b(2) by blast
qed

section \<open>The order of tuples\<close>

lemma good_keys_simps [simp]:
  "good_keys []" "good_keys (k # ks) \<longleftrightarrow> btree_proc (sk_func k) \<and> good_keys ks"
  by (simp_all add: good_keys_def)

fun keyscmp :: "('t \<Rightarrow> int \<Rightarrow> 'd \<times> bool) \<Rightarrow> 'd ScanKey list \<Rightarrow> 't \<Rightarrow> 't \<Rightarrow> int" where
  "keyscmp getattr [] = (\<lambda>l r. 0)"
| "keyscmp getattr (k # ks) =
     lex_cmp (\<lambda>l r. keycmp k (getattr l (sk_attno k)) (getattr r (sk_attno k)))
       (keyscmp getattr ks)"

lemma comparetup_heap_loop_keyscmp:
  "good_keys ks \<Longrightarrow> comparetup_heap_loop getattr ks l r = Inr (keyscmp getattr ks l r)"
  by (induction ks)
    (auto simp: inlineApply_keycmp lex_cmp_def Let_def split: prod.splits)

lemma keyscmp_comparator: "good_keys ks \<Longrightarrow> sort_comparator (keyscmp getattr ks)"
proof (induction ks)
  case Nil
  show ?case by (simp add: sort_comparator_const)
next
  case (Cons k ks)
  then have "sort_comparator (\<lambda>l r. keycmp k (getattr l (sk_attno k)) (getattr r (sk_attno k)))"
    by - (rule sort_comparator.through [OF keycmp_comparator], simp)
  with Cons show ?case by (simp add: sort_comparator_lex)
qed

lemma comparetup_heap_lex:
  assumes "good_keys (k # ks)"
  shows "comparetup_heap getattr (k # ks) a b =
    Inr (lex_cmp (\<lambda>a b. keycmp k (datum1 a, isnull1 a) (datum1 b, isnull1 b))
           (\<lambda>a b. keyscmp getattr ks (tuple a) (tuple b)) a b)"
  using assms
  by (simp add: comparetup_heap_def inlineApply_keycmp comparetup_heap_loop_keyscmp lex_cmp_def)

lemma tuplecmp_lex:
  assumes "good_keys (k # ks)"
  shows "tuplecmp getattr (k # ks) =
    lex_cmp (\<lambda>a b. keycmp k (datum1 a, isnull1 a) (datum1 b, isnull1 b))
           (\<lambda>a b. keyscmp getattr ks (tuple a) (tuple b))"
  by (intro ext) (simp add: tuplecmp_def comparetup_heap_lex [OF assms])

lemma tuplecmp_comparator:
  fixes getattr :: "'t \<Rightarrow> int \<Rightarrow> 'd \<times> bool"
  assumes "good_keys ks" and "ks \<noteq> []"
  shows "sort_comparator (tuplecmp getattr ks)"
proof -
  obtain k ks' where ks: "ks = k # ks'"
    using assms(2) by (cases ks) auto
  have "sort_comparator (\<lambda>a b :: ('t, 'd) SortTuple. keycmp k (datum1 a, isnull1 a) (datum1 b, isnull1 b))"
    using assms(1) by - (rule sort_comparator.through [OF keycmp_comparator], simp add: ks)
  moreover have "sort_comparator (\<lambda>a b :: ('t, 'd) SortTuple. keyscmp getattr ks' (tuple a) (tuple b))"
    using assms(1) by - (rule sort_comparator.through [OF keyscmp_comparator], simp add: ks)
  ultimately show ?thesis
    using assms(1) by (simp add: ks tuplecmp_lex sort_comparator_lex)
qed

text \<open>The comparison never looks at \<^verbatim>\<open>tupindex\<close>.\<close>

lemma tuplecmp_tupindex [simp]:
  "tuplecmp getattr ks (a\<lparr>tupindex := i\<rparr>) b = tuplecmp getattr ks a b"
  "tuplecmp getattr ks a (b\<lparr>tupindex := i\<rparr>) = tuplecmp getattr ks a b"
  by (simp_all add: tuplecmp_def comparetup_heap_def Let_def cong: sum.case_cong if_cong)

section \<open>Reversing the direction\<close>

lemma reversedirection_simps [simp]:
  "reversedirection_heap [] = []"
  "reversedirection_heap (k # ks) =
     k\<lparr>sk_flags := sk_flags k XOR (SK_BT_DESC OR SK_BT_NULLS_FIRST)\<rparr> # reversedirection_heap ks"
  by (simp_all add: reversedirection_heap_def)

lemma good_keys_reversed [simp]: "good_keys (reversedirection_heap ks) = good_keys ks"
  by (induction ks) simp_all

lemma reversedirection_eq_Nil [simp]: "reversedirection_heap ks = [] \<longleftrightarrow> ks = []"
  by (simp add: reversedirection_heap_def)

lemma reversedirection_involution [simp]: "reversedirection_heap (reversedirection_heap ks) = ks"
  by (induction ks) (simp_all add: xor.assoc)

lemma keycmp_reversed:
  "keycmp (k\<lparr>sk_flags := sk_flags k XOR (SK_BT_DESC OR SK_BT_NULLS_FIRST)\<rparr>) a b = - keycmp k a b"
  by (simp add: keycmp_def flags_reversed)

lemma keyscmp_reversed: "keyscmp getattr (reversedirection_heap ks) l r = - keyscmp getattr ks l r"
  by (induction ks) (simp_all add: lex_cmp_def keycmp_reversed)

lemma tuplecmp_reversed:
  assumes "good_keys ks" and "ks \<noteq> []"
  shows "tuplecmp getattr (reversedirection_heap ks) a b = - tuplecmp getattr ks a b"
proof -
  obtain k ks' where ks: "ks = k # ks'"
    using assms(2) by (cases ks) auto
  have "good_keys (reversedirection_heap (k # ks'))"
    using assms(1) by (simp add: ks)
  then show ?thesis
    using assms(1) by (simp add: ks tuplecmp_lex lex_cmp_def keycmp_reversed keyscmp_reversed)
qed

end
