(* ===== verification/TupleHeap.thy ===== *)
theory TupleHeap
  imports SortKeys
begin

text \<open>
  The binary heap of \<^verbatim>\<open>tuplesort.c\<close> (Knuth's Algorithm 5.2.3H): \<^verbatim>\<open>HEAPCOMPARE\<close>,
  the loops of \<^verbatim>\<open>tuplesort_heap_insert\<close> and \<^verbatim>\<open>tuplesort_heap_siftup\<close> over the
  array \<^verbatim>\<open>memtuples\<close>, the heap order, and the proof that the two operations keep it.

  The array is a list as long as its allocation; the first \<open>n\<close> entries are the heap.
\<close>

section \<open>Comparing heap entries\<close>

definition heapcompare ::
  "(('t, 'd) SortTuple \<Rightarrow> ('t, 'd) SortTuple \<Rightarrow> int) \<Rightarrow> bool \<Rightarrow>
   ('t, 'd) SortTuple \<Rightarrow> ('t, 'd) SortTuple \<Rightarrow> int" where
  "heapcompare comparetup checkIndex tup1 tup2 =
     (if checkIndex \<and> tupindex tup1 \<noteq> tupindex tup2 then tupindex tup1 - tupindex tup2
      else comparetup tup1 tup2)"

section \<open>The loops over the array\<close>

definition parent :: "nat \<Rightarrow> nat" where
  "parent j = (j - 1) div 2"

text \<open>
  \<^verbatim>\<open>tuplesort_heap_insert\<close>: the hole starts at the end and moves towards the root
  while the new tuple is smaller than the hole's parent.
\<close>

function heap_insert_loop :: "('s \<Rightarrow> 's \<Rightarrow> int) \<Rightarrow> 's list \<Rightarrow> 's \<Rightarrow> nat \<Rightarrow> 's list" where
  "heap_insert_loop hc memtuples tup j =
     (if j > 0 then
        (let i = parent j
         in if hc tup (memtuples ! i) \<ge> 0 then memtuples[j := tup]
            else heap_insert_loop hc (memtuples[j := memtuples ! i]) tup i)
      else memtuples[j := tup])"
  by pat_completeness auto
termination
  by (relation "measure (\<lambda>(hc, memtuples, tup, j). j)") (auto simp: parent_def)

declare heap_insert_loop.simps [simp del]

text \<open>
  \<^verbatim>\<open>tuplesort_heap_siftup\<close>: the hole starts at the root and moves to the smaller
  child while the tuple to be reinserted is larger than that child.
\<close>

definition smaller_child :: "('s \<Rightarrow> 's \<Rightarrow> int) \<Rightarrow> 's list \<Rightarrow> nat \<Rightarrow> nat \<Rightarrow> nat" where
  "smaller_child hc memtuples n i =
     (let j = 2 * i + 1
      in if j + 1 < n \<and> hc (memtuples ! j) (memtuples ! (j + 1)) > 0 then j + 1 else j)"

function heap_siftup_loop :: "('s \<Rightarrow> 's \<Rightarrow> int) \<Rightarrow> 's list \<Rightarrow> nat \<Rightarrow> 's \<Rightarrow> nat \<Rightarrow> 's list" where
  "heap_siftup_loop hc memtuples n tup i =
     (if 2 * i + 1 \<ge> n then memtuples[i := tup]
      else if hc tup (memtuples ! smaller_child hc memtuples n i) \<le> 0 then memtuples[i := tup]
      else heap_siftup_loop hc
             (memtuples[i := memtuples ! smaller_child hc memtuples n i]) n tup
             (smaller_child hc memtuples n i))"
  by pat_completeness auto
termination
  by (relation "measure (\<lambda>(hc, memtuples, n, tup, i). n - i)")
    (auto simp: smaller_child_def Let_def)

declare heap_siftup_loop.simps [simp del]

section \<open>Heap order\<close>

text \<open>Every entry but the root is no smaller than its parent.\<close>

definition heap_ok :: "('s \<Rightarrow> 's \<Rightarrow> int) \<Rightarrow> 's list \<Rightarrow> nat \<Rightarrow> bool" where
  "heap_ok hc xs n \<longleftrightarrow> (\<forall>k. 0 < k \<and> k < n \<longrightarrow> hc (xs ! parent k) (xs ! k) \<le> 0)"

text \<open>Heap order but for the edge above \<open>j\<close>, or but for the edges below \<open>i\<close>.\<close>

definition heap_but_up :: "('s \<Rightarrow> 's \<Rightarrow> int) \<Rightarrow> 's list \<Rightarrow> nat \<Rightarrow> nat \<Rightarrow> bool" where
  "heap_but_up hc xs n j \<longleftrightarrow>
     (\<forall>k. 0 < k \<and> k < n \<and> k \<noteq> j \<longrightarrow> hc (xs ! parent k) (xs ! k) \<le> 0) \<and>
     (\<forall>k. 0 < k \<and> k < n \<and> parent k = j \<and> 0 < j \<longrightarrow> hc (xs ! parent j) (xs ! k) \<le> 0)"

definition heap_but_down :: "('s \<Rightarrow> 's \<Rightarrow> int) \<Rightarrow> 's list \<Rightarrow> nat \<Rightarrow> nat \<Rightarrow> bool" where
  "heap_but_down hc xs n i \<longleftrightarrow>
     (\<forall>k. 0 < k \<and> k < n \<and> parent k \<noteq> i \<longrightarrow> hc (xs ! parent k) (xs ! k) \<le> 0) \<and>
     (\<forall>k. 0 < k \<and> k < n \<and> parent k = i \<and> 0 < i \<longrightarrow> hc (xs ! parent i) (xs ! k) \<le> 0)"

lemma parent_less: "0 < j \<Longrightarrow> parent j < j"
  by (auto simp: parent_def)

lemma parent_eq: "0 < k \<Longrightarrow> parent k = i \<longleftrightarrow> k = 2 * i + 1 \<or> k = 2 * i + 2"
  unfolding parent_def by presburger

section \<open>The loops as exchanges\<close>

text \<open>
  Both loops carry the tuple in hand and move a hole; writing the tuple into the hole
  first makes each step an exchange of two entries, which keeps the multiset.
\<close>

lemma heap_insert_loop_step:
  assumes "j > 0" "j < length xs" "hc tup (xs ! parent j) < 0"
  shows "heap_insert_loop hc xs tup j =
    heap_insert_loop hc (xs[j := xs ! parent j]) tup (parent j)"
  using assms by (subst heap_insert_loop.simps) (simp add: Let_def)

lemma length_heap_insert_loop [simp, array_simps]:
  "length (heap_insert_loop hc xs tup j) = length xs"
  by (induction hc xs tup j rule: heap_insert_loop.induct)
    (subst heap_insert_loop.simps, simp add: Let_def)

lemma smaller_child_bounds:
  "2 * i + 1 < n \<Longrightarrow> i < smaller_child hc xs n i \<and> smaller_child hc xs n i < n"
  by (auto simp: smaller_child_def Let_def)

lemma smaller_child_cases:
  "smaller_child hc xs n i = 2 * i + 1 \<or> smaller_child hc xs n i = 2 * i + 2 \<and> 2 * i + 2 < n"
  by (auto simp: smaller_child_def Let_def)

lemma length_heap_siftup_loop [simp, array_simps]:
  "length (heap_siftup_loop hc xs n tup i) = length xs"
  by (induction hc xs n tup i rule: heap_siftup_loop.induct)
    (subst heap_siftup_loop.simps, simp)

lemma drop_heap_insert_loop:
  "j < n \<Longrightarrow> drop n (heap_insert_loop hc xs tup j) = drop n xs"
proof (induction hc xs tup j rule: heap_insert_loop.induct)
  case (1 hc xs tup j)
  have "j > 0 \<Longrightarrow> parent j < n" using "1.prems" less_trans parent_less by blast
  with 1 show ?case by (subst heap_insert_loop.simps) (simp add: Let_def)
qed

lemma drop_heap_siftup_loop:
  "i < m \<Longrightarrow> n \<le> m \<Longrightarrow> drop m (heap_siftup_loop hc xs n tup i) = drop m xs"
proof (induction hc xs n tup i rule: heap_siftup_loop.induct)
  case (1 hc xs n tup i)
  then show ?case
    using smaller_child_bounds [of i n hc xs]
    by (subst heap_siftup_loop.simps) auto
qed

lemma mset_heap_insert_loop:
  "j < length xs \<Longrightarrow> mset (heap_insert_loop hc xs tup j) = mset (xs[j := tup])"
proof (induction hc xs tup j rule: heap_insert_loop.induct)
  case (1 hc xs tup j)
  let ?i = "parent j"
  show ?case
  proof (cases "j > 0 \<and> hc tup (xs ! ?i) < 0")
    case True
    then have ij: "?i \<noteq> j" "?i < length xs" using "1.prems" parent_less [of j] by auto
    have "mset (heap_insert_loop hc xs tup j) = mset ((xs[j := xs ! ?i])[?i := tup])"
      using True "1.prems" ij by (subst heap_insert_loop.simps) (simp add: Let_def "1.IH")
    also have "\<dots> = mset (xs[j := tup])"
      using ij "1.prems" by (subst list_update_hole) (simp_all add: mset_swap_at)
    finally show ?thesis .
  next
    case False
    then show ?thesis by (subst heap_insert_loop.simps) (auto simp: Let_def)
  qed
qed

lemma mset_heap_siftup_loop:
  "i < length xs \<Longrightarrow> n \<le> length xs \<Longrightarrow> mset (heap_siftup_loop hc xs n tup i) = mset (xs[i := tup])"
proof (induction hc xs n tup i rule: heap_siftup_loop.induct)
  case (1 hc xs n tup i)
  let ?j = "smaller_child hc xs n i"
  show ?case
  proof (cases "2 * i + 1 < n \<and> hc tup (xs ! ?j) > 0")
    case True
    then have j: "?j \<noteq> i" "?j < length xs"
      using "1.prems" smaller_child_bounds [of i n hc xs] by auto
    have "mset (heap_siftup_loop hc xs n tup i) = mset ((xs[i := xs ! ?j])[?j := tup])"
      using j True "1.prems" by (subst heap_siftup_loop.simps) (simp add: "1.IH")
    also have "\<dots> = mset (xs[i := tup])"
      using j "1.prems" by (subst list_update_hole) (simp_all add: mset_swap_at)
    finally show ?thesis .
  next
    case False
    then show ?thesis by (subst heap_siftup_loop.simps) auto
  qed
qed

section \<open>The loops restore the heap order\<close>

context sort_comparator
begin

lemma heap_root_least:
  assumes "heap_ok cmp xs n" and "k < n"
  shows "cmp (xs ! 0) (xs ! k) \<le> 0"
  using assms(2)
proof (induction k rule: less_induct)
  case (less k)
  show ?case
  proof (cases "k = 0")
    case False
    then have "cmp (xs ! 0) (xs ! parent k) \<le> 0"
      using less parent_less [of k] by simp
    moreover have "cmp (xs ! parent k) (xs ! k) \<le> 0"
      using assms(1) False less.prems by (simp add: heap_ok_def)
    ultimately show ?thesis by (rule cmp_trans)
  qed simp
qed

lemma heap_but_up_step:
  assumes up: "heap_but_up cmp xs n j" and j: "0 < j" "j < n" "n \<le> length xs"
    and lt: "cmp (xs ! j) (xs ! parent j) < 0"
  shows "heap_but_up cmp (swap_at xs j (parent j)) n (parent j)"
proof -
  define p where "p = parent j"
  have p: "p < j" using j by (simp add: p_def parent_less)
  have lt: "cmp (xs ! j) (xs ! p) < 0" using lt by (simp add: p_def)
  have nth: "swap_at xs j p ! k = (if k = p then xs ! j else if k = j then xs ! p else xs ! k)"
    if "k < n" for k
    using that p j by (simp add: swap_at_nth)
  have edge: "cmp (xs ! parent k) (xs ! k) \<le> 0" if "0 < k" "k < n" "k \<noteq> j" for k
    using up that by (simp add: heap_but_up_def)
  have below: "cmp (xs ! p) (xs ! k) \<le> 0" if "0 < k" "k < n" "parent k = j" for k
    using up that j by (simp add: heap_but_up_def p_def)
  show ?thesis
    unfolding heap_but_up_def p_def [symmetric]
  proof (intro conjI allI impI)
    fix k assume k: "0 < k \<and> k < n \<and> k \<noteq> p"
    then have pk: "parent k < n" using parent_less [of k] by simp
    consider "k = j" | "k \<noteq> j" "parent k = j" | "k \<noteq> j" "parent k = p"
      | "k \<noteq> j" "parent k \<noteq> j" "parent k \<noteq> p" by blast
    then show "cmp (swap_at xs j p ! parent k) (swap_at xs j p ! k) \<le> 0"
    proof cases
      case 1
      then have "parent k = p" by (simp add: p_def)
      with 1 k pk lt p show ?thesis by (simp add: nth)
    next
      case 2
      with k pk p below [of k] show ?thesis by (simp add: nth)
    next
      case 3
      then have "cmp (xs ! p) (xs ! k) \<le> 0" using edge [of k] k by simp
      with lt have "cmp (xs ! j) (xs ! k) \<le> 0" using cmp_trans by (meson less_imp_le)
      with 3 k p j show ?thesis by (simp add: nth)
    next
      case 4
      with k pk edge [of k] show ?thesis by (simp add: nth)
    qed
  next
    fix k assume k: "0 < k \<and> k < n \<and> parent k = p \<and> 0 < p"
    then have q: "parent p < n" "parent p \<noteq> j" "parent p \<noteq> p" "k \<noteq> p"
      using parent_less [of p] parent_less [of k] p j by auto
    have pp: "cmp (xs ! parent p) (xs ! p) \<le> 0"
      using edge [of p] k p j by simp
    have "cmp (xs ! parent p) (xs ! k) \<le> 0" if "k \<noteq> j"
      using cmp_trans [OF pp] edge [of k] k that by simp
    with pp k p j q show "cmp (swap_at xs j p ! parent p) (swap_at xs j p ! k) \<le> 0"
      by (simp add: nth)
  qed
qed

lemma heap_insert_loop_ok:
  "j < n \<Longrightarrow> n \<le> length xs \<Longrightarrow> heap_but_up cmp (xs[j := tup]) n j \<Longrightarrow>
   heap_ok cmp (heap_insert_loop cmp xs tup j) n"
proof (induction j arbitrary: xs rule: less_induct)
  case (less j)
  let ?p = "parent j"
  show ?case
  proof (cases "j > 0 \<and> cmp tup (xs ! ?p) < 0")
    case True
    then have p: "?p < j" "?p < length xs" "?p \<noteq> j"
      using less.prems parent_less [of j] by auto
    have hole: "(xs[j := xs ! ?p])[?p := tup] = swap_at (xs[j := tup]) j ?p"
      using p less.prems by (intro list_update_hole) auto
    have "heap_but_up cmp ((xs[j := xs ! ?p])[?p := tup]) n ?p"
      unfolding hole using True p less.prems by (intro heap_but_up_step) auto
    then have "heap_ok cmp (heap_insert_loop cmp (xs[j := xs ! ?p]) tup ?p) n"
      using p less.prems by (intro less.IH) auto
    with True less.prems show ?thesis
      by (simp add: heap_insert_loop_step [of j xs cmp tup])
  next
    case False
    then have "heap_insert_loop cmp xs tup j = xs[j := tup]"
      by (subst heap_insert_loop.simps) (auto simp: Let_def)
    moreover have "cmp (xs[j := tup] ! parent k) (xs[j := tup] ! k) \<le> 0" if "0 < k" "k < n" for k
    proof (cases "k = j")
      case True
      then show ?thesis
        using False that less.prems cmp_le_flip [of "xs ! ?p" tup] parent_less [of j] by simp
    next
      case k: False
      then show ?thesis using less.prems(3) that by (simp add: heap_but_up_def)
    qed
    ultimately show ?thesis by (simp add: heap_ok_def)
  qed
qed

lemma smaller_child_least:
  assumes "0 < k" "k < n" "parent k = i"
  shows "cmp (xs ! smaller_child cmp xs n i) (xs ! k) \<le> 0"
proof -
  have k: "k = 2 * i + 1 \<or> k = 2 * i + 2"
    using assms parent_eq by blast
  have "cmp (xs ! (2 * i + 2)) (xs ! (2 * i + 1)) \<le> 0" if "cmp (xs ! (2 * i + 1)) (xs ! (2 * i + 2)) > 0"
    using that cmp_le_flip less_imp_le by blast
  with k assms(2) show ?thesis
    by (auto simp: smaller_child_def Let_def)
qed

lemma heap_but_down_step:
  assumes down: "heap_but_down cmp xs n i" and j: "0 < j" "j < n" "n \<le> length xs" "parent j = i"
    and least: "\<And>k. 0 < k \<Longrightarrow> k < n \<Longrightarrow> parent k = i \<Longrightarrow> cmp (xs ! j) (xs ! k) \<le> 0"
    and gt: "cmp (xs ! i) (xs ! j) > 0"
  shows "heap_but_down cmp (swap_at xs i j) n j"
proof -
  have i: "i < j" using j parent_less by blast
  have nth: "swap_at xs i j ! k = (if k = j then xs ! i else if k = i then xs ! j else xs ! k)"
    if "k < n" for k
    using that i j by (simp add: swap_at_nth)
  have edge: "cmp (xs ! parent k) (xs ! k) \<le> 0" if "0 < k" "k < n" "parent k \<noteq> i" for k
    using down that by (simp add: heap_but_down_def)
  have above: "cmp (xs ! parent i) (xs ! j) \<le> 0" if "0 < i"
    using down that j by (simp add: heap_but_down_def)
  have ji: "cmp (xs ! j) (xs ! i) \<le> 0"
    using gt cmp_le_flip less_imp_le by blast
  show ?thesis
    unfolding heap_but_down_def
  proof (intro conjI allI impI)
    fix k assume k: "0 < k \<and> k < n \<and> parent k \<noteq> j"
    then have pk: "parent k < k" "parent k < n" using parent_less [of k] by auto
    show "cmp (swap_at xs i j ! parent k) (swap_at xs i j ! k) \<le> 0"
    proof (cases "parent k = i")
      case True
      with k pk ji least [of k] show ?thesis by (auto simp: nth)
    next
      case False
      with k pk edge [of k] above j show ?thesis by (auto simp: nth)
    qed
  next
    fix k assume k: "0 < k \<and> k < n \<and> parent k = j \<and> 0 < j"
    then have "k \<noteq> i" "k \<noteq> j" using parent_less [of k] i by auto
    with k i j edge [of k] show "cmp (swap_at xs i j ! parent j) (swap_at xs i j ! k) \<le> 0"
      by (simp add: nth)
  qed
qed

lemma heap_siftup_loop_ok:
  "i < n \<Longrightarrow> n \<le> length xs \<Longrightarrow> heap_but_down cmp (xs[i := tup]) n i \<Longrightarrow>
   heap_ok cmp (heap_siftup_loop cmp xs n tup i) n"
proof (induction "n - i" arbitrary: i xs rule: less_induct)
  case less
  let ?j = "smaller_child cmp xs n i"
  have settled: "heap_ok cmp (xs[i := tup]) n"
    if "\<And>k. 0 < k \<Longrightarrow> k < n \<Longrightarrow> parent k = i \<Longrightarrow> cmp tup (xs ! k) \<le> 0"
    unfolding heap_ok_def
  proof (intro allI impI)
    fix k assume k: "0 < k \<and> k < n"
    show "cmp (xs[i := tup] ! parent k) (xs[i := tup] ! k) \<le> 0"
    proof (cases "parent k = i")
      case True
      with k that [of k] less.prems parent_less [of k] show ?thesis by simp
    next
      case False
      with k less.prems(3) show ?thesis by (simp add: heap_but_down_def)
    qed
  qed
  show ?case
  proof (cases "2 * i + 1 < n \<and> cmp tup (xs ! ?j) > 0")
    case True
    then have j: "i < ?j" "?j < n" "?j < length xs" "parent ?j = i"
      using smaller_child_bounds [of i n cmp xs] smaller_child_cases [of cmp xs n i] less.prems
      by (auto simp: parent_eq)
    have hole: "(xs[i := xs ! ?j])[?j := tup] = swap_at (xs[i := tup]) i ?j"
      using j less.prems by (intro list_update_hole) auto
    have "heap_but_down cmp (swap_at (xs[i := tup]) i ?j) n ?j"
    proof (rule heap_but_down_step)
      show "cmp (xs[i := tup] ! ?j) (xs[i := tup] ! k) \<le> 0" if "0 < k" "k < n" "parent k = i" for k
        using smaller_child_least [OF that, of xs] that j parent_less [of k] by simp
    qed (use less.prems True j in auto)
    then have "heap_ok cmp (heap_siftup_loop cmp (xs[i := xs ! ?j]) n tup ?j) n"
      using j less.prems by (intro less.hyps) (auto simp: hole)
    with True less.prems show ?thesis
      by (subst heap_siftup_loop.simps) simp
  next
    case False
    have "heap_ok cmp (xs[i := tup]) n"
    proof (rule settled)
      fix k assume k: "0 < k" "k < n" "parent k = i"
      then have "2 * i + 1 < n" using parent_eq [of k i] by auto
      with False have "cmp tup (xs ! ?j) \<le> 0" by simp
      with smaller_child_least [OF k, of xs] show "cmp tup (xs ! k) \<le> 0"
        using cmp_trans by blast
    qed
    moreover have "heap_siftup_loop cmp xs n tup i = xs[i := tup]"
      using False by (subst heap_siftup_loop.simps) auto
    ultimately show ?thesis by simp
  qed
qed

text \<open>What a caller of the two operations needs: heap order and contents afterwards.\<close>

lemma heap_insert_heap_ok:
  assumes "heap_ok cmp xs n" and "n < length xs"
  shows "heap_ok cmp (heap_insert_loop cmp xs tup n) (Suc n)"
proof (rule heap_insert_loop_ok)
  show "heap_but_up cmp (xs[n := tup]) (Suc n) n"
    unfolding heap_but_up_def
  proof (intro conjI allI impI)
    fix k assume k: "0 < k \<and> k < Suc n \<and> k \<noteq> n"
    then have "parent k \<noteq> n" using parent_less [of k] by auto
    with k assms show "cmp (xs[n := tup] ! parent k) (xs[n := tup] ! k) \<le> 0"
      by (simp add: heap_ok_def)
  next
    fix k assume "0 < k \<and> k < Suc n \<and> parent k = n \<and> 0 < n"
    then show "cmp (xs[n := tup] ! parent n) (xs[n := tup] ! k) \<le> 0"
      using parent_less [of k] by simp
  qed
qed (use assms in auto)

lemma heap_siftup_heap_ok:
  assumes "heap_ok cmp xs (Suc n)" and "0 < n" and "n < length xs"
  shows "heap_ok cmp (heap_siftup_loop cmp xs n (xs ! n) 0) n"
proof (rule heap_siftup_loop_ok)
  show "heap_but_down cmp (xs[0 := xs ! n]) n 0"
    using assms(1) by (auto simp: heap_but_down_def heap_ok_def nth_list_update)
qed (use assms in auto)

end

lemma mset_take_heap_insert:
  assumes "n < length xs"
  shows "mset (take (Suc n) (heap_insert_loop hc xs tup n)) = add_mset tup (mset (take n xs))"
proof -
  have "mset (take (Suc n) (heap_insert_loop hc xs tup n)) + mset (drop (Suc n) xs) =
      mset (heap_insert_loop hc xs tup n)"
    by (metis append_take_drop_id drop_heap_insert_loop lessI mset_append)
  also have "\<dots> = mset (xs[n := tup])"
    using assms by (rule mset_heap_insert_loop)
  also have "xs[n := tup] = take n xs @ tup # drop (Suc n) xs"
    using assms by (rule upd_conv_take_nth_drop)
  finally show ?thesis by simp
qed

lemma mset_take_heap_siftup:
  assumes "0 < n" and "n < length xs"
  shows "add_mset (xs ! 0) (mset (take n (heap_siftup_loop hc xs n (xs ! n) 0))) = mset (take (Suc n) xs)"
proof -
  let ?r = "heap_siftup_loop hc xs n (xs ! n) 0"
  have "mset (take n ?r) + mset (drop n xs) = mset ?r"
    using assms by (metis append_take_drop_id drop_heap_siftup_loop le_refl mset_append)
  also have "\<dots> = mset (xs[0 := xs ! n])"
    using assms by (intro mset_heap_siftup_loop) auto
  also have "add_mset (xs ! 0) \<dots> = add_mset (xs ! n) (mset xs)"
  proof -
    have "0 < length xs" using assms by linarith
    then have "add_mset (xs ! 0) (mset xs - {#xs ! 0#}) = mset xs" by (simp add: insert_DiffM)
    with \<open>0 < length xs\<close> show ?thesis by (metis add_mset_commute mset_update)
  qed
  also have "mset xs = mset (take n xs) + mset (drop n xs)"
    by (metis append_take_drop_id mset_append)
  finally have "add_mset (xs ! 0) (mset (take n ?r)) = add_mset (xs ! n) (mset (take n xs))"
    by simp
  then show ?thesis using assms by (simp add: take_Suc_conv_app_nth)
qed

end
