(* ===== verification/TupleQueue.thy ===== *)
theory TupleQueue
  imports TupleHeap
begin

text \<open>
  The contract of the sort's priority queue, and merging over it. Three parts of the
  program merge sorted streams the same way, the tapes of an external sort, the tuples
  that workers send back, and the sorts of several workers read in one process: the
  queue holds one tuple of every stream that is not exhausted, the least is delivered,
  and the next tuple of its stream takes its place. The locale \<open>tuple_queue\<close> states
  what this needs of the queue.
\<close>

section \<open>Merging streams\<close>

text \<open>
  \<open>out\<close> has been delivered, \<open>H\<close> is in the queue, and \<open>S i\<close> is what stream
  \<open>i\<close> still holds; \<open>src\<close> tells which stream an element of the queue came from.
\<close>

definition merge_inv ::
  "('a \<Rightarrow> 'a \<Rightarrow> int) \<Rightarrow> ('a \<Rightarrow> nat) \<Rightarrow> 'a list \<Rightarrow> 'a multiset \<Rightarrow> (nat \<Rightarrow> 'a list) \<Rightarrow> bool" where
  "merge_inv cmp src out H S \<longleftrightarrow>
     sorted_wrt (\<lambda>x y. cmp x y \<le> 0) out \<and>
     (\<forall>x\<in>set out. \<forall>h\<in>#H. cmp x h \<le> 0) \<and>
     (\<forall>i. sorted_wrt (\<lambda>x y. cmp x y \<le> 0) (S i)) \<and>
     (\<forall>i. S i \<noteq> [] \<longrightarrow> (\<exists>h\<in>#H. src h = i \<and> cmp h (hd (S i)) \<le> 0))"

lemma merge_inv_empty:
  "merge_inv cmp src out {#} S \<Longrightarrow> sorted_wrt (\<lambda>x y. cmp x y \<le> 0) out \<and> S i = []"
  by (auto simp: merge_inv_def)

context sort_comparator
begin

text \<open>The least element of the queue goes out, and its stream is exhausted.\<close>

lemma merge_inv_last:
  assumes inv: "merge_inv cmp src out (add_mset m H) S"
    and least: "\<And>h. h \<in># H \<Longrightarrow> cmp m h \<le> 0" and "S (src m) = []"
  shows "merge_inv cmp src (out @ [m]) H S"
  using assms by (auto simp: merge_inv_def sorted_wrt_append)

text \<open>The least element goes out, and the next one of its stream goes in.\<close>

lemma merge_inv_next:
  assumes inv: "merge_inv cmp src out (add_mset m H) S"
    and least: "\<And>h. h \<in># H \<Longrightarrow> cmp m h \<le> 0"
    and S: "S (src m) = x # xs" and x: "src x = src m"
  shows "merge_inv cmp src (out @ [m]) (add_mset x H) (S(src m := xs))"
proof -
  have sx: "sorted_cmp (x # xs)" using inv S by (metis merge_inv_def)
  have "\<exists>h\<in>#add_mset m H. src h = src m \<and> cmp h (hd (S (src m))) \<le> 0"
    using inv S unfolding merge_inv_def by (metis list.distinct(1))
  then obtain h where h: "h = m \<or> h \<in># H" "cmp h x \<le> 0" using S by auto
  then have mx: "cmp m x \<le> 0" using least cmp_trans by blast
  have out: "cmp o' x \<le> 0" if "o' \<in> set out" for o'
    using inv mx that cmp_trans [of o' m x] by (auto simp: merge_inv_def)
  show ?thesis
    unfolding merge_inv_def
  proof (intro conjI allI ballI impI)
    show "sorted_cmp (out @ [m])" using inv by (auto simp: merge_inv_def sorted_wrt_append)
    show "cmp y h \<le> 0" if "y \<in> set (out @ [m])" "h \<in># add_mset x H" for y h
      using that inv least mx out by (auto simp: merge_inv_def)
    show "sorted_cmp ((S(src m := xs)) i)" for i
      using inv sx by (auto simp: merge_inv_def)
    show "\<exists>h\<in>#add_mset x H. src h = i \<and> cmp h (hd ((S(src m := xs)) i)) \<le> 0"
      if "(S(src m := xs)) i \<noteq> []" for i
    proof (cases "i = src m")
      case True
      with that sx x show ?thesis by (cases xs) auto
    next
      case False
      with that have "S i \<noteq> []" by simp
      with inv obtain h where "h \<in># add_mset m H" "src h = i" "cmp h (hd (S i)) \<le> 0"
        unfolding merge_inv_def by blast
      with False show ?thesis by auto
    qed
  qed
qed

end

section \<open>The contract\<close>

text \<open>
  \<open>ins\<close> needs room, \<open>root\<close> and \<open>del\<close> a queue that is not empty; \<open>del\<close> makes room.
\<close>

locale tuple_queue =
  fixes cmp :: "'a \<Rightarrow> 'a \<Rightarrow> int"
    and queue :: "'q \<Rightarrow> bool"
    and elems :: "'q \<Rightarrow> 'a multiset"
    and room :: "'q \<Rightarrow> bool"
    and ins :: "'a \<Rightarrow> 'q \<Rightarrow> 'q"
    and root :: "'q \<Rightarrow> 'a"
    and del :: "'q \<Rightarrow> 'q"
  assumes queue_cmp: "queue q \<Longrightarrow> sort_comparator cmp"
    and queue_ins: "queue q \<Longrightarrow> room q \<Longrightarrow> queue (ins x q)"
    and elems_ins: "queue q \<Longrightarrow> room q \<Longrightarrow> elems (ins x q) = add_mset x (elems q)"
    and root_least: "queue q \<Longrightarrow> x \<in># elems q \<Longrightarrow> cmp (root q) x \<le> 0"
    and queue_del: "queue q \<Longrightarrow> elems q \<noteq> {#} \<Longrightarrow> queue (del q)"
    and elems_del: "queue q \<Longrightarrow> elems q \<noteq> {#} \<Longrightarrow> add_mset (root q) (elems (del q)) = elems q"
    and room_del: "queue q \<Longrightarrow> elems q \<noteq> {#} \<Longrightarrow> room (del q)"
begin

lemma root_del_least: "queue q \<Longrightarrow> elems q \<noteq> {#} \<Longrightarrow> x \<in># elems (del q) \<Longrightarrow> cmp (root q) x \<le> 0"
  using root_least [of q x] elems_del [of q] by (metis union_single_eq_member insert_iff set_mset_add_mset_insert)

text \<open>Delivering the root, without and with a successor.\<close>

lemma merge_out_last:
  assumes "queue q" "elems q \<noteq> {#}" "merge_inv cmp src out (elems q) S" "S (src (root q)) = []"
  shows "merge_inv cmp src (out @ [root q]) (elems (del q)) S"
  using assms root_del_least [of q] elems_del [of q]
  by (intro sort_comparator.merge_inv_last [OF queue_cmp]) auto

lemma merge_out_next:
  assumes "queue q" "elems q \<noteq> {#}" "merge_inv cmp src out (elems q) S"
    and "S (src (root q)) = x # xs" "src x = src (root q)"
  shows "merge_inv cmp src (out @ [root q]) (elems (ins x (del q))) (S(src (root q) := xs))"
  using assms root_del_least [of q] elems_del [of q] elems_ins [of "del q" x] queue_del room_del
  by (simp, intro sort_comparator.merge_inv_next [OF queue_cmp]) auto

text \<open>Replacing the root by an element that is not smaller keeps the lower part of a stream.\<close>

lemma elems_replace:
  assumes "queue q" "elems q \<noteq> {#}"
  shows "queue (ins x (del q))" "elems (ins x (del q)) = add_mset x (elems q - {#root q#})"
proof -
  note q = queue_del [OF assms] room_del [OF assms]
  show "queue (ins x (del q))" using q by (rule queue_ins)
  have "elems (del q) = elems q - {#root q#}"
    using elems_del [OF assms] by (metis add_mset_remove_trivial)
  with elems_ins [OF q] show "elems (ins x (del q)) = add_mset x (elems q - {#root q#})" by simp
qed

end

end
