(* ===== verification/Tapes.thy ===== *)
theory Tapes
  imports Prelude
begin

text \<open>
  Logical tapes as the sort sees them: each tape of a set is a sequence of bytes that is
  first written from its start, then read from its start, and may be frozen when it is
  finished so that it can be read again and backwards. These definitions state what the
  interface of \<^verbatim>\<open>src/backend/utils/sort/logtape.c\<close> documents; the blocks, indirect
  blocks and free list behind it are not visible here.
\<close>

type_synonym byte = "8 word"

definition BLCKSZ :: nat where
  "BLCKSZ = 8192"

record LogicalTape =
  writing :: bool
  frozen :: bool
  contents :: "byte list"
  tape_pos :: nat

type_synonym LogicalTapeSet = "LogicalTape list"

definition LogicalTapeSetCreate :: "nat \<Rightarrow> LogicalTapeSet" where
  "LogicalTapeSetCreate ntapes =
     replicate ntapes \<lparr>writing = True, frozen = False, contents = [], tape_pos = 0\<rparr>"

definition LogicalTapeWrite :: "LogicalTapeSet \<Rightarrow> nat \<Rightarrow> byte list \<Rightarrow> pg_error + LogicalTapeSet" where
  "LogicalTapeWrite lts tapenum bytes =
     (if tapenum < length lts \<and> writing (lts ! tapenum)
      then Inr (lts[tapenum := (lts ! tapenum)\<lparr>contents := contents (lts ! tapenum) @ bytes\<rparr>])
      else Inl (TRAP ''LogicalTapeWrite''))"

definition LogicalTapeRewind :: "LogicalTapeSet \<Rightarrow> nat \<Rightarrow> bool \<Rightarrow> pg_error + LogicalTapeSet" where
  "LogicalTapeRewind lts tapenum forWrite =
     (let lt = lts ! tapenum
      in if \<not> tapenum < length lts then Inl (TRAP ''LogicalTapeRewind'')
         else if \<not> forWrite then
           (if writing lt \<or> frozen lt
            then Inr (lts[tapenum := lt\<lparr>writing := False, tape_pos := 0\<rparr>])
            else Inl (TRAP ''LogicalTapeRewind''))
         else if \<not> writing lt \<and> \<not> frozen lt
           then Inr (lts[tapenum := lt\<lparr>writing := True, contents := [], tape_pos := 0\<rparr>])
         else Inl (TRAP ''LogicalTapeRewind''))"

text \<open>Reading returns fewer bytes than asked for only at the end of the tape.\<close>

definition LogicalTapeRead ::
  "LogicalTapeSet \<Rightarrow> nat \<Rightarrow> nat \<Rightarrow> pg_error + byte list \<times> LogicalTapeSet" where
  "LogicalTapeRead lts tapenum nbytes =
     (let lt = lts ! tapenum;
          bytes = take nbytes (drop (tape_pos lt) (contents lt))
      in if tapenum < length lts \<and> \<not> writing lt
         then Inr (bytes, lts[tapenum := lt\<lparr>tape_pos := tape_pos lt + length bytes\<rparr>])
         else Inl (TRAP ''LogicalTapeRead''))"

definition LogicalTapeFreeze :: "LogicalTapeSet \<Rightarrow> nat \<Rightarrow> pg_error + LogicalTapeSet" where
  "LogicalTapeFreeze lts tapenum =
     (let lt = lts ! tapenum
      in if tapenum < length lts \<and> writing lt
         then Inr (lts[tapenum := lt\<lparr>writing := False, frozen := True, tape_pos := 0\<rparr>])
         else Inl (TRAP ''LogicalTapeFreeze''))"

definition LogicalTapeBackspace ::
  "LogicalTapeSet \<Rightarrow> nat \<Rightarrow> nat \<Rightarrow> pg_error + bool \<times> LogicalTapeSet" where
  "LogicalTapeBackspace lts tapenum nbytes =
     (let lt = lts ! tapenum
      in if \<not> (tapenum < length lts \<and> frozen lt) then Inl (TRAP ''LogicalTapeBackspace'')
         else if nbytes \<le> tape_pos lt
           then Inr (True, lts[tapenum := lt\<lparr>tape_pos := tape_pos lt - nbytes\<rparr>])
         else Inr (False, lts))"

definition LogicalTapeSeek ::
  "LogicalTapeSet \<Rightarrow> nat \<Rightarrow> int \<Rightarrow> int \<Rightarrow> pg_error + bool \<times> LogicalTapeSet" where
  "LogicalTapeSeek lts tapenum blocknum offset =
     (let lt = lts ! tapenum; p = blocknum * int BLCKSZ + offset
      in if \<not> (tapenum < length lts \<and> frozen lt \<and> 0 \<le> offset \<and> offset \<le> int BLCKSZ)
           then Inl (TRAP ''LogicalTapeSeek'')
         else if blocknum < 0 \<or> p > int (length (contents lt)) then Inr (False, lts)
         else Inr (True, lts[tapenum := lt\<lparr>tape_pos := nat p\<rparr>]))"

definition LogicalTapeTell :: "LogicalTapeSet \<Rightarrow> nat \<Rightarrow> int \<times> int" where
  "LogicalTapeTell lts tapenum =
     (int (tape_pos (lts ! tapenum) div BLCKSZ), int (tape_pos (lts ! tapenum) mod BLCKSZ))"

section \<open>Words on tape\<close>

text \<open>An \<^verbatim>\<open>unsigned int\<close> as the four bytes that \<^verbatim>\<open>LogicalTapeWrite\<close> is given, low byte first.\<close>

definition uint_bytes :: "nat \<Rightarrow> byte list" where
  "uint_bytes n = map (\<lambda>i. of_nat (n div 256 ^ i)) [0..<4]"

definition bytes_uint :: "byte list \<Rightarrow> nat" where
  "bytes_uint bs = foldr (\<lambda>b n. unat b + 256 * n) bs 0"

lemma length_uint_bytes [simp]: "length (uint_bytes n) = 4"
  by (simp add: uint_bytes_def)

lemma bytes_uint_bytes: 
  assumes "n < 2 ^ 32" shows "bytes_uint (uint_bytes n) = n"
proof -
  have [simp]: "[0..<4] = [0, 1, 2, 3 :: nat]" by (simp add: upt_rec)
  have "bytes_uint (uint_bytes n) =
      n mod 256 + 256 * (n div 256 mod 256 + 256 * (n div 256 div 256 mod 256 + 256 * (n div 256 div 256 div 256 mod 256)))"
    by (simp add: bytes_uint_def uint_bytes_def unat_of_nat div_mult2_eq [symmetric])
  also have "n div 256 div 256 div 256 mod 256 = n div 256 div 256 div 256"
    using assms by (simp add: div_mult2_eq [symmetric])
  finally show ?thesis by simp
qed

end
