(* ===== verification/TupleState.thy ===== *)
theory TupleState
  imports TupleQueue Tapes
begin

text \<open>
  The state of a sort (\<^verbatim>\<open>struct Tuplesortstate\<close> of \<^verbatim>\<open>tuplesort.c\<close>), what the sort
  uses of its surroundings, and the routines every phase of a sort is built from: the
  two heap operations on the state, memory accounting, copying a tuple into the sort,
  and writing a tuple to and reading it from a tape.
\<close>

section \<open>Tuples\<close>

text \<open>
  A \<^verbatim>\<open>MinimalTuple\<close> is the bytes after its length word and padding, the part that is
  written to tape (\<^verbatim>\<open>MINIMAL_TUPLE_DATA_OFFSET\<close> is 10 bytes); \<^verbatim>\<open>t_len\<close> counts both.
\<close>

type_synonym MinimalTuple = "byte list"
type_synonym 'd sort_tuple = "(MinimalTuple, 'd) SortTuple"

definition MINIMAL_TUPLE_DATA_OFFSET :: nat where
  "MINIMAL_TUPLE_DATA_OFFSET = 10"

definition t_len :: "MinimalTuple \<Rightarrow> nat" where
  "t_len tup = length tup + MINIMAL_TUPLE_DATA_OFFSET"

section \<open>Surroundings of a sort\<close>

text \<open>
  \<open>heap_getattr_in\<close> reads an attribute of a tuple (\<^verbatim>\<open>heap_getattr\<close> with the tuple
  descriptor of the sort), \<open>chunk_space\<close> and \<open>array_space\<close> are
  \<^verbatim>\<open>GetMemoryChunkSpace\<close> of a tuple and of a \<open>memtuples\<close> array of a given size,
  \<open>fresh_slot\<close> is what newly allocated array entries hold, and \<open>is_slave\<close> is
  \<^verbatim>\<open>isSlaveWorker()\<close>.
\<close>

record 'd sort_env =
  heap_getattr_in :: "MinimalTuple \<Rightarrow> int \<Rightarrow> 'd \<times> bool"
  chunk_space :: "MinimalTuple \<Rightarrow> int"
  array_space :: "nat \<Rightarrow> int"
  fresh_slot :: "'d sort_tuple"
  is_slave :: bool

section \<open>The state\<close>

datatype TupSortStatus =
    TSS_INITIAL | TSS_BOUNDED | TSS_BUILDRUNS | TSS_SORTEDINMEM | TSS_SORTEDONTAPE | TSS_FINALMERGE

text \<open>
  The array \<open>memtuples\<close> is a list of the allocated length. Counts and array indexes
  that the code never lets become negative are natural numbers.
\<close>

record 'd Tuplesortstate =
  status :: TupSortStatus
  nKeys :: nat
  randomAccess :: bool
  bounded :: bool
  boundUsed :: bool
  bound :: int
  availMem :: int
  allowedMem :: int
  maxTapes :: nat
  tapeRange :: nat
  tapeset :: "LogicalTapeSet option"
  memtuples :: "'d sort_tuple list"
  memtupcount :: nat
  memtupsize :: nat
  currentRun :: int
  mergeactive :: "bool list"
  mergenext :: "nat list"
  mergelast :: "nat list"
  mergeavailslots :: "int list"
  mergeavailmem :: "int list"
  mergefreelist :: nat
  mergefirstfree :: nat
  Level :: int
  destTape :: nat
  tp_fib :: "int list"
  tp_runs :: "int list"
  tp_dummy :: "int list"
  tp_tapenum :: "nat list"
  activeTapes :: nat
  result_tape :: int
  current :: int
  eof_reached :: bool
  markpos_block :: int
  markpos_offset :: int
  markpos_eof :: bool
  scanKeys :: "'d ScanKey list"
  isParallel :: bool
  isParallelEnded :: bool
  lastWorker :: int
  workersCnt :: int
  workersFinished :: "bool list"
  workers :: "nat list"
  workersId :: int

abbreviation LACKMEM :: "'d Tuplesortstate \<Rightarrow> bool" where
  "LACKMEM state \<equiv> availMem state < 0"

abbreviation USEMEM :: "int \<Rightarrow> 'd Tuplesortstate \<Rightarrow> 'd Tuplesortstate" where
  "USEMEM amt state \<equiv> state\<lparr>availMem := availMem state - amt\<rparr>"

abbreviation FREEMEM :: "int \<Rightarrow> 'd Tuplesortstate \<Rightarrow> 'd Tuplesortstate" where
  "FREEMEM amt state \<equiv> state\<lparr>availMem := availMem state + amt\<rparr>"

section \<open>Comparison and heap operations on the state\<close>

definition COMPARETUP :: "'d sort_env \<Rightarrow> 'd Tuplesortstate \<Rightarrow> 'd sort_tuple \<Rightarrow> 'd sort_tuple \<Rightarrow> int" where
  "COMPARETUP env state = tuplecmp (heap_getattr_in env) (scanKeys state)"

definition REVERSEDIRECTION :: "'d Tuplesortstate \<Rightarrow> 'd Tuplesortstate" where
  "REVERSEDIRECTION state = state\<lparr>scanKeys := reversedirection_heap (scanKeys state)\<rparr>"

definition tuplesort_heap_insert ::
  "'d sort_env \<Rightarrow> 'd Tuplesortstate \<Rightarrow> 'd sort_tuple \<Rightarrow> int \<Rightarrow> bool \<Rightarrow> pg_error + 'd Tuplesortstate" where
  "tuplesort_heap_insert env state stup tupleindex checkIndex =
     (let stup = stup\<lparr>tupindex := tupleindex\<rparr>
      in if \<not> memtupcount state < memtupsize state
         then Inl (TRAP ''memtupcount < memtupsize'')
         else Inr (state\<lparr>memtupcount := memtupcount state + 1,
                memtuples := heap_insert_loop (heapcompare (COMPARETUP env state) checkIndex)
                  (memtuples state) stup (memtupcount state)\<rparr>))"

definition tuplesort_heap_siftup ::
  "'d sort_env \<Rightarrow> 'd Tuplesortstate \<Rightarrow> bool \<Rightarrow> 'd Tuplesortstate" where
  "tuplesort_heap_siftup env state checkIndex =
     (let n = memtupcount state - 1; state = state\<lparr>memtupcount := n\<rparr>
      in if n = 0 then state
         else state\<lparr>memtuples := heap_siftup_loop (heapcompare (COMPARETUP env state) checkIndex)
                (memtuples state) n (memtuples state ! n) 0\<rparr>)"

section \<open>Tuples in sort memory\<close>

definition free_sort_tuple :: "'d sort_env \<Rightarrow> 'd Tuplesortstate \<Rightarrow> 'd sort_tuple \<Rightarrow> 'd Tuplesortstate" where
  "free_sort_tuple env state stup = FREEMEM (chunk_space env (tuple stup)) state"

definition computeDatum1 :: "'d sort_env \<Rightarrow> 'd Tuplesortstate \<Rightarrow> 'd sort_tuple \<Rightarrow> 'd sort_tuple" where
  "computeDatum1 env state stup =
     (case heap_getattr_in env (tuple stup) (sk_attno (scanKeys state ! 0)) of
        (d, null) \<Rightarrow> stup\<lparr>datum1 := d, isnull1 := null\<rparr>)"

definition copytup_heap ::
  "'d sort_env \<Rightarrow> 'd Tuplesortstate \<Rightarrow> 'd sort_tuple \<Rightarrow> MinimalTuple \<Rightarrow> 'd Tuplesortstate \<times> 'd sort_tuple" where
  "copytup_heap env state stup slot =
     (let stup = stup\<lparr>tuple := slot\<rparr>;
          state = USEMEM (chunk_space env slot) state
      in case heap_getattr_in env slot (sk_attno (scanKeys state ! 0)) of
           (d, null) \<Rightarrow> (state, stup\<lparr>datum1 := d, isnull1 := null\<rparr>))"

text \<open>A sort tuple in step with the tuple it caches the leading key of.\<close>

definition datum1_ok :: "'d sort_env \<Rightarrow> 'd ScanKey list \<Rightarrow> 'd sort_tuple \<Rightarrow> bool" where
  "datum1_ok env ks stup \<longleftrightarrow> heap_getattr_in env (tuple stup) (sk_attno (ks ! 0)) = (datum1 stup, isnull1 stup)"

section \<open>Tape records\<close>

text \<open>
  \<^verbatim>\<open>writetup_heap\<close>, \<^verbatim>\<open>readtup_heap\<close>, \<^verbatim>\<open>getlen\<close> and \<^verbatim>\<open>markrunend\<close>; the state of
  a sort that uses tapes has a tape set.
\<close>

definition on_tapes ::
  "('d Tuplesortstate \<Rightarrow> LogicalTapeSet \<Rightarrow> pg_error + 'a) \<Rightarrow> 'd Tuplesortstate \<Rightarrow> pg_error + 'a" where
  "on_tapes f state = (case tapeset state of None \<Rightarrow> Inl (TRAP ''tapeset'') | Some lts \<Rightarrow> f state lts)"

definition tape_write :: "nat \<Rightarrow> byte list \<Rightarrow> 'd Tuplesortstate \<Rightarrow> pg_error + 'd Tuplesortstate" where
  "tape_write tapenum bytes = on_tapes (\<lambda>state lts.
     bindE (LogicalTapeWrite lts tapenum bytes) (\<lambda>lts. Inr (state\<lparr>tapeset := Some lts\<rparr>)))"

definition tape_read :: "nat \<Rightarrow> nat \<Rightarrow> 'd Tuplesortstate \<Rightarrow> pg_error + byte list \<times> 'd Tuplesortstate" where
  "tape_read tapenum nbytes = on_tapes (\<lambda>state lts.
     bindE (LogicalTapeRead lts tapenum nbytes) (\<lambda>(bytes, lts). Inr (bytes, state\<lparr>tapeset := Some lts\<rparr>)))"

definition writetup_heap ::
  "'d sort_env \<Rightarrow> 'd Tuplesortstate \<Rightarrow> nat \<Rightarrow> 'd sort_tuple \<Rightarrow> pg_error + 'd Tuplesortstate" where
  "writetup_heap env state tapenum stup =
     (let tup = tuple stup;
          tupbodylen = t_len tup - MINIMAL_TUPLE_DATA_OFFSET;
          tuplen = tupbodylen + 4
      in bindE (tape_write tapenum (uint_bytes tuplen) state) (\<lambda>state.
         bindE (tape_write tapenum tup state) (\<lambda>state.
         bindE (if randomAccess state then tape_write tapenum (uint_bytes tuplen) state else Inr state) (\<lambda>state.
           Inr (FREEMEM (chunk_space env tup) state)))))"

definition readtup_heap ::
  "'d sort_env \<Rightarrow> 'd Tuplesortstate \<Rightarrow> 'd sort_tuple \<Rightarrow> nat \<Rightarrow> nat \<Rightarrow>
   pg_error + 'd Tuplesortstate \<times> 'd sort_tuple" where
  "readtup_heap env state stup tapenum len =
     (let tupbodylen = len - 4
      in bindE (tape_read tapenum tupbodylen state) (\<lambda>(tup, state).
         if length tup \<noteq> tupbodylen then Inl (ERROR ''unexpected end of data'')
         else bindE (if randomAccess state then
                  bindE (tape_read tapenum 4 state) (\<lambda>(trailer, state).
                    if length trailer \<noteq> 4 then Inl (ERROR ''unexpected end of data'') else Inr state)
                else Inr state) (\<lambda>state.
           let state = USEMEM (chunk_space env tup) state
           in case heap_getattr_in env tup (sk_attno (scanKeys state ! 0)) of
                (d, null) \<Rightarrow> Inr (state, stup\<lparr>tuple := tup, datum1 := d, isnull1 := null\<rparr>))))"

definition getlen :: "'d Tuplesortstate \<Rightarrow> nat \<Rightarrow> bool \<Rightarrow> pg_error + nat \<times> 'd Tuplesortstate" where
  "getlen state tapenum eofOK =
     bindE (tape_read tapenum 4 state) (\<lambda>(bytes, state).
       if length bytes \<noteq> 4 then Inl (ERROR ''unexpected end of tape'')
       else if bytes_uint bytes = 0 \<and> \<not> eofOK then Inl (ERROR ''unexpected end of data'')
       else Inr (bytes_uint bytes, state))"

definition markrunend :: "'d Tuplesortstate \<Rightarrow> nat \<Rightarrow> pg_error + 'd Tuplesortstate" where
  "markrunend state tapenum = tape_write tapenum (uint_bytes 0) state"

section \<open>The heap of a sort\<close>

definition array_ok :: "'d Tuplesortstate \<Rightarrow> bool" where
  "array_ok state \<longleftrightarrow> length (memtuples state) = memtupsize state \<and> memtupcount state \<le> memtupsize state \<and>
     scanKeys state \<noteq> [] \<and> good_keys (scanKeys state)"

definition heap_state :: "'d sort_env \<Rightarrow> bool \<Rightarrow> 'd Tuplesortstate \<Rightarrow> bool" where
  "heap_state env checkIndex state \<longleftrightarrow> array_ok state \<and>
     heap_ok (heapcompare (COMPARETUP env state) checkIndex) (memtuples state) (memtupcount state)"

definition heap_elems :: "'d Tuplesortstate \<Rightarrow> 'd sort_tuple multiset" where
  "heap_elems state = mset (take (memtupcount state) (memtuples state))"

lemma heapcompare_False [simp]: "heapcompare c False = c"
  by (simp add: heapcompare_def fun_eq_iff)

lemma heapcompare_comparator:
  assumes "sort_comparator c" shows "sort_comparator (heapcompare c checkIndex)"
proof (cases checkIndex)
  case True
  have "sort_comparator (\<lambda>a b. tupindex a - tupindex b)" by (rule sort_comparator_diff)
  from sort_comparator_lex [OF this assms] have "sort_comparator (lex_cmp (\<lambda>a b. tupindex a - tupindex b) c)" .
  moreover have "heapcompare c checkIndex = lex_cmp (\<lambda>a b. tupindex a - tupindex b) c"
    using True by (auto simp: heapcompare_def lex_cmp_def fun_eq_iff)
  ultimately show ?thesis by simp
qed (simp add: assms)

lemma array_ok_comparator: "array_ok s \<Longrightarrow> sort_comparator (COMPARETUP env s)"
  by (simp add: array_ok_def COMPARETUP_def tuplecmp_comparator)

lemma heap_state_comparator: "heap_state env c s \<Longrightarrow> sort_comparator (heapcompare (COMPARETUP env s) c)"
  by (simp add: heap_state_def array_ok_comparator heapcompare_comparator)

lemma heap_state_empty: "array_ok s \<Longrightarrow> memtupcount s = 0 \<Longrightarrow> heap_state env c s"
  by (simp add: heap_state_def heap_ok_def)

lemma heap_elems_size: "array_ok s \<Longrightarrow> size (heap_elems s) = memtupcount s"
  by (simp add: heap_elems_def array_ok_def)

lemma COMPARETUP_scanKeys: "scanKeys s' = scanKeys s \<Longrightarrow> COMPARETUP env s' = COMPARETUP env s"
  by (simp add: COMPARETUP_def)

lemma heap_insert_state:
  assumes "heap_state env c s" and "memtupcount s < memtupsize s"
  shows "\<exists>s'. tuplesort_heap_insert env s x i c = Inr s' \<and> heap_state env c s' \<and>
    heap_elems s' = add_mset (x\<lparr>tupindex := i\<rparr>) (heap_elems s) \<and>
    s' = s\<lparr>memtuples := memtuples s', memtupcount := memtupcount s + 1\<rparr> \<and>
    drop (memtupcount s + 1) (memtuples s') = drop (memtupcount s + 1) (memtuples s)"
proof -
  have h: "heap_ok (heapcompare (COMPARETUP env s) c) (memtuples s) (memtupcount s)"
    and a: "array_ok s" "memtupcount s < length (memtuples s)"
    using assms by (auto simp: heap_state_def array_ok_def)
  show ?thesis
    using sort_comparator.heap_insert_heap_ok [OF heap_state_comparator [OF assms(1)] h a(2)] mset_take_heap_insert [OF a(2)] a assms(2)
    by (auto simp: tuplesort_heap_insert_def heap_state_def array_ok_def heap_elems_def COMPARETUP_def
        drop_heap_insert_loop Let_def)
qed

lemma siftup_frame [simp]:
  "memtupcount (tuplesort_heap_siftup env s c) = memtupcount s - 1"
  "status (tuplesort_heap_siftup env s c) = status s"
  "randomAccess (tuplesort_heap_siftup env s c) = randomAccess s"
  "bounded (tuplesort_heap_siftup env s c) = bounded s"
  "bound (tuplesort_heap_siftup env s c) = bound s"
  "boundUsed (tuplesort_heap_siftup env s c) = boundUsed s"
  "availMem (tuplesort_heap_siftup env s c) = availMem s"
  "allowedMem (tuplesort_heap_siftup env s c) = allowedMem s"
  "maxTapes (tuplesort_heap_siftup env s c) = maxTapes s"
  "tapeRange (tuplesort_heap_siftup env s c) = tapeRange s"
  "tapeset (tuplesort_heap_siftup env s c) = tapeset s"
  "memtupsize (tuplesort_heap_siftup env s c) = memtupsize s"
  "currentRun (tuplesort_heap_siftup env s c) = currentRun s"
  "mergeactive (tuplesort_heap_siftup env s c) = mergeactive s"
  "mergenext (tuplesort_heap_siftup env s c) = mergenext s"
  "mergelast (tuplesort_heap_siftup env s c) = mergelast s"
  "mergeavailslots (tuplesort_heap_siftup env s c) = mergeavailslots s"
  "mergeavailmem (tuplesort_heap_siftup env s c) = mergeavailmem s"
  "mergefreelist (tuplesort_heap_siftup env s c) = mergefreelist s"
  "mergefirstfree (tuplesort_heap_siftup env s c) = mergefirstfree s"
  "Level (tuplesort_heap_siftup env s c) = Level s"
  "destTape (tuplesort_heap_siftup env s c) = destTape s"
  "tp_fib (tuplesort_heap_siftup env s c) = tp_fib s"
  "tp_runs (tuplesort_heap_siftup env s c) = tp_runs s"
  "tp_dummy (tuplesort_heap_siftup env s c) = tp_dummy s"
  "tp_tapenum (tuplesort_heap_siftup env s c) = tp_tapenum s"
  "activeTapes (tuplesort_heap_siftup env s c) = activeTapes s"
  "result_tape (tuplesort_heap_siftup env s c) = result_tape s"
  "current (tuplesort_heap_siftup env s c) = current s"
  "eof_reached (tuplesort_heap_siftup env s c) = eof_reached s"
  "scanKeys (tuplesort_heap_siftup env s c) = scanKeys s"
  "isParallelEnded (tuplesort_heap_siftup env s c) = isParallelEnded s"
  "workersCnt (tuplesort_heap_siftup env s c) = workersCnt s"
  "workersFinished (tuplesort_heap_siftup env s c) = workersFinished s"
  "workers (tuplesort_heap_siftup env s c) = workers s"
  by (simp_all add: tuplesort_heap_siftup_def Let_def)

lemma heap_siftup_state:
  assumes "heap_state env c s" and "0 < memtupcount s"
  defines "s' \<equiv> tuplesort_heap_siftup env s c"
  shows "heap_state env c s'" "add_mset (memtuples s ! 0) (heap_elems s') = heap_elems s"
    "s' = s\<lparr>memtuples := memtuples s', memtupcount := memtupcount s - 1\<rparr>"
    "drop (memtupcount s - 1) (memtuples s') = drop (memtupcount s - 1) (memtuples s)"
proof -
  obtain n where n: "memtupcount s = Suc n" using assms(2) by (cases "memtupcount s") auto
  have h: "heap_ok (heapcompare (COMPARETUP env s) c) (memtuples s) (Suc n)"
    and a: "array_ok s" "n < length (memtuples s)"
    using assms(1) n by (auto simp: heap_state_def array_ok_def)
  have s': "s' = (if n = 0 then s\<lparr>memtupcount := n\<rparr> else s\<lparr>memtupcount := n,
      memtuples := heap_siftup_loop (heapcompare (COMPARETUP env s) c) (memtuples s) n (memtuples s ! n) 0\<rparr>)"
    by (simp add: s'_def tuplesort_heap_siftup_def n Let_def COMPARETUP_def)
  show "s' = s\<lparr>memtuples := memtuples s', memtupcount := memtupcount s - 1\<rparr>"
    by (simp add: s' n)
  show "heap_state env c s'"
    using sort_comparator.heap_siftup_heap_ok [OF heap_state_comparator [OF assms(1)] h _ a(2)] a n
    by (auto simp: s' heap_state_def array_ok_def COMPARETUP_def heap_ok_def)
  show "add_mset (memtuples s ! 0) (heap_elems s') = heap_elems s"
    using mset_take_heap_siftup [of n "memtuples s"] a n
    by (cases "n = 0") (auto simp: s' heap_elems_def take_Suc_conv_app_nth)
  show "drop (memtupcount s - 1) (memtuples s') = drop (memtupcount s - 1) (memtuples s)"
    by (simp add: s' n drop_heap_siftup_loop)
qed

lemma heap_state_root_least:
  assumes "heap_state env c s" and "x \<in># heap_elems s"
  shows "heapcompare (COMPARETUP env s) c (memtuples s ! 0) x \<le> 0"
proof -
  obtain k where "k < memtupcount s" "x = memtuples s ! k"
    using assms by (auto simp: heap_elems_def in_set_conv_nth)
  then show ?thesis
    using assms(1) sort_comparator.heap_root_least [OF heap_state_comparator [OF assms(1)]]
    by (auto simp: heap_state_def)
qed

text \<open>The heap of a sort fulfils the contract of the priority queue.\<close>

definition heap_put :: "'d sort_env \<Rightarrow> bool \<Rightarrow> 'd sort_tuple \<Rightarrow> 'd Tuplesortstate \<Rightarrow> 'd Tuplesortstate" where
  "heap_put env c x s = (case tuplesort_heap_insert env s x (tupindex x) c of Inl e \<Rightarrow> s | Inr s' \<Rightarrow> s')"

interpretation sort_heap: tuple_queue
  "heapcompare (tuplecmp (heap_getattr_in env) ks) c"
  "\<lambda>s. heap_state env c s \<and> scanKeys s = ks" heap_elems "\<lambda>s. memtupcount s < memtupsize s"
  "heap_put env c" "\<lambda>s. memtuples s ! 0" "\<lambda>s. tuplesort_heap_siftup env s c"
  for env ks c
proof (rule tuple_queue.intro, goal_cases)
  case (1 q)
  then show ?case using heap_state_comparator [of env c q] by (simp add: COMPARETUP_def)
next
  case (2 q x)
  then obtain s' where s': "tuplesort_heap_insert env q x (tupindex x) c = Inr s'" "heap_state env c s'"
    using heap_insert_state [of env c q x "tupindex x"] by blast
  then have "scanKeys s' = scanKeys q" by (auto simp: tuplesort_heap_insert_def Let_def split: if_splits)
  with 2 s' show ?case by (simp add: heap_put_def)
next
  case (3 q x)
  then show ?case using heap_insert_state [of env c q x "tupindex x"] by (auto simp: heap_put_def)
next
  case (4 q x)
  then show ?case using heap_state_root_least [of env c q x] by (simp add: COMPARETUP_def)
next
  case (5 q)
  then have "0 < memtupcount q" by (auto simp: heap_elems_def)
  with 5 show ?case using heap_siftup_state(1) [of env c q] by simp
next
  case (6 q)
  then have "0 < memtupcount q" by (auto simp: heap_elems_def)
  with 6 show ?case using heap_siftup_state(2) [of env c q] by simp
next
  case (7 q)
  then have "0 < memtupcount q" by (auto simp: heap_elems_def)
  with 7 show ?case by (auto simp: heap_state_def array_ok_def)
qed

end
