(* ===== verification/RunBuilding.thy ===== *)
theory RunBuilding
  imports TupleState "HOL-Library.Signed_Division"
begin

text \<open>
  Building initial runs on tape, the first half of an external sort in
  \<^verbatim>\<open>tuplesort.c\<close>: the merge order (\<^verbatim>\<open>tuplesort_merge_order\<close>), the switch from the
  array to tapes (\<^verbatim>\<open>inittapes\<close>), the choice of the next tape by Knuth's Algorithm D
  (\<^verbatim>\<open>selectnewtape\<close>) and writing tuples from the heap (\<^verbatim>\<open>dumptuples\<close>).
\<close>

section \<open>Definitions\<close>

definition MINORDER :: int where
  "MINORDER = 6"

definition TAPE_BUFFER_OVERHEAD :: int where
  "TAPE_BUFFER_OVERHEAD = int BLCKSZ * 3"

definition MERGE_BUFFER_SIZE :: int where
  "MERGE_BUFFER_SIZE = int BLCKSZ * 32"

definition tuplesort_merge_order :: "int \<Rightarrow> int" where
  "tuplesort_merge_order allowed =
     (let mOrder = (allowed - TAPE_BUFFER_OVERHEAD) sdiv (MERGE_BUFFER_SIZE + TAPE_BUFFER_OVERHEAD)
      in max mOrder MINORDER)"

text \<open>
  \<^verbatim>\<open>inittapes\<close> in three parts: the number of tapes, their memory and arrays; the
  conversion of the array of tuples into a heap; and the start of Algorithm D.
\<close>

definition alloc_tapes :: "'d sort_env \<Rightarrow> 'd Tuplesortstate \<Rightarrow> 'd Tuplesortstate" where
  "alloc_tapes env state =
     (let nt = min (nat (tuplesort_merge_order (allowedMem state) + 1)) (memtupsize state div 2);
          tapeSpace = int nt * TAPE_BUFFER_OVERHEAD
      in (if tapeSpace + array_space env (memtupsize state) < allowedMem state
          then USEMEM tapeSpace state else state)
         \<lparr>maxTapes := nt, tapeRange := nt - 1, tapeset := Some (LogicalTapeSetCreate nt),
          mergeactive := replicate nt False, mergenext := replicate nt 0,
          mergelast := replicate nt 0, mergeavailslots := replicate nt 0,
          mergeavailmem := replicate nt 0, tp_fib := replicate nt 0, tp_runs := replicate nt 0,
          tp_dummy := replicate nt 0, tp_tapenum := replicate nt 0\<rparr>)"

definition heapify :: "'d sort_env \<Rightarrow> nat \<Rightarrow> 'd Tuplesortstate \<Rightarrow> pg_error + 'd Tuplesortstate" where
  "heapify env ntuples =
     foldE (\<lambda>j state. tuplesort_heap_insert env state (memtuples state ! j) 0 False) [0..<ntuples]"

definition start_algorithm_D :: "'d Tuplesortstate \<Rightarrow> 'd Tuplesortstate" where
  "start_algorithm_D state = state\<lparr>currentRun := 0,
     tp_fib := (replicate (maxTapes state) 1)[tapeRange state := 0],
     tp_runs := replicate (maxTapes state) 0,
     tp_dummy := (replicate (maxTapes state) 1)[tapeRange state := 0],
     tp_tapenum := [0..<maxTapes state],
     Level := 1, destTape := 0, status := TSS_BUILDRUNS\<rparr>"

definition inittapes :: "'d sort_env \<Rightarrow> 'd Tuplesortstate \<Rightarrow> pg_error + 'd Tuplesortstate" where
  "inittapes env state =
     (let ntuples = memtupcount state
      in bindE (heapify env ntuples ((alloc_tapes env state)\<lparr>memtupcount := 0\<rparr>)) (\<lambda>state.
           if memtupcount state \<noteq> ntuples then Inl (TRAP ''memtupcount == ntuples'')
           else Inr (start_algorithm_D state)))"

lemma inittapes_status: "inittapes env s = Inr s' \<Longrightarrow> status s' = TSS_BUILDRUNS"
  by (auto simp: inittapes_def Let_def bindE_Inr_iff start_algorithm_D_def split: if_splits)

text \<open>Step D4 writes the two arrays in one pass, reading the next entry before it is overwritten.\<close>

definition raise_level :: "int \<Rightarrow> nat \<Rightarrow> 'd Tuplesortstate \<Rightarrow> 'd Tuplesortstate" where
  "raise_level a j state = state\<lparr>
     tp_dummy := (tp_dummy state)[j := a + tp_fib state ! (j + 1) - tp_fib state ! j],
     tp_fib := (tp_fib state)[j := a + tp_fib state ! (j + 1)]\<rparr>"

definition selectnewtape :: "'d Tuplesortstate \<Rightarrow> 'd Tuplesortstate" where
  "selectnewtape state =
     (if tp_dummy state ! destTape state < tp_dummy state ! (destTape state + 1)
      then state\<lparr>destTape := destTape state + 1\<rparr>
      else if tp_dummy state ! destTape state \<noteq> 0 then state\<lparr>destTape := 0\<rparr>
      else (let state = state\<lparr>Level := Level state + 1\<rparr>;
                a = tp_fib state ! 0
            in (fold (raise_level a) [0..<tapeRange state] state)\<lparr>destTape := 0\<rparr>))"

section \<open>What the tape routines leave alone\<close>

lemma tape_write_frame: "tape_write t bs s = Inr s' \<Longrightarrow> \<exists>ts. s' = s\<lparr>tapeset := ts\<rparr>"
  by (auto simp: tape_write_def on_tapes_def bindE_Inr_iff split: option.splits)

lemma tape_read_frame: "tape_read t n s = Inr (bs, s') \<Longrightarrow> \<exists>ts. s' = s\<lparr>tapeset := ts\<rparr>"
  by (auto simp: tape_read_def on_tapes_def bindE_Inr_iff split: option.splits)

lemma markrunend_frame: "markrunend s t = Inr s' \<Longrightarrow> \<exists>ts. s' = s\<lparr>tapeset := ts\<rparr>"
  unfolding markrunend_def by (rule tape_write_frame)

lemma writetup_heap_frame:
  assumes "writetup_heap env s t x = Inr s'"
  shows "\<exists>ts m. s' = s\<lparr>tapeset := ts, availMem := m\<rparr>"
proof -
  have "s' = s\<lparr>tapeset := tapeset s', availMem := availMem s'\<rparr>"
    using assms by (auto simp: writetup_heap_def Let_def bindE_Inr_iff split: if_splits dest!: tape_write_frame)
  then show ?thesis by blast
qed

lemma getlen_frame: "getlen s t ok = Inr (n, s') \<Longrightarrow> \<exists>ts. s' = s\<lparr>tapeset := ts\<rparr>"
  by (auto simp: getlen_def bindE_Inr_iff split: if_splits dest!: tape_read_frame)

lemma readtup_heap_frame:
  assumes "readtup_heap env s x t n = Inr (s', y)"
  shows "\<exists>ts m. s' = s\<lparr>tapeset := ts, availMem := m\<rparr>"
proof -
  have "s' = s\<lparr>tapeset := tapeset s', availMem := availMem s'\<rparr>"
    using assms by (auto simp: readtup_heap_def Let_def bindE_Inr_iff split: if_splits prod.splits
        dest!: tape_read_frame)
  then show ?thesis by blast
qed

lemma raise_levels_memtupcount [simp]: "memtupcount (fold (raise_level a) js s) = memtupcount s"
  by (induction js arbitrary: s) (auto simp: raise_level_def)

lemma selectnewtape_memtupcount [simp]: "memtupcount (selectnewtape s) = memtupcount s"
  by (simp add: selectnewtape_def Let_def)

lemma raise_levels_status [simp]: "status (fold (raise_level v) js s) = status s"
  by (induction js arbitrary: s) (auto simp: raise_level_def)

lemma selectnewtape_status [simp]: "status (selectnewtape s) = status s"
  by (simp add: selectnewtape_def Let_def)

section \<open>Writing tuples from the heap\<close>

text \<open>One round: the heap's root goes to tape; the flag tells that the heap is now empty.\<close>

definition dump_root ::
  "'d sort_env \<Rightarrow> 'd Tuplesortstate \<Rightarrow> pg_error + bool \<times> 'd Tuplesortstate" where
  "dump_root env state =
     (if memtupcount state = 0 then Inl (TRAP ''memtupcount > 0'')
      else bindE (writetup_heap env state (tp_tapenum state ! destTape state) (memtuples state ! 0)) (\<lambda>state.
        let state = tuplesort_heap_siftup env state True
        in if memtupcount state = 0 \<or> currentRun state \<noteq> tupindex (memtuples state ! 0) then
             bindE (markrunend state (tp_tapenum state ! destTape state)) (\<lambda>state.
               let state = state\<lparr>currentRun := currentRun state + 1,
                     tp_runs := (tp_runs state)[destTape state := tp_runs state ! destTape state + 1],
                     tp_dummy := (tp_dummy state)[destTape state := tp_dummy state ! destTape state - 1]\<rparr>
               in if memtupcount state = 0 then Inr (True, state)
                  else if currentRun state \<noteq> tupindex (memtuples state ! 0)
                    then Inl (TRAP ''currentRun == memtuples[0].tupindex'')
                  else Inr (False, selectnewtape state))
           else Inr (False, state)))"

lemma writetup_heap_fields:
  assumes "writetup_heap env s t x = Inr s'"
  shows "memtupcount s' = memtupcount s \<and> status s' = status s"
  using writetup_heap_frame [OF assms] by auto

lemma markrunend_fields:
  assumes "markrunend s t = Inr s'"
  shows "memtupcount s' = memtupcount s \<and> status s' = status s"
  using markrunend_frame [OF assms] by auto

lemma dump_root_fields:
  assumes "dump_root env s = Inr (stop, s')"
  shows "memtupcount s = Suc (memtupcount s') \<and> status s' = status s"
proof -
  from assms obtain s1 where c: "memtupcount s \<noteq> 0"
    and s1: "writetup_heap env s (tp_tapenum s ! destTape s) (memtuples s ! 0) = Inr s1"
    by (auto simp: dump_root_def bindE_Inr_iff split: if_splits)
  let ?s2 = "tuplesort_heap_siftup env s1 True"
  have "memtupcount s' = memtupcount ?s2 \<and> status s' = status ?s2"
    using assms c s1 by (auto simp: dump_root_def Let_def bindE_Inr_iff split: if_splits
        dest!: markrunend_fields)
  with c writetup_heap_fields [OF s1] show ?thesis by auto
qed

function dumptuples ::
  "'d sort_env \<Rightarrow> 'd Tuplesortstate \<Rightarrow> bool \<Rightarrow> pg_error + 'd Tuplesortstate" where
  "dumptuples env state alltuples =
     (if alltuples \<or> (LACKMEM state \<and> memtupcount state > 1) \<or> memtupcount state \<ge> memtupsize state
      then bindE (dump_root env state) (\<lambda>(stop, state).
        if stop then Inr state else dumptuples env state alltuples)
      else Inr state)"
  by pat_completeness auto
termination
  by (relation "measure (\<lambda>(env, state, alltuples). memtupcount state)")
    (auto dest!: dump_root_fields)

declare dumptuples.simps [simp del]

lemma dumptuples_status: "dumptuples env s a = Inr s' \<Longrightarrow> status s' = status s"
proof (induction env s a rule: dumptuples.induct)
  case (1 env s a)
  show ?case
  proof (cases "a \<or> (LACKMEM s \<and> memtupcount s > 1) \<or> memtupcount s \<ge> memtupsize s")
    case True
    with "1.prems" obtain stop s1 where s1: "dump_root env s = Inr (stop, s1)"
      "(if stop then Inr s1 else dumptuples env s1 a) = Inr s'"
      by (auto simp: dumptuples.simps [of env s] bindE_Inr_iff split: if_splits)
    with "1.IH" [OF True s1(1) refl] dump_root_fields [OF s1(1)] show ?thesis
      by (auto split: if_splits)
  next
    case False
    then have "dumptuples env s a = Inr s" by (subst dumptuples.simps) (simp only: if_False)
    with "1.prems" show ?thesis by simp
  qed
qed

end
