(* ===== verification/TapeMerge.thy ===== *)
theory TapeMerge
  imports RunBuilding
begin

text \<open>
  Merging the runs on tape, the second half of an external sort in \<^verbatim>\<open>tuplesort.c\<close>:
  prereading (\<^verbatim>\<open>mergeprereadone\<close>, \<^verbatim>\<open>mergepreread\<close>), the start of a merge
  (\<^verbatim>\<open>beginmerge\<close>), one merge onto the output tape (\<^verbatim>\<open>mergeonerun\<close>) and the
  polyphase merge (\<^verbatim>\<open>mergeruns\<close>). The loops over tapes whose end depends on what
  the tapes hold return \<open>None\<close> when they do not end.
\<close>

section \<open>Prereading\<close>

text \<open>The bytes of a tape that have not been read yet bound the number of tuples still to come.\<close>

definition tape_left :: "'d Tuplesortstate \<Rightarrow> nat \<Rightarrow> nat" where
  "tape_left state t = (case tapeset state of None \<Rightarrow> 0
     | Some lts \<Rightarrow> length (contents (lts ! t)) - tape_pos (lts ! t))"

lemma tape_read_left:
  "tape_read t n s = Inr (bs, s') \<Longrightarrow> tape_left s' t + length bs = tape_left s t"
  by (auto simp: tape_read_def on_tapes_def bindE_Inr_iff LogicalTapeRead_def Let_def tape_left_def
      split: option.splits if_splits)

lemma getlen_left: "getlen s t ok = Inr (n, s') \<Longrightarrow> tape_left s' t < tape_left s t"
  by (auto simp: getlen_def bindE_Inr_iff split: if_splits dest!: tape_read_left)

lemma tape_left_availMem [simp]: "tape_left (s\<lparr>availMem := m\<rparr>) t = tape_left s t"
  by (simp add: tape_left_def)

lemma readtup_heap_left: "readtup_heap env s x t n = Inr (s', y) \<Longrightarrow> tape_left s' t \<le> tape_left s t"
  by (auto simp: readtup_heap_def Let_def bindE_Inr_iff split: if_splits prod.splits
      dest!: tape_read_left)

text \<open>A free entry of \<open>memtuples\<close>: a recycled one, or the first never used.\<close>

definition free_slot :: "'d Tuplesortstate \<Rightarrow> pg_error + nat \<times> 'd Tuplesortstate" where
  "free_slot state =
     (let tupIndex = mergefreelist state
      in if tupIndex \<noteq> 0
         then Inr (tupIndex, state\<lparr>mergefreelist := nat (tupindex (memtuples state ! tupIndex))\<rparr>)
         else let tupIndex = mergefirstfree state
           in if \<not> tupIndex < memtupsize state then Inl (TRAP ''tupIndex < memtupsize'')
              else Inr (tupIndex, state\<lparr>mergefirstfree := tupIndex + 1\<rparr>))"

text \<open>Storing a preread tuple at the end of its tape's list.\<close>

definition append_preread :: "nat \<Rightarrow> nat \<Rightarrow> 'd sort_tuple \<Rightarrow> 'd Tuplesortstate \<Rightarrow> 'd Tuplesortstate" where
  "append_preread srcTape tupIndex stup state =
     (let state = state\<lparr>
            mergeavailslots := (mergeavailslots state)[srcTape := mergeavailslots state ! srcTape - 1],
            memtuples := (memtuples state)[tupIndex := stup\<lparr>tupindex := 0\<rparr>]\<rparr>;
          last = mergelast state ! srcTape;
          state = (if last \<noteq> 0
            then state\<lparr>memtuples := (memtuples state)
                   [last := (memtuples state ! last)\<lparr>tupindex := int tupIndex\<rparr>]\<rparr>
            else state\<lparr>mergenext := (mergenext state)[srcTape := tupIndex]\<rparr>)
      in state\<lparr>mergelast := (mergelast state)[srcTape := tupIndex]\<rparr>)"

lemma free_slot_left: "free_slot s = Inr (i, s') \<Longrightarrow> tape_left s' t = tape_left s t"
  by (auto simp: free_slot_def Let_def tape_left_def split: if_splits)

lemma append_preread_left [simp]: "tape_left (append_preread src i x s) t = tape_left s t"
  by (simp add: append_preread_def Let_def tape_left_def)

function preread_loop :: "'d sort_env \<Rightarrow> nat \<Rightarrow> 'd Tuplesortstate \<Rightarrow> pg_error + 'd Tuplesortstate" where
  "preread_loop env srcTape state =
     (if (mergeavailslots state ! srcTape > 0 \<and> \<not> LACKMEM state) \<or> mergenext state ! srcTape = 0 then
        bindE (getlen state srcTape True) (\<lambda>(tuplen, s1).
          if tuplen = 0 then Inr (s1\<lparr>mergeactive := (mergeactive s1)[srcTape := False]\<rparr>)
          else bindE (readtup_heap env s1 (fresh_slot env) srcTape tuplen) (\<lambda>(s2, stup).
            bindE (free_slot s2) (\<lambda>(tupIndex, s3).
              preread_loop env srcTape (append_preread srcTape tupIndex stup s3))))
      else Inr state)"
  by pat_completeness auto
termination
  by (relation "measure (\<lambda>(env, srcTape, state). tape_left state srcTape)")
    (auto dest!: getlen_left readtup_heap_left simp: free_slot_left)

declare preread_loop.simps [simp del]

definition mergeprereadone ::
  "'d sort_env \<Rightarrow> nat \<Rightarrow> 'd Tuplesortstate \<Rightarrow> pg_error + 'd Tuplesortstate" where
  "mergeprereadone env srcTape state =
     (if \<not> mergeactive state ! srcTape then Inr state
      else let priorAvail = availMem state
        in bindE (preread_loop env srcTape (state\<lparr>availMem := mergeavailmem state ! srcTape\<rparr>)) (\<lambda>state.
             let spaceUsed = mergeavailmem state ! srcTape - availMem state
             in Inr (state\<lparr>mergeavailmem := (mergeavailmem state)[srcTape := availMem state],
                  availMem := priorAvail - spaceUsed\<rparr>)))"

definition mergepreread :: "'d sort_env \<Rightarrow> 'd Tuplesortstate \<Rightarrow> pg_error + 'd Tuplesortstate" where
  "mergepreread env state = foldE (mergeprereadone env) [0..<maxTapes state] state"

section \<open>Merging\<close>

text \<open>
  Moving the next preread tuple of a tape into the heap; its array entry goes to the
  free list. The entry lies beyond the heap, so inserting it does not overwrite it.
\<close>

definition pull_preread ::
  "'d sort_env \<Rightarrow> nat \<Rightarrow> nat \<Rightarrow> 'd Tuplesortstate \<Rightarrow> pg_error + 'd Tuplesortstate" where
  "pull_preread env srcTape tupIndex state =
     (let tup = memtuples state ! tupIndex;
          next = nat (tupindex tup);
          state = state\<lparr>mergenext := (mergenext state)[srcTape := next],
            mergelast := (if next = 0 then (mergelast state)[srcTape := 0] else mergelast state)\<rparr>
      in bindE (tuplesort_heap_insert env state tup (int srcTape) False) (\<lambda>state.
           Inr (state\<lparr>memtuples := (memtuples state)
                  [tupIndex := (memtuples state ! tupIndex)\<lparr>tupindex := int (mergefreelist state)\<rparr>],
                mergefreelist := tupIndex,
                mergeavailslots := (mergeavailslots state)[srcTape := mergeavailslots state ! srcTape + 1]\<rparr>)))"

text \<open>Consuming one run of each tape: dummies first.\<close>

definition take_run :: "nat \<Rightarrow> 'd Tuplesortstate \<Rightarrow> pg_error + 'd Tuplesortstate" where
  "take_run tapenum state =
     (if tp_dummy state ! tapenum > 0
      then Inr (state\<lparr>tp_dummy := (tp_dummy state)[tapenum := tp_dummy state ! tapenum - 1]\<rparr>)
      else if \<not> tp_runs state ! tapenum > 0 then Inl (TRAP ''tp_runs > 0'')
      else Inr (state\<lparr>tp_runs := (tp_runs state)[tapenum := tp_runs state ! tapenum - 1],
             mergeactive := (mergeactive state)[tp_tapenum state ! tapenum := True],
             activeTapes := activeTapes state + 1\<rparr>))"

definition share_space :: "int \<Rightarrow> int \<Rightarrow> nat \<Rightarrow> 'd Tuplesortstate \<Rightarrow> 'd Tuplesortstate" where
  "share_space slots space srcTape state =
     (if mergeactive state ! srcTape
      then state\<lparr>mergeavailslots := (mergeavailslots state)[srcTape := slots],
             mergeavailmem := (mergeavailmem state)[srcTape := space]\<rparr>
      else state)"

definition load_first :: "'d sort_env \<Rightarrow> nat \<Rightarrow> 'd Tuplesortstate \<Rightarrow> pg_error + 'd Tuplesortstate" where
  "load_first env srcTape state =
     (let tupIndex = mergenext state ! srcTape
      in if tupIndex \<noteq> 0 then pull_preread env srcTape tupIndex state else Inr state)"

definition beginmerge :: "'d sort_env \<Rightarrow> 'd Tuplesortstate \<Rightarrow> pg_error + 'd Tuplesortstate" where
  "beginmerge env state =
     (if memtupcount state \<noteq> 0 then Inl (TRAP ''memtupcount == 0'')
      else bindE (foldE take_run [0..<tapeRange state]
              (state\<lparr>mergeactive := replicate (maxTapes state) False, activeTapes := 0\<rparr>)) (\<lambda>state.
        let state = state\<lparr>mergenext := replicate (maxTapes state) 0,
              mergelast := replicate (maxTapes state) 0,
              mergefreelist := 0, mergefirstfree := activeTapes state\<rparr>
        in if \<not> activeTapes state > 0 then Inl (TRAP ''activeTapes > 0'')
           else let slotsPerTape =
                  (int (memtupsize state) - int (mergefirstfree state)) sdiv int (activeTapes state)
             in if \<not> slotsPerTape > 0 then Inl (TRAP ''slotsPerTape > 0'')
                else let spacePerTape = availMem state sdiv int (activeTapes state);
                    state = fold (share_space slotsPerTape spacePerTape) [0..<maxTapes state] state
                  in bindE (mergepreread env state) (\<lambda>state.
                       foldE (load_first env) [0..<maxTapes state] state)))"

definition mergeonerun_step ::
  "'d sort_env \<Rightarrow> nat \<Rightarrow> 'd Tuplesortstate \<Rightarrow> pg_error + 'd Tuplesortstate" where
  "mergeonerun_step env dest state =
     (let priorAvail = availMem state;
          srcTape = nat (tupindex (memtuples state ! 0))
      in bindE (writetup_heap env state dest (memtuples state ! 0)) (\<lambda>state.
           let spaceFreed = availMem state - priorAvail;
               state = state\<lparr>mergeavailmem := (mergeavailmem state)
                         [srcTape := mergeavailmem state ! srcTape + spaceFreed]\<rparr>;
               state = tuplesort_heap_siftup env state False
           in bindE (if mergenext state ! srcTape = 0 then mergepreread env state else Inr state) (\<lambda>state.
                load_first env srcTape state)))"

partial_function (option) mergeonerun_loop ::
  "'d sort_env \<Rightarrow> nat \<Rightarrow> 'd Tuplesortstate \<Rightarrow> (pg_error + 'd Tuplesortstate) option" where
  "mergeonerun_loop env dest state =
     (if memtupcount state > 0 then
        (case mergeonerun_step env dest state of
           Inl e \<Rightarrow> Some (Inl e)
         | Inr state \<Rightarrow> mergeonerun_loop env dest state)
      else Some (Inr state))"

definition mergeonerun ::
  "'d sort_env \<Rightarrow> 'd Tuplesortstate \<Rightarrow> (pg_error + 'd Tuplesortstate) option" where
  "mergeonerun env state =
     (let dest = tp_tapenum state ! tapeRange state
      in case beginmerge env state of
           Inl e \<Rightarrow> Some (Inl e)
         | Inr state \<Rightarrow> Option.bind (mergeonerun_loop env dest state) (\<lambda>r.
             Some (bindE r (\<lambda>state. bindE (markrunend state dest) (\<lambda>state.
               Inr (state\<lparr>tp_runs := (tp_runs state)
                   [tapeRange state := tp_runs state ! tapeRange state + 1]\<rparr>))))))"

section \<open>Polyphase merge\<close>

definition all_dummy :: "'d Tuplesortstate \<Rightarrow> bool" where
  "all_dummy state = list_all (\<lambda>tapenum. tp_dummy state ! tapenum \<noteq> 0) [0..<tapeRange state]"

definition all_one_run :: "'d Tuplesortstate \<Rightarrow> bool" where
  "all_one_run state =
     list_all (\<lambda>tapenum. tp_runs state ! tapenum + tp_dummy state ! tapenum = 1) [0..<tapeRange state]"

definition merge_dummies :: "'d Tuplesortstate \<Rightarrow> 'd Tuplesortstate" where
  "merge_dummies state =
     (let state = state\<lparr>tp_dummy := (tp_dummy state)[tapeRange state := tp_dummy state ! tapeRange state + 1]\<rparr>
      in fold (\<lambda>tapenum state. state\<lparr>tp_dummy := (tp_dummy state)[tapenum := tp_dummy state ! tapenum - 1]\<rparr>)
           [0..<tapeRange state] state)"

text \<open>Step D5: merge onto the last tape until the one before it is empty.\<close>

partial_function (option) merge_step_D5 ::
  "'d sort_env \<Rightarrow> 'd Tuplesortstate \<Rightarrow> (pg_error + 'd Tuplesortstate) option" where
  "merge_step_D5 env state =
     (if tp_runs state ! (tapeRange state - 1) \<noteq> 0 \<or> tp_dummy state ! (tapeRange state - 1) \<noteq> 0 then
        (if all_dummy state then merge_step_D5 env (merge_dummies state)
         else Option.bind (mergeonerun env state) (\<lambda>r.
           case r of Inl e \<Rightarrow> Some (Inl e) | Inr state \<Rightarrow> merge_step_D5 env state))
      else Some (Inr state))"

definition tape_rewind :: "nat \<Rightarrow> bool \<Rightarrow> 'd Tuplesortstate \<Rightarrow> pg_error + 'd Tuplesortstate" where
  "tape_rewind tapenum forWrite = on_tapes (\<lambda>state lts.
     bindE (LogicalTapeRewind lts tapenum forWrite) (\<lambda>lts. Inr (state\<lparr>tapeset := Some lts\<rparr>)))"

definition tape_freeze :: "nat \<Rightarrow> 'd Tuplesortstate \<Rightarrow> pg_error + 'd Tuplesortstate" where
  "tape_freeze tapenum = on_tapes (\<lambda>state lts.
     bindE (LogicalTapeFreeze lts tapenum) (\<lambda>lts. Inr (state\<lparr>tapeset := Some lts\<rparr>)))"

text \<open>Step D6: the tape units rotate by one; the output tape becomes the first input tape.\<close>

definition rotate_tapes :: "nat \<Rightarrow> 'a list \<Rightarrow> 'a list" where
  "rotate_tapes T xs =
     (fold (\<lambda>tapenum ys. ys[tapenum := ys ! (tapenum - 1)]) (rev [1..<T + 1]) xs)[0 := xs ! T]"

definition merge_step_D6 :: "'d Tuplesortstate \<Rightarrow> pg_error + 'd Tuplesortstate" where
  "merge_step_D6 state =
     bindE (tape_rewind (tp_tapenum state ! tapeRange state) False state) (\<lambda>state.
     bindE (tape_rewind (tp_tapenum state ! (tapeRange state - 1)) True state) (\<lambda>state.
       let state = state\<lparr>tp_runs := (tp_runs state)[tapeRange state - 1 := 0]\<rparr>
       in Inr (state\<lparr>tp_tapenum := rotate_tapes (tapeRange state) (tp_tapenum state),
            tp_dummy := rotate_tapes (tapeRange state) (tp_dummy state),
            tp_runs := rotate_tapes (tapeRange state) (tp_runs state)\<rparr>)))"

text \<open>The result of the loop: whether the final merge is left to be done on the fly.\<close>

partial_function (option) mergeruns_loop ::
  "'d sort_env \<Rightarrow> 'd Tuplesortstate \<Rightarrow> (pg_error + bool \<times> 'd Tuplesortstate) option" where
  "mergeruns_loop env state =
     (if \<not> randomAccess state \<and> tp_runs state ! tapeRange state \<noteq> 0
      then Some (Inl (TRAP ''tp_runs[tapeRange] == 0''))
      else if \<not> randomAccess state \<and> all_one_run state
      then Some (bindE (beginmerge env state) (\<lambda>state. Inr (True, state\<lparr>status := TSS_FINALMERGE\<rparr>)))
      else Option.bind (merge_step_D5 env state) (\<lambda>r.
        case r of Inl e \<Rightarrow> Some (Inl e)
        | Inr state \<Rightarrow>
            (let state = state\<lparr>Level := Level state - 1\<rparr>
             in if Level state = 0 then Some (Inr (False, state))
                else case merge_step_D6 state of Inl e \<Rightarrow> Some (Inl e)
                     | Inr state \<Rightarrow> mergeruns_loop env state)))"

definition mergeruns ::
  "'d sort_env \<Rightarrow> 'd Tuplesortstate \<Rightarrow> (pg_error + 'd Tuplesortstate) option" where
  "mergeruns env state =
     (if \<not> (status state = TSS_BUILDRUNS \<and> memtupcount state = 0) then Some (Inl (TRAP ''mergeruns''))
      else if currentRun state = 1 then
        (let result = tp_tapenum state ! destTape state
         in Some (bindE (tape_freeze result (state\<lparr>result_tape := int result\<rparr>)) (\<lambda>state.
              Inr (state\<lparr>status := TSS_SORTEDONTAPE\<rparr>))))
      else case foldE (\<lambda>tapenum. tape_rewind tapenum False) [0..<tapeRange state] state of
          Inl e \<Rightarrow> Some (Inl e)
        | Inr state \<Rightarrow> Option.bind (mergeruns_loop env state) (\<lambda>r.
            Some (bindE r (\<lambda>(on_the_fly, state).
              if on_the_fly then Inr state
              else let result = tp_tapenum state ! tapeRange state
                in bindE (tape_freeze result (state\<lparr>result_tape := int result\<rparr>)) (\<lambda>state.
                     Inr (state\<lparr>status := TSS_SORTEDONTAPE\<rparr>))))))"

end
