(* ===== verification/QSortArg.thy ===== *)
theory QSortArg
  imports Prelude
begin

text \<open>
  \<^verbatim>\<open>qsort_arg\<close> of \<^verbatim>\<open>src/port/qsort_arg.c\<close>, the quicksort of Bentley and McIlroy
  that sorts the tuples of an in-memory sort: insertion sort below seven elements, the
  check for presorted input, the choice of the pivot, the three-way partition, the two
  block exchanges that bring the elements equal to the pivot into the middle, and the
  two recursive calls, of which the source turns the second into a jump.

  A pointer into the array is the index of its element: the pointer arithmetic in
  steps of \<^verbatim>\<open>es\<close> bytes and the choice between copying words and copying bytes do
  not show. \<open>cmp\<close> is the caller's comparison, already applied to its \<^verbatim>\<open>arg\<close>.
\<close>

section \<open>Definitions\<close>

text \<open>Insertion sort: the inner loop moves one element down, the outer one takes each in turn.\<close>

fun insert_down :: "('a \<Rightarrow> 'a \<Rightarrow> int) \<Rightarrow> 'a list \<Rightarrow> nat \<Rightarrow> nat \<Rightarrow> 'a list" where
  "insert_down cmp xs a pl =
     (if pl > a \<and> cmp (xs ! (pl - 1)) (xs ! pl) > 0
      then insert_down cmp (swap_at xs pl (pl - 1)) a (pl - 1) else xs)"

declare insert_down.simps [simp del]

function insertion_sort :: "('a \<Rightarrow> 'a \<Rightarrow> int) \<Rightarrow> 'a list \<Rightarrow> nat \<Rightarrow> nat \<Rightarrow> nat \<Rightarrow> 'a list" where
  "insertion_sort cmp xs a pm pn =
     (if pm < pn then insertion_sort cmp (insert_down cmp xs a pm) a (pm + 1) pn else xs)"
  by pat_completeness auto
termination
  by (relation "measure (\<lambda>(cmp, xs, a, pm, pn). pn - pm)") auto

declare insertion_sort.simps [simp del]

text \<open>The check for input that is already in order.\<close>

function presorted :: "('a \<Rightarrow> 'a \<Rightarrow> int) \<Rightarrow> 'a list \<Rightarrow> nat \<Rightarrow> nat \<Rightarrow> bool" where
  "presorted cmp xs pm pn =
     (if pm < pn then
        (if cmp (xs ! (pm - 1)) (xs ! pm) > 0 then False else presorted cmp xs (pm + 1) pn)
      else True)"
  by pat_completeness auto
termination
  by (relation "measure (\<lambda>(cmp, xs, pm, pn). pn - pm)") auto

declare presorted.simps [simp del]

text \<open>The pivot: the middle element, or a median of three or of nine.\<close>

definition med3 :: "('a \<Rightarrow> 'a \<Rightarrow> int) \<Rightarrow> 'a list \<Rightarrow> nat \<Rightarrow> nat \<Rightarrow> nat \<Rightarrow> nat" where
  "med3 cmp xs a b c =
     (if cmp (xs ! a) (xs ! b) < 0 then
        (if cmp (xs ! b) (xs ! c) < 0 then b else if cmp (xs ! a) (xs ! c) < 0 then c else a)
      else
        (if cmp (xs ! b) (xs ! c) > 0 then b else if cmp (xs ! a) (xs ! c) < 0 then a else c))"

definition choose_pivot :: "('a \<Rightarrow> 'a \<Rightarrow> int) \<Rightarrow> 'a list \<Rightarrow> nat \<Rightarrow> nat \<Rightarrow> nat" where
  "choose_pivot cmp xs a n =
     (let pm = a + n div 2
      in if n > 7 then
           (let pl = a; pn = a + (n - 1)
            in if n > 40 then
                 (let d = n div 8;
                      pl = med3 cmp xs pl (pl + d) (pl + 2 * d);
                      pm = med3 cmp xs (pm - d) pm (pm + d);
                      pn = med3 cmp xs (pn - 2 * d) (pn - d) pn
                  in med3 cmp xs pl pm pn)
               else med3 cmp xs pl pm pn)
         else pm)"

text \<open>
  The partition. The pivot stays at \<open>a\<close>; \<open>pa\<close> and \<open>pd\<close> bound the elements equal to
  it that have been moved to the two ends, \<open>pb\<close> and \<open>pc\<close> the part not looked at yet.
  \<open>pb\<close> lies beyond \<open>a\<close>, so it is never 0; \<open>scan_down\<close> repeats this in its test
  since an index cannot go below 0.
\<close>

function scan_up ::
  "('a \<Rightarrow> 'a \<Rightarrow> int) \<Rightarrow> 'a list \<Rightarrow> nat \<Rightarrow> nat \<Rightarrow> nat \<Rightarrow> nat \<Rightarrow> 'a list \<times> nat \<times> nat" where
  "scan_up cmp xs a pa pb pc =
     (if pb \<le> pc \<and> cmp (xs ! pb) (xs ! a) \<le> 0 then
        (if cmp (xs ! pb) (xs ! a) = 0
         then scan_up cmp (swap_at xs pa pb) a (pa + 1) (pb + 1) pc
         else scan_up cmp xs a pa (pb + 1) pc)
      else (xs, pa, pb))"
  by pat_completeness auto
termination
  by (relation "measure (\<lambda>(cmp, xs, a, pa, pb, pc). pc + 1 - pb)") auto

declare scan_up.simps [simp del]

function scan_down ::
  "('a \<Rightarrow> 'a \<Rightarrow> int) \<Rightarrow> 'a list \<Rightarrow> nat \<Rightarrow> nat \<Rightarrow> nat \<Rightarrow> nat \<Rightarrow> 'a list \<times> nat \<times> nat" where
  "scan_down cmp xs a pb pc pd =
     (if 0 < pb \<and> pb \<le> pc \<and> cmp (xs ! pc) (xs ! a) \<ge> 0 then
        (if cmp (xs ! pc) (xs ! a) = 0
         then scan_down cmp (swap_at xs pc pd) a pb (pc - 1) (pd - 1)
         else scan_down cmp xs a pb (pc - 1) pd)
      else (xs, pc, pd))"
  by pat_completeness auto
termination
  by (relation "measure (\<lambda>(cmp, xs, a, pb, pc, pd). pc)") auto

declare scan_down.simps [simp del]

lemma scan_up_bounds:
  "scan_up cmp xs a pa pb pc = (xs', pa', pb') \<Longrightarrow> pa \<le> pb \<Longrightarrow>
   pa \<le> pa' \<and> pa' \<le> pb' \<and> pb \<le> pb' \<and> pb' \<le> max pb (pc + 1)"
proof (induction cmp xs a pa pb pc rule: scan_up.induct)
  case (1 cmp xs a pa pb pc)
  show ?case
  proof (cases "pb \<le> pc \<and> cmp (xs ! pb) (xs ! a) \<le> 0")
    case True
    with 1 show ?thesis
      by (cases "cmp (xs ! pb) (xs ! a) = 0")
        (auto simp: scan_up.simps [of cmp xs a pa pb pc])
  next
    case False
    with "1.prems" show ?thesis by (auto simp: scan_up.simps [of cmp xs a pa pb pc])
  qed
qed

lemma scan_down_bounds:
  "scan_down cmp xs a pb pc pd = (xs', pc', pd') \<Longrightarrow> 0 < pb \<Longrightarrow> pc \<le> pd \<Longrightarrow>
   min pc (pb - 1) \<le> pc' \<and> pc' \<le> pc \<and> pc' \<le> pd' \<and> pd' \<le> pd"
proof (induction cmp xs a pb pc pd rule: scan_down.induct)
  case (1 cmp xs a pb pc pd)
  show ?case
  proof (cases "pb \<le> pc \<and> cmp (xs ! pc) (xs ! a) \<ge> 0")
    case True
    with "1.prems" have b: "pc - 1 \<le> pd - 1" "pc - 1 \<le> pd" "min pc (pb - 1) = pb - 1"
      "min (pc - 1) (pb - 1) = pb - 1" by auto
    have "pb - 1 \<le> pc' \<and> pc' \<le> pc - 1 \<and> pc' \<le> pd' \<and> pd' \<le> pd"
    proof (cases "cmp (xs ! pc) (xs ! a) = 0")
      case eq: True
      with True "1.prems" have "scan_down cmp (swap_at xs pc pd) a pb (pc - 1) (pd - 1) = (xs', pc', pd')"
        by (simp add: scan_down.simps [of cmp xs a pb pc pd])
      with "1.IH"(1) True eq b "1.prems" show ?thesis by fastforce
    next
      case ne: False
      with True "1.prems" have "scan_down cmp xs a pb (pc - 1) pd = (xs', pc', pd')"
        by (simp add: scan_down.simps [of cmp xs a pb pc pd])
      with "1.IH"(2) True ne b "1.prems" show ?thesis by fastforce
    qed
    with b show ?thesis by auto
  next
    case False
    with "1.prems" show ?thesis by (auto simp: scan_down.simps [of cmp xs a pb pc pd])
  qed
qed

function partition_loop ::
  "('a \<Rightarrow> 'a \<Rightarrow> int) \<Rightarrow> 'a list \<Rightarrow> nat \<Rightarrow> nat \<Rightarrow> nat \<Rightarrow> nat \<Rightarrow> nat \<Rightarrow>
   'a list \<times> nat \<times> nat \<times> nat \<times> nat" where
  "partition_loop cmp xs a pa pb pc pd =
     (case scan_up cmp xs a pa pb pc of (xs1, pa1, pb1) \<Rightarrow>
      case scan_down cmp xs1 a pb1 pc pd of (xs2, pc2, pd2) \<Rightarrow>
        if pb1 > pc2 then (xs2, pa1, pb1, pc2, pd2)
        else partition_loop cmp (swap_at xs2 pb1 pc2) a pa1 (pb1 + 1) (pc2 - 1) pd2)"
  by pat_completeness auto

lemma scan_up_mono: "scan_up cmp xs a pa pb pc = (xs', pa', pb') \<Longrightarrow> pb \<le> pb'"
proof (induction cmp xs a pa pb pc rule: scan_up.induct)
  case (1 cmp xs a pa pb pc)
  then show ?case
    by (auto simp: scan_up.simps [of cmp xs a pa pb pc] split: if_splits)
qed

lemma scan_down_mono: "scan_down cmp xs a pb pc pd = (xs', pc', pd') \<Longrightarrow> pc' \<le> pc"
proof (induction cmp xs a pb pc pd rule: scan_down.induct)
  case (1 cmp xs a pb pc pd)
  show ?case
  proof (cases "0 < pb \<and> pb \<le> pc \<and> cmp (xs ! pc) (xs ! a) \<ge> 0")
    case True
    with 1 have "pc' \<le> pc - 1"
      by (cases "cmp (xs ! pc) (xs ! a) = 0") (simp_all add: scan_down.simps [of cmp xs a pb pc pd])
    then show ?thesis by simp
  next
    case False
    with "1.prems" show ?thesis by (auto simp: scan_down.simps [of cmp xs a pb pc pd])
  qed
qed

termination partition_loop
  by (relation "measure (\<lambda>(cmp, xs, a, pa, pb, pc, pd). pc + 1 - pb)")
    (auto dest!: scan_up_mono [OF sym] scan_down_mono [OF sym])

declare partition_loop.simps [simp del]

text \<open>Exchanging two blocks of \<open>r\<close> elements.\<close>

primrec vecswap :: "'a list \<Rightarrow> nat \<Rightarrow> nat \<Rightarrow> nat \<Rightarrow> 'a list" where
  "vecswap xs a b 0 = xs"
| "vecswap xs a b (Suc r) = vecswap (swap_at xs a b) (a + 1) (b + 1) r"

lemma partition_loop_bounds:
  "partition_loop cmp xs a pa pb pc pd = (xs', pa', pb', pc', pd') \<Longrightarrow>
   0 < pa \<Longrightarrow> pa \<le> pb \<Longrightarrow> pa \<le> pc + 1 \<Longrightarrow> pb \<le> e + 1 \<Longrightarrow> pc \<le> pd \<Longrightarrow> pd \<le> e \<Longrightarrow>
   pa \<le> pa' \<and> pa' \<le> pb' \<and> pb' \<le> e + 1 \<and> pa \<le> pc' + 1 \<and> pc' \<le> pd' \<and> pd' \<le> e"
proof (induction cmp xs a pa pb pc pd rule: partition_loop.induct)
  case (1 cmp xs a pa pb pc pd)
  obtain xs1 pa1 pb1 where u: "scan_up cmp xs a pa pb pc = (xs1, pa1, pb1)"
    by (metis prod_cases3)
  obtain xs2 pc2 pd2 where d: "scan_down cmp xs1 a pb1 pc pd = (xs2, pc2, pd2)"
    by (metis prod_cases3)
  have ub: "pa \<le> pa1" "pa1 \<le> pb1" "pb \<le> pb1" "pb1 \<le> max pb (pc + 1)"
    using scan_up_bounds [OF u] "1.prems" by auto
  have db: "min pc (pb1 - 1) \<le> pc2" "pc2 \<le> pc" "pc2 \<le> pd2" "pd2 \<le> pd"
    using scan_down_bounds [OF d] ub "1.prems" by auto
  show ?case
  proof (cases "pb1 > pc2")
    case True
    with "1.prems" u d ub db show ?thesis
      by (auto simp: partition_loop.simps [of cmp xs a pa pb pc pd])
  next
    case False
    then have "partition_loop cmp (swap_at xs2 pb1 pc2) a pa1 (pb1 + 1) (pc2 - 1) pd2 =
        (xs', pa', pb', pc', pd')"
      using "1.prems" u d by (simp add: partition_loop.simps [of cmp xs a pa pb pc pd])
    then have "pa1 \<le> pa' \<and> pa' \<le> pb' \<and> pb' \<le> e + 1 \<and> pa1 \<le> pc' + 1 \<and> pc' \<le> pd' \<and> pd' \<le> e"
      using False ub db "1.prems"
      by (intro "1.IH" [OF u [symmetric] refl d [symmetric] refl]) auto
    with ub show ?thesis by auto
  qed
qed

lemma partition_loop_smaller:
  assumes "(xs', pa, pb, pc, pd) = partition_loop cmp xs a (a + 1) (a + 1) (a + n - 1) (a + n - 1)"
    and "0 < n"
  shows "pb - pa < n" "pd - pc < n"
  using partition_loop_bounds [OF assms(1) [symmetric], of "a + n - 1"] assms(2) by auto

text \<open>The routine.\<close>

function qsort_arg :: "('a \<Rightarrow> 'a \<Rightarrow> int) \<Rightarrow> 'a list \<Rightarrow> nat \<Rightarrow> nat \<Rightarrow> 'a list" where
  "qsort_arg cmp xs a n =
     (if n < 7 then insertion_sort cmp xs a (a + 1) (a + n)
      else if presorted cmp xs (a + 1) (a + n) then xs
      else
        (case partition_loop cmp (swap_at xs a (choose_pivot cmp xs a n)) a
                (a + 1) (a + 1) (a + n - 1) (a + n - 1) of (xs1, pa, pb, pc, pd) \<Rightarrow>
           let pn = a + n;
               r = min (pa - a) (pb - pa);
               xs2 = vecswap xs1 a (pb - r) r;
               r = min (pd - pc) (pn - pd - 1);
               xs3 = vecswap xs2 pb (pn - r) r;
               xs4 = (if pb - pa > 1 then qsort_arg cmp xs3 a (pb - pa) else xs3)
           in if pd - pc > 1 then qsort_arg cmp xs4 (pn - (pd - pc)) (pd - pc) else xs4))"
  by pat_completeness auto
termination
proof (relation "measure (\<lambda>(cmp, xs, a, n). n)", goal_cases)
  case (2 cmp xs a n xs1 y pa y2 pb y3 pc pd)
  have "pb - pa < n" by (rule partition_loop_smaller(1) [of xs1 pa pb pc pd]) (use 2(1,3-6) in auto)
  then show ?case by simp
next
  case (3 cmp xs a n xs1 y pa y2 pb y3 pc pd)
  have "pd - pc < n" by (rule partition_loop_smaller(2) [of xs1 pa pb pc pd]) (use 3(1,3-6) in auto)
  then show ?case by simp
qed simp

declare qsort_arg.simps [simp del]

section \<open>Insertion sort and the presorted check\<close>

lemma insert_down_permutes:
  "a \<le> pl \<Longrightarrow> pl < e \<Longrightarrow> e \<le> length xs \<Longrightarrow> permutes_range a e xs (insert_down cmp xs a pl)"
proof (induction cmp xs a pl rule: insert_down.induct)
  case (1 cmp xs a pl)
  show ?case
  proof (cases "pl > a \<and> cmp (xs ! (pl - 1)) (xs ! pl) > 0")
    case True
    then have "permutes_range a e xs (swap_at xs pl (pl - 1))"
      using "1.prems" by (intro permutes_range_swap) auto
    also have "permutes_range a e \<dots> (insert_down cmp \<dots> a (pl - 1))"
      using True "1.prems" by (intro "1.IH") auto
    finally show ?thesis using True by (simp add: insert_down.simps [of cmp xs a pl])
  next
    case False
    then show ?thesis by (auto simp: insert_down.simps [of cmp xs a pl])
  qed
qed

lemma insertion_sort_permutes:
  "a < pm \<Longrightarrow> e \<le> length xs \<Longrightarrow> permutes_range a e xs (insertion_sort cmp xs a pm e)"
proof (induction cmp xs a pm e rule: insertion_sort.induct)
  case (1 cmp xs a pm e)
  show ?case
  proof (cases "pm < e")
    case True
    then have "permutes_range a e xs (insert_down cmp xs a pm)"
      using "1.prems" by (intro insert_down_permutes) auto
    also have "permutes_range a e \<dots> (insertion_sort cmp \<dots> a (pm + 1) e)"
      using True "1.prems" permutes_range_length [OF calculation] by (intro "1.IH") auto
    finally show ?thesis using True by (simp add: insertion_sort.simps [of cmp xs a pm e])
  next
    case False
    then show ?thesis by (simp add: insertion_sort.simps [of cmp xs a pm e])
  qed
qed

context sort_comparator
begin

lemma insert_down_sorted:
  assumes "a \<le> pl" "pl < e" "e \<le> length xs"
    and "\<And>i j. a \<le> i \<Longrightarrow> i < j \<Longrightarrow> j < e \<Longrightarrow> j \<noteq> pl \<Longrightarrow> cmp (xs ! i) (xs ! j) \<le> 0"
  shows "sorted_range (insert_down cmp xs a pl) a e"
  using assms
proof (induction pl arbitrary: xs rule: less_induct)
  case (less pl)
  show ?case
  proof (cases "pl > a \<and> cmp (xs ! (pl - 1)) (xs ! pl) > 0")
    case True
    have le: "cmp (xs ! pl) (xs ! (pl - 1)) \<le> 0"
      using True cmp_le_flip less_imp_le by blast
    have "cmp (swap_at xs pl (pl - 1) ! i) (swap_at xs pl (pl - 1) ! j) \<le> 0"
      if "a \<le> i" "i < j" "j < e" "j \<noteq> pl - 1" for i j
    proof -
      have "cmp (xs ! i) (xs ! (pl - 1)) \<le> 0" if "i < pl - 1"
        using that \<open>a \<le> i\<close> less.prems by auto
      with that le less.prems True show ?thesis by (auto simp: swap_at_nth)
    qed
    then have "sorted_range (insert_down cmp (swap_at xs pl (pl - 1)) a (pl - 1)) a e"
      using True less.prems by (intro less.IH) auto
    with True show ?thesis by (simp add: insert_down.simps [of cmp xs a pl])
  next
    case False
    have "cmp (xs ! i) (xs ! pl) \<le> 0" if "a \<le> i" "i < pl" for i
    proof (cases "i = pl - 1")
      case True
      with False that show ?thesis by auto
    next
      case i: False
      then have "cmp (xs ! i) (xs ! (pl - 1)) \<le> 0" using that less.prems by auto
      moreover have "cmp (xs ! (pl - 1)) (xs ! pl) \<le> 0" using False that by auto
      ultimately show ?thesis by (rule cmp_trans)
    qed
    with less.prems have "sorted_range xs a e" by (metis sorted_range_def)
    with False show ?thesis by (auto simp: insert_down.simps [of cmp xs a pl])
  qed
qed

lemma insertion_sort_sorted:
  "a < pm \<Longrightarrow> pm \<le> e \<Longrightarrow> e \<le> length xs \<Longrightarrow> sorted_range xs a pm \<Longrightarrow>
   sorted_range (insertion_sort cmp xs a pm e) a e"
proof (induction "e - pm" arbitrary: pm xs)
  case 0
  then have "\<not> pm < e" by simp
  with 0 show ?case by (subst insertion_sort.simps) simp
next
  case (Suc k)
  let ?ys = "insert_down cmp xs a pm"
  have "sorted_range ?ys a (pm + 1)"
    using Suc.prems Suc.hyps(2)
    by (intro insert_down_sorted) (auto simp: sorted_range_def less_Suc_eq)
  moreover have "length ?ys = length xs"
    using permutes_range_length [OF insert_down_permutes [of a pm e xs cmp]] Suc.prems Suc.hyps(2)
    by simp
  ultimately have "sorted_range (insertion_sort cmp ?ys a (pm + 1) e) a e"
    using Suc.prems Suc.hyps(2) by (intro Suc.hyps(1)) auto
  moreover have "pm < e" using Suc.hyps(2) by simp
  ultimately show ?case by (simp add: insertion_sort.simps [of cmp xs a pm e])
qed

lemma presorted_sorted:
  "presorted cmp xs pm e \<Longrightarrow> a < pm \<Longrightarrow> sorted_range xs a pm \<Longrightarrow> sorted_range xs a e"
proof (induction "e - pm" arbitrary: pm)
  case 0
  then show ?case by (auto simp: sorted_range_def)
next
  case (Suc k)
  then have p: "cmp (xs ! (pm - 1)) (xs ! pm) \<le> 0" "presorted cmp xs (pm + 1) e"
    by (auto simp: presorted.simps [of cmp xs pm e] split: if_splits)
  have "cmp (xs ! i) (xs ! Suc i) \<le> 0" if "a \<le> i" "Suc i < pm + 1" for i
    using that p(1) Suc.prems(3) by (cases "Suc i = pm") (auto simp: sorted_range_def)
  then have "sorted_range xs a (pm + 1)" by (rule sorted_range_adjacent)
  with p Suc.prems Suc.hyps(2) show ?case by (intro Suc.hyps(1) [of "pm + 1"]) auto
qed

end

section \<open>The partition\<close>

text \<open>
  Around the pivot \<open>v\<close>, between \<open>a\<close> and \<open>e\<close>: equal elements up to \<open>pa\<close>, smaller
  ones up to \<open>pb\<close>, unseen ones up to \<open>pc\<close>, greater ones up to \<open>pd\<close>, and equal ones.
\<close>

definition part_inv ::
  "('a \<Rightarrow> 'a \<Rightarrow> int) \<Rightarrow> 'a \<Rightarrow> nat \<Rightarrow> nat \<Rightarrow> 'a list \<Rightarrow> nat \<Rightarrow> nat \<Rightarrow> nat \<Rightarrow> nat \<Rightarrow> bool" where
  "part_inv cmp v a e xs pa pb pc pd \<longleftrightarrow>
     a < pa \<and> pa \<le> pb \<and> pb \<le> pc + 1 \<and> pc \<le> pd \<and> pd < e \<and> e \<le> length xs \<and> xs ! a = v \<and>
     (\<forall>k. a \<le> k \<and> k < pa \<longrightarrow> cmp (xs ! k) v = 0) \<and>
     (\<forall>k. pa \<le> k \<and> k < pb \<longrightarrow> cmp (xs ! k) v < 0) \<and>
     (\<forall>k. pc < k \<and> k \<le> pd \<longrightarrow> cmp (xs ! k) v > 0) \<and>
     (\<forall>k. pd < k \<and> k < e \<longrightarrow> cmp (xs ! k) v = 0)"

lemma part_inv_up_eq:
  "part_inv cmp v a e xs pa pb pc pd \<Longrightarrow> pb \<le> pc \<Longrightarrow> cmp (xs ! pb) v = 0 \<Longrightarrow>
   part_inv cmp v a e (swap_at xs pa pb) (pa + 1) (pb + 1) pc pd"
  by (auto simp: part_inv_def swap_at_nth less_Suc_eq)

lemma part_inv_up_less:
  "part_inv cmp v a e xs pa pb pc pd \<Longrightarrow> pb \<le> pc \<Longrightarrow> cmp (xs ! pb) v < 0 \<Longrightarrow>
   part_inv cmp v a e xs pa (pb + 1) pc pd"
  by (auto simp: part_inv_def less_Suc_eq)

lemma part_inv_down_eq:
  assumes inv: "part_inv cmp v a e xs pa pb pc pd" and "pb \<le> pc" "cmp (xs ! pc) v = 0"
  shows "part_inv cmp v a e (swap_at xs pc pd) pa pb (pc - 1) (pd - 1)"
proof -
  obtain c d where cd: "pc = Suc c" "pd = Suc d"
    using assms by (cases pc; cases pd) (auto simp: part_inv_def)
  have "cmp (xs ! Suc d) v > 0" if "Suc c \<le> d" using that assms by (simp add: part_inv_def cd)
  moreover have "c < k \<longleftrightarrow> k = Suc c \<or> Suc c < k" "d < k \<longleftrightarrow> k = Suc d \<or> Suc d < k" for k by auto
  ultimately show ?thesis using assms by (auto simp: part_inv_def swap_at_nth cd)
qed

lemma part_inv_down_greater:
  assumes inv: "part_inv cmp v a e xs pa pb pc pd" and "pb \<le> pc" "cmp (xs ! pc) v > 0"
  shows "part_inv cmp v a e xs pa pb (pc - 1) pd"
proof -
  obtain c where c: "pc = Suc c" using assms by (cases pc) (auto simp: part_inv_def)
  have "c < k \<longleftrightarrow> k = Suc c \<or> Suc c < k" for k by auto
  then show ?thesis using assms by (auto simp: part_inv_def c)
qed

lemma part_inv_swap:
  assumes inv: "part_inv cmp v a e xs pa pb pc pd"
    and "pb < pc" "cmp (xs ! pb) v > 0" "cmp (xs ! pc) v < 0"
  shows "part_inv cmp v a e (swap_at xs pb pc) pa (pb + 1) (pc - 1) pd"
proof -
  obtain c where c: "pc = Suc c" using assms by (cases pc) auto
  have "c < k \<longleftrightarrow> k = Suc c \<or> Suc c < k" for k by auto
  then show ?thesis using assms by (auto simp: part_inv_def swap_at_nth less_Suc_eq c)
qed

lemma scan_up_inv:
  assumes "scan_up cmp xs a pa pb pc = (xs', pa', pb')" and "part_inv cmp v a e xs pa pb pc pd"
  shows "part_inv cmp v a e xs' pa' pb' pc pd \<and> permutes_range (a + 1) e xs xs' \<and>
         (pb' \<le> pc \<longrightarrow> cmp (xs' ! pb') v > 0)"
  using assms
proof (induction cmp xs a pa pb pc rule: scan_up.induct)
  case (1 cmp xs a pa pb pc)
  have v: "xs ! a = v" and b: "a < pa" "pa \<le> pb" "pc < e" "e \<le> length xs"
    using "1.prems"(2) by (auto simp: part_inv_def)
  consider "pb \<le> pc" "cmp (xs ! pb) v = 0" | "pb \<le> pc" "cmp (xs ! pb) v < 0"
    | "pb \<le> pc \<longrightarrow> cmp (xs ! pb) v > 0" by linarith
  then show ?case
  proof cases
    case 1
    with "1.prems" v have "scan_up cmp (swap_at xs pa pb) a (pa + 1) (pb + 1) pc = (xs', pa', pb')"
      by (simp add: scan_up.simps [of cmp xs a pa pb pc])
    with 1 v have "part_inv cmp v a e xs' pa' pb' pc pd \<and>
        permutes_range (a + 1) e (swap_at xs pa pb) xs' \<and> (pb' \<le> pc \<longrightarrow> cmp (xs' ! pb') v > 0)"
      using part_inv_up_eq [OF "1.prems"(2) 1] by (intro "1.IH"(1)) auto
    moreover have "permutes_range (a + 1) e xs (swap_at xs pa pb)"
      using 1 b by (intro permutes_range_swap) auto
    ultimately show ?thesis using permutes_range_trans by blast
  next
    case 2
    with "1.prems" v have "scan_up cmp xs a pa (pb + 1) pc = (xs', pa', pb')"
      by (simp add: scan_up.simps [of cmp xs a pa pb pc])
    with 2 v show ?thesis
      using part_inv_up_less [OF "1.prems"(2) 2] by (intro "1.IH"(2)) auto
  next
    case 3
    with "1.prems" v show ?thesis by (auto simp: scan_up.simps [of cmp xs a pa pb pc])
  qed
qed

lemma scan_down_inv:
  assumes "scan_down cmp xs a pb pc pd = (xs', pc', pd')" and "part_inv cmp v a e xs pa pb pc pd"
  shows "part_inv cmp v a e xs' pa pb pc' pd' \<and> permutes_range (a + 1) e xs xs' \<and>
         (pb \<le> pc' \<longrightarrow> cmp (xs' ! pc') v < 0 \<and> xs' ! pb = xs ! pb)"
  using assms
proof (induction cmp xs a pb pc pd rule: scan_down.induct)
  case (1 cmp xs a pb pc pd)
  have v: "xs ! a = v" and b: "a < pb" "pc \<le> pd" "pd < e" "e \<le> length xs"
    using "1.prems"(2) by (auto simp: part_inv_def)
  consider "pb \<le> pc" "cmp (xs ! pc) v = 0" | "pb \<le> pc" "cmp (xs ! pc) v > 0"
    | "pb \<le> pc \<longrightarrow> cmp (xs ! pc) v < 0" by linarith
  then show ?case
  proof cases
    case 1
    with "1.prems" v b have
      d: "scan_down cmp (swap_at xs pc pd) a pb (pc - 1) (pd - 1) = (xs', pc', pd')"
      by (simp add: scan_down.simps [of cmp xs a pb pc pd])
    with 1 v b have IH: "part_inv cmp v a e xs' pa pb pc' pd' \<and>
        permutes_range (a + 1) e (swap_at xs pc pd) xs' \<and>
        (pb \<le> pc' \<longrightarrow> cmp (xs' ! pc') v < 0 \<and> xs' ! pb = swap_at xs pc pd ! pb)"
      using part_inv_down_eq [OF "1.prems"(2) 1] by (intro "1.IH"(1)) auto
    moreover have "permutes_range (a + 1) e xs (swap_at xs pc pd)"
      using 1 b by (intro permutes_range_swap) auto
    moreover have "swap_at xs pc pd ! pb = xs ! pb" if "pb \<le> pc'"
      using scan_down_mono [OF d] that b 1 by (auto simp: swap_at_nth)
    ultimately show ?thesis using permutes_range_trans by (metis (no_types, lifting))
  next
    case 2
    with "1.prems" v b have "scan_down cmp xs a pb (pc - 1) pd = (xs', pc', pd')"
      by (simp add: scan_down.simps [of cmp xs a pb pc pd])
    with 2 v b show ?thesis
      using part_inv_down_greater [OF "1.prems"(2) 2] by (intro "1.IH"(2)) auto
  next
    case 3
    with "1.prems" v b show ?thesis by (auto simp: scan_down.simps [of cmp xs a pb pc pd])
  qed
qed

lemma partition_loop_inv:
  assumes "partition_loop cmp xs a pa pb pc pd = (xs', pa', pb', pc', pd')"
    and "part_inv cmp v a e xs pa pb pc pd"
  shows "part_inv cmp v a e xs' pa' pb' pc' pd' \<and> pb' = pc' + 1 \<and> permutes_range (a + 1) e xs xs'"
  using assms
proof (induction cmp xs a pa pb pc pd rule: partition_loop.induct)
  case (1 cmp xs a pa pb pc pd)
  obtain xs1 pa1 pb1 where u: "scan_up cmp xs a pa pb pc = (xs1, pa1, pb1)"
    by (metis prod_cases3)
  obtain xs2 pc2 pd2 where d: "scan_down cmp xs1 a pb1 pc pd = (xs2, pc2, pd2)"
    by (metis prod_cases3)
  note ui = scan_up_inv [OF u "1.prems"(2)]
  note di = scan_down_inv [OF d ui [THEN conjunct1]]
  have p: "permutes_range (a + 1) e xs xs2" using ui di permutes_range_trans by blast
  show ?case
  proof (cases "pb1 > pc2")
    case True
    then have "pb1 = pc2 + 1" using di by (auto simp: part_inv_def)
    with "1.prems" u d di p show ?thesis
      by (auto simp: partition_loop.simps [of cmp xs a pa pb pc pd])
  next
    case False
    then have l: "partition_loop cmp (swap_at xs2 pb1 pc2) a pa1 (pb1 + 1) (pc2 - 1) pd2 =
        (xs', pa', pb', pc', pd')"
      using "1.prems" u d by (simp add: partition_loop.simps [of cmp xs a pa pb pc pd])
    have c: "cmp (xs2 ! pb1) v > 0" "cmp (xs2 ! pc2) v < 0"
      using False ui di scan_down_mono [OF d] by auto
    then have "pb1 \<noteq> pc2" by auto
    with False have less: "pb1 < pc2" by simp
    have "permutes_range (a + 1) e xs2 (swap_at xs2 pb1 pc2)"
      using less di by (intro permutes_range_swap) (auto simp: part_inv_def)
    with p have "permutes_range (a + 1) e xs (swap_at xs2 pb1 pc2)" by (rule permutes_range_trans)
    with "1.IH" [OF u [symmetric] refl d [symmetric] refl False l] part_inv_swap [OF di [THEN conjunct1] less c]
    show ?thesis using permutes_range_trans by blast
  qed
qed

lemma length_vecswap [simp]: "length (vecswap xs a b r) = length xs"
  by (induction r arbitrary: xs a b) auto

lemma vecswap_nth:
  "a + r \<le> b \<Longrightarrow> b + r \<le> length xs \<Longrightarrow> k < length xs \<Longrightarrow>
   vecswap xs a b r ! k =
     (if a \<le> k \<and> k < a + r then xs ! (k - a + b)
      else if b \<le> k \<and> k < b + r then xs ! (k - b + a) else xs ! k)"
proof (induction r arbitrary: xs a b)
  case (Suc r)
  have IH: "vecswap xs a b (Suc r) ! k =
      (if a + 1 \<le> k \<and> k < a + 1 + r then swap_at xs a b ! (k - (a + 1) + (b + 1))
       else if b + 1 \<le> k \<and> k < b + 1 + r then swap_at xs a b ! (k - (b + 1) + (a + 1))
       else swap_at xs a b ! k)"
    using Suc.prems by (simp add: Suc.IH)
  consider "k = a" | "k = b" | "a < k" "k < a + Suc r" | "b < k" "k < b + Suc r"
    | "\<not> (a \<le> k \<and> k < a + Suc r)" "\<not> (b \<le> k \<and> k < b + Suc r)"
    by fastforce
  then show ?case
  proof cases
    case 3
    then have "k = a + 1 + (k - a - 1)" "k - a - 1 < r" by auto
    then obtain i where "k = a + 1 + i" "i < r" by blast
    with Suc.prems IH show ?thesis by (auto simp: swap_at_nth)
  next
    case 4
    then have "k = b + 1 + (k - b - 1)" "k - b - 1 < r" by auto
    then obtain i where "k = b + 1 + i" "i < r" by blast
    with Suc.prems IH show ?thesis by (auto simp: swap_at_nth)
  next
    case 5
    then have "\<not> (a + 1 \<le> k \<and> k < a + 1 + r)" "\<not> (b + 1 \<le> k \<and> k < b + 1 + r)" by linarith+
    then have "vecswap xs a b (Suc r) ! k = swap_at xs a b ! k" by (metis IH)
    also have "\<dots> = xs ! k" using 5 Suc.prems by (subst swap_at_nth) auto
    finally show ?thesis using 5 by metis
  qed (use Suc.prems IH in \<open>auto simp: swap_at_nth\<close>)
qed auto

lemma vecswap_permutes:
  "a0 \<le> a \<Longrightarrow> a \<le> b \<Longrightarrow> b + r \<le> e \<Longrightarrow> e \<le> length xs \<Longrightarrow> permutes_range a0 e xs (vecswap xs a b r)"
proof (induction r arbitrary: xs a b)
  case (Suc r)
  then have "permutes_range a0 e xs (swap_at xs a b)" by (intro permutes_range_swap) auto
  also have "permutes_range a0 e \<dots> (vecswap \<dots> (a + 1) (b + 1) r)"
    using Suc.prems by (intro Suc.IH) auto
  finally show ?case by simp
qed simp

lemma vecswap_blocks:
  assumes "a \<le> m" "m \<le> e" "e \<le> length xs" and r: "r = min (m - a) (e - m)"
    and P: "\<And>k. a \<le> k \<Longrightarrow> k < m \<Longrightarrow> P (xs ! k)" and Q: "\<And>k. m \<le> k \<Longrightarrow> k < e \<Longrightarrow> Q (xs ! k)"
  shows "a \<le> k \<Longrightarrow> k < a + (e - m) \<Longrightarrow> Q (vecswap xs a (e - r) r ! k)"
    and "a + (e - m) \<le> k \<Longrightarrow> k < e \<Longrightarrow> P (vecswap xs a (e - r) r ! k)"
proof -
  have b: "a + r \<le> e - r" "e - r + r \<le> length xs" using assms by (auto simp: min_def)
  note nth = vecswap_nth [OF b]
  show "a \<le> k \<Longrightarrow> k < a + (e - m) \<Longrightarrow> Q (vecswap xs a (e - r) r ! k)"
    using assms(1-3) r by (subst nth) (auto simp: min_def split: if_splits intro!: Q)
  show "a + (e - m) \<le> k \<Longrightarrow> k < e \<Longrightarrow> P (vecswap xs a (e - r) r ! k)"
    using assms(1-3) r by (subst nth) (auto simp: min_def split: if_splits intro!: P)
qed

lemma choose_pivot_range:
  assumes "7 \<le> n" shows "a \<le> choose_pivot cmp xs a n \<and> choose_pivot cmp xs a n < a + n"
proof -
  have in3: "med3 cmp xs x y z \<in> {a..<a + n}"
    if "x \<in> {a..<a + n}" "y \<in> {a..<a + n}" "z \<in> {a..<a + n}" for x y z
    using that by (simp add: med3_def)
  have "n div 8 * 2 < n" "n div 8 \<le> n div 2" "n div 2 + n div 8 < n" using assms by linarith+
  then have "choose_pivot cmp xs a n \<in> {a..<a + n}"
    unfolding choose_pivot_def Let_def using assms by (auto intro!: in3 simp del: atLeastLessThan_iff)
      (auto)
  then show ?thesis by simp
qed

section \<open>Correctness\<close>

context sort_comparator
begin

lemma sorted_range_short: "e \<le> a + 1 \<Longrightarrow> sorted_range xs a e"
  by (auto simp: sorted_range_def)

lemma sorted_range_around:
  assumes "sorted_range xs a m1" "sorted_range xs m2 e"
    and l: "\<And>k. a \<le> k \<Longrightarrow> k < m1 \<Longrightarrow> cmp (xs ! k) v < 0"
    and m: "\<And>k. m1 \<le> k \<Longrightarrow> k < m2 \<Longrightarrow> cmp (xs ! k) v = 0"
    and g: "\<And>k. m2 \<le> k \<Longrightarrow> k < e \<Longrightarrow> cmp (xs ! k) v > 0"
  shows "sorted_range xs a e"
  unfolding sorted_range_def
proof (intro allI impI, elim conjE)
  fix i j assume ij: "a \<le> i" "i < j" "j < e"
  consider "j < m1" | "m2 \<le> i" | "m1 \<le> j" "i < m2" by linarith
  then show "cmp (xs ! i) (xs ! j) \<le> 0"
  proof cases
    case 3
    have "cmp (xs ! i) v \<le> 0" using l [of i] m [of i] ij 3 by (cases "i < m1") auto
    moreover have "cmp v (xs ! j) \<le> 0"
      using m [of j] g [of j] ij 3 cmp_le_flip [of v "xs ! j"] by (cases "j < m2") auto
    ultimately show ?thesis by (rule cmp_trans)
  qed (use assms(1,2) ij in \<open>auto simp: sorted_range_def\<close>)
qed

text \<open>The two block exchanges bring the elements equal to the pivot into the middle.\<close>

lemma blocks_exchanged:
  assumes inv: "part_inv cmp v a e xs pa pb pc pd" and pb: "pb = pc + 1"
    and r: "r = min (pa - a) (pb - pa)" "r' = min (pd - pc) (e - pd - 1)"
    and xs2: "xs2 = vecswap xs a (pb - r) r" and ys: "ys = vecswap xs2 pb (e - r') r'"
  shows "permutes_range a e xs ys"
    and "a \<le> k \<Longrightarrow> k < a + (pb - pa) \<Longrightarrow> cmp (ys ! k) v < 0"
    and "a + (pb - pa) \<le> k \<Longrightarrow> k < e - (pd - pc) \<Longrightarrow> cmp (ys ! k) v = 0"
    and "e - (pd - pc) \<le> k \<Longrightarrow> k < e \<Longrightarrow> cmp (ys ! k) v > 0"
proof -
  have b: "a < pa" "pa \<le> pb" "pb \<le> pd + 1" "pd < e" "e \<le> length xs"
    using inv pb by (auto simp: part_inv_def)
  have r'': "r' = min (pd + 1 - pb) (e - (pd + 1))" unfolding r(2) pb by simp
  have m2: "pb + (e - (pd + 1)) = e - (pd - pc)" using pb b(3,4) by simp
  have r_le: "r \<le> pa - a" "r \<le> pb - pa" "r' \<le> pd + 1 - pb" "r' \<le> e - (pd + 1)"
    using r(1) r'' by simp_all
  have "permutes_range a e xs xs2"
    unfolding xs2 by (rule vecswap_permutes) (use b r_le in linarith)+
  also have "permutes_range a e xs2 ys"
    unfolding ys by (rule vecswap_permutes) (use b r_le xs2 in simp_all)
  finally show "permutes_range a e xs ys" .
  note first = vecswap_blocks [of a pa pb xs r "\<lambda>x. cmp x v = 0" "\<lambda>x. cmp x v < 0", folded xs2]
  have out: "xs2 ! k = xs ! k" if "pb \<le> k" "k < length xs" for k
    unfolding xs2 using that b r_le(1,2) by (subst vecswap_nth) auto
  have same: "ys ! k = xs2 ! k" if "k < pb" for k
    unfolding ys using that b r_le(3,4) xs2 by (subst vecswap_nth) auto
  note second = vecswap_blocks [of pb "pd + 1" e xs2 r' "\<lambda>x. cmp x v > 0" "\<lambda>x. cmp x v = 0",
      folded ys, unfolded m2]
  show "cmp (ys ! k) v < 0" if "a \<le> k" "k < a + (pb - pa)"
    using that b same [of k] first(1) [of k] inv r by (simp add: part_inv_def)
  show "cmp (ys ! k) v = 0" if "a + (pb - pa) \<le> k" "k < e - (pd - pc)"
  proof (cases "k < pb")
    case True
    with that b same [of k] first(2) [of k] inv r show ?thesis by (simp add: part_inv_def)
  next
    case False
    with that b second(1) [of k] inv r'' out xs2 pb show ?thesis by (simp add: part_inv_def)
  qed
  show "cmp (ys ! k) v > 0" if "e - (pd - pc) \<le> k" "k < e"
    using that b second(2) [of k] inv r'' out xs2 pb by (simp add: part_inv_def)
qed

lemma partition_round:
  assumes part: "partition_loop cmp (swap_at xs a (choose_pivot cmp xs a n)) a
      (a + 1) (a + 1) (a + n - 1) (a + n - 1) = (xs1, pa, pb, pc, pd)"
    and n: "7 \<le> n" "a + n \<le> length xs"
  shows "\<exists>v. part_inv cmp v a (a + n) xs1 pa pb pc pd" "pb = pc + 1" "permutes_range a (a + n) xs xs1"
proof -
  let ?e = "a + n" and ?xs0 = "swap_at xs a (choose_pivot cmp xs a n)"
  have p0: "permutes_range a ?e xs ?xs0"
    using n choose_pivot_range [OF n(1)] by (intro permutes_range_swap) auto
  have "part_inv cmp (?xs0 ! a) a ?e ?xs0 (a + 1) (a + 1) (?e - 1) (?e - 1)"
    using n by (auto simp: part_inv_def less_Suc_eq_le)
  note inv = partition_loop_inv [OF part this]
  from inv show "\<exists>v. part_inv cmp v a ?e xs1 pa pb pc pd" "pb = pc + 1" by auto
  from inv have "permutes_range a ?e ?xs0 xs1" by (elim conjE) (erule permutes_range_mono, auto)
  with p0 show "permutes_range a ?e xs xs1" by (rule permutes_range_trans)
qed

text \<open>Sorting the two outer parts, each on its own, sorts the whole.\<close>

lemma sort_outer_parts:
  assumes "e \<le> length xs" "a \<le> m1" "m1 \<le> m2" "m2 \<le> e"
    and p: "permutes_range a m1 xs ys" "permutes_range m2 e ys zs"
    and s: "sorted_range ys a m1" "sorted_range zs m2 e"
    and l: "\<And>k. a \<le> k \<Longrightarrow> k < m1 \<Longrightarrow> cmp (xs ! k) v < 0"
    and m: "\<And>k. m1 \<le> k \<Longrightarrow> k < m2 \<Longrightarrow> cmp (xs ! k) v = 0"
    and g: "\<And>k. m2 \<le> k \<Longrightarrow> k < e \<Longrightarrow> cmp (xs ! k) v > 0"
  shows "sorted_range zs a e"
proof (rule sorted_range_around [OF _ s(2)])
  have len: "length ys = length xs" using p(1) by (rule permutes_range_length)
  have zy: "zs ! k = ys ! k" if "k < m2" for k
    using that assms(1,4) len by (intro permutes_range_outside [OF p(2)]) auto
  have yx: "ys ! k = xs ! k" if "m1 \<le> k" "k < e" for k
    using that assms(1) by (intro permutes_range_outside [OF p(1)]) auto
  show "sorted_range zs a m1" using s(1) assms(3) zy by (simp add: sorted_range_def)
  show "cmp (zs ! k) v < 0" if "a \<le> k" "k < m1" for k
    using that assms zy permutes_range_all [OF p(1), of "\<lambda>x. cmp x v < 0"] by simp
  show "cmp (zs ! k) v = 0" if "m1 \<le> k" "k < m2" for k
    using that assms zy yx by simp
  show "cmp (zs ! k) v > 0" if "m2 \<le> k" "k < e" for k
    using that assms len yx permutes_range_all [OF p(2), of "\<lambda>x. cmp x v > 0"] by simp
qed

lemma qsort_arg_partitioned:
  assumes n: "7 \<le> n" "a + n \<le> length xs" and unsorted: "\<not> presorted cmp xs (a + 1) (a + n)"
    and IH: "\<And>m b ys. m < n \<Longrightarrow> b + m \<le> length ys \<Longrightarrow>
      permutes_range b (b + m) ys (qsort_arg cmp ys b m) \<and> sorted_range (qsort_arg cmp ys b m) b (b + m)"
  shows "permutes_range a (a + n) xs (qsort_arg cmp xs a n) \<and> sorted_range (qsort_arg cmp xs a n) a (a + n)"
proof -
  obtain xs1 pa pb pc pd where part: "partition_loop cmp (swap_at xs a (choose_pivot cmp xs a n)) a
      (a + 1) (a + 1) (a + n - 1) (a + n - 1) = (xs1, pa, pb, pc, pd)" by (metis prod_cases5)
  note round = partition_round [OF part n]
  obtain v where inv: "part_inv cmp v a (a + n) xs1 pa pb pc pd" using round(1) by blast
  define xs2 where "xs2 = vecswap xs1 a (pb - min (pa - a) (pb - pa)) (min (pa - a) (pb - pa))"
  define xs3 where "xs3 = vecswap xs2 pb (a + n - min (pd - pc) (a + n - pd - 1)) (min (pd - pc) (a + n - pd - 1))"
  define xs4 where "xs4 = (if pb - pa > 1 then qsort_arg cmp xs3 a (pb - pa) else xs3)"
  let ?m1 = "a + (pb - pa)" and ?m2 = "a + n - (pd - pc)" and ?ys = "qsort_arg cmp xs a n"
  note ex = blocks_exchanged [OF inv round(2) refl refl xs2_def xs3_def]
  have q: "?ys = (if pd - pc > 1 then qsort_arg cmp xs4 ?m2 (pd - pc) else xs4)"
    using n unsorted part by (simp add: qsort_arg.simps [of cmp xs a n] xs2_def xs3_def xs4_def Let_def)
  have b: "a < pa" "pa \<le> pb" "pb \<le> pd + 1" "pd < a + n" "?m1 \<le> ?m2"
    using inv round(2) by (auto simp: part_inv_def)
  have len: "a + n \<le> length xs3"
    using n permutes_range_length [OF ex(1)] permutes_range_length [OF round(3)] by simp
  have l: "permutes_range a ?m1 xs3 xs4" "sorted_range xs4 a ?m1"
    using IH [of "pb - pa" a xs3] b len by (auto simp: xs4_def sorted_range_short)
  have r: "permutes_range ?m2 (a + n) xs4 ?ys" "sorted_range ?ys ?m2 (a + n)"
    using IH [of "pd - pc" ?m2 xs4] b len permutes_range_length [OF l(1)] round(2)
    by (auto simp: q sorted_range_short)
  have "sorted_range ?ys a (a + n)"
    using sort_outer_parts [OF len _ _ _ l(1) r(1) l(2) r(2) ex(2-4)] b by auto
  note round(3)
  also note ex(1)
  also have "permutes_range a (a + n) xs3 xs4" using b by (intro permutes_range_mono [OF l(1)]) auto
  also have "permutes_range a (a + n) xs4 ?ys" using b by (intro permutes_range_mono [OF r(1)]) auto
  finally show ?thesis using \<open>sorted_range ?ys a (a + n)\<close> by blast
qed

lemma qsort_arg_correct:
  "a + n \<le> length xs \<Longrightarrow>
   permutes_range a (a + n) xs (qsort_arg cmp xs a n) \<and> sorted_range (qsort_arg cmp xs a n) a (a + n)"
proof (induction n arbitrary: xs a rule: less_induct)
  case (less n)
  have one: "sorted_range xs a (a + 1)" by (rule sorted_range_short) simp
  consider "n < 7" | "7 \<le> n" "presorted cmp xs (a + 1) (a + n)"
    | "7 \<le> n" "\<not> presorted cmp xs (a + 1) (a + n)" by linarith
  then show ?case
  proof cases
    case 1
    then have "qsort_arg cmp xs a n = insertion_sort cmp xs a (a + 1) (a + n)"
      by (simp add: qsort_arg.simps [of cmp xs a n])
    moreover have "sorted_range (insertion_sort cmp xs a (a + 1) (a + n)) a (a + n)"
      using less.prems one insertion_sort_sorted [of a "a + 1" "a + n" xs]
      by (cases n) (auto intro: sorted_range_short)
    ultimately show ?thesis using less.prems by (simp add: insertion_sort_permutes)
  next
    case 2
    then have "qsort_arg cmp xs a n = xs" by (simp add: qsort_arg.simps [of cmp xs a n])
    with presorted_sorted [OF 2(2) _ one] show ?thesis by simp
  next
    case 3
    from 3(1) less.prems 3(2) less.IH show ?thesis by (rule qsort_arg_partitioned)
  qed
qed

end

text \<open>
  C13: qsort_arg sorts in place. For every comparison function that orders its arguments
  consistently, sorting \<open>n\<close> elements from index \<open>a\<close> leaves these elements in
  order, is a permutation of the array, and touches no element outside the range; this
  covers insertion sort, the presorted shortcut and the three-way partition.
\<close>

theorem qsort_arg_sorts:
  assumes "sort_comparator cmp" and "a + n \<le> length xs"
  shows "sorted_wrt (\<lambda>x y. cmp x y \<le> 0) (take n (drop a (qsort_arg cmp xs a n))) \<and>
         permutes_range a (a + n) xs (qsort_arg cmp xs a n)"
proof -
  note correct = sort_comparator.qsort_arg_correct [OF assms]
  moreover have "a + n \<le> length (qsort_arg cmp xs a n)"
    using correct assms(2) permutes_range_length by metis
  ultimately show ?thesis
    using sort_comparator.sorted_range_slice [OF assms(1), of "a + n" "qsort_arg cmp xs a n" a] by simp
qed

theorem qsort_arg_sorts_witness:
  "sort_comparator (\<lambda>x y. x - y :: int) \<and>
   sorted_wrt (\<le>) (take 8 (drop 1 (qsort_arg (\<lambda>x y. x - y) [99, 4, 7, 1, 4, 9, 0, 4, 2, 98 :: int] 1 8)))"
proof -
  have c: "sort_comparator (\<lambda>x y. x - y :: int)" by unfold_locales auto
  show ?thesis
    using c qsort_arg_sorts [OF c, of 1 8 "[99, 4, 7, 1, 4, 9, 0, 4, 2, 98]"] by simp
qed

end
