(* ===== verification/Tuplesort.thy ===== *)
theory Tuplesort
  imports TapeMerge QSortArg
begin

text \<open>
  The life of a sort in \<^verbatim>\<open>tuplesort.c\<close>: starting it (\<^verbatim>\<open>tuplesort_begin_heap\<close>),
  limiting it (\<^verbatim>\<open>tuplesort_set_bound\<close>), taking tuples in (\<^verbatim>\<open>puttuple_common\<close> and
  its callers), finishing it (\<^verbatim>\<open>tuplesort_performsort\<close>) and reading the result
  (\<^verbatim>\<open>tuplesort_gettuple_common\<close>, rescan, mark and restore). The lemmas follow a sort
  that stays in memory, by quicksort or by the bounded heap.
\<close>

section \<open>Starting a sort\<close>

definition tuplesort_begin_common ::
  "'d sort_env \<Rightarrow> int \<Rightarrow> bool \<Rightarrow> pg_error + 'd Tuplesortstate" where
  "tuplesort_begin_common env workMem random =
     (let state = \<lparr>status = TSS_INITIAL, nKeys = 0, randomAccess = random, bounded = False,
            boundUsed = False, bound = 0, availMem = workMem * 1024, allowedMem = workMem * 1024,
            maxTapes = 0, tapeRange = 0, tapeset = None,
            memtuples = replicate 1024 (fresh_slot env), memtupcount = 0, memtupsize = 1024,
            currentRun = 0, mergeactive = [], mergenext = [], mergelast = [], mergeavailslots = [],
            mergeavailmem = [], mergefreelist = 0, mergefirstfree = 0, Level = 0, destTape = 0,
            tp_fib = [], tp_runs = [], tp_dummy = [], tp_tapenum = [], activeTapes = 0,
            result_tape = -1, current = 0, eof_reached = False, markpos_block = 0, markpos_offset = 0,
            markpos_eof = False, scanKeys = [], isParallel = False, isParallelEnded = False,
            lastWorker = 0, workersCnt = 0, workersFinished = [], workers = [], workersId = 0\<rparr>;
          state = USEMEM (array_space env (memtupsize state)) state
      in if LACKMEM state then Inl (ERROR ''insufficient memory allowed for sort'') else Inr state)"

text \<open>
  \<open>ordering_op\<close> is \<^verbatim>\<open>get_compare_function_for_ordering_op\<close>: the comparison function
  of an ordering operator and whether the operator sorts downwards.
\<close>

definition begin_scan_key ::
  "(int \<Rightarrow> (('d \<Rightarrow> 'd \<Rightarrow> int option) \<times> bool) option) \<Rightarrow> int \<times> int \<times> bool \<Rightarrow>
   'd Tuplesortstate \<Rightarrow> pg_error + 'd Tuplesortstate" where
  "begin_scan_key ordering_op = (\<lambda>(attnum, sortOperator, nullsFirst) state.
     if attnum = 0 \<or> sortOperator = 0 then Inl (TRAP ''attNums[i] != 0'')
     else case ordering_op sortOperator of
         None \<Rightarrow> Inl (ERROR ''operator is not a valid ordering operator'')
       | Some (sortFunction, reverse) \<Rightarrow>
           let k = ScanKeyInit attnum sortFunction;
               k = (if reverse then k\<lparr>sk_flags := sk_flags k OR SK_BT_DESC\<rparr> else k);
               k = (if nullsFirst then k\<lparr>sk_flags := sk_flags k OR SK_BT_NULLS_FIRST\<rparr> else k)
           in Inr (state\<lparr>scanKeys := scanKeys state @ [k]\<rparr>))"

definition tuplesort_begin_heap ::
  "'d sort_env \<Rightarrow> (int \<Rightarrow> (('d \<Rightarrow> 'd \<Rightarrow> int option) \<times> bool) option) \<Rightarrow>
   (int \<times> int \<times> bool) list \<Rightarrow> int \<Rightarrow> bool \<Rightarrow> pg_error + 'd Tuplesortstate" where
  "tuplesort_begin_heap env ordering_op keys workMem random =
     bindE (tuplesort_begin_common env workMem random) (\<lambda>state.
       if \<not> length keys > 0 then Inl (TRAP ''nkeys > 0'')
       else foldE (begin_scan_key ordering_op) keys
              (state\<lparr>isParallelEnded := False, nKeys := length keys\<rparr>))"

definition tuplesort_set_bound :: "'d Tuplesortstate \<Rightarrow> int \<Rightarrow> pg_error + 'd Tuplesortstate" where
  "tuplesort_set_bound state n =
     (if \<not> (status state = TSS_INITIAL \<and> memtupcount state = 0 \<and> \<not> bounded state)
      then Inl (TRAP ''tuplesort_set_bound'')
      else if n > INT_MAX div 2 then Inr state
      else Inr (state\<lparr>bounded := True, bound := n\<rparr>))"

definition tuplesort_set_prl_level :: "'d Tuplesortstate \<Rightarrow> int \<Rightarrow> 'd Tuplesortstate" where
  "tuplesort_set_prl_level state level = state\<lparr>workersCnt := level\<rparr>"

definition tuplesort_set_workersId :: "'d Tuplesortstate \<Rightarrow> int \<Rightarrow> 'd Tuplesortstate" where
  "tuplesort_set_workersId state wid = state\<lparr>workersId := wid\<rparr>"

definition tuplesort_set_parallel :: "'d Tuplesortstate \<Rightarrow> bool \<Rightarrow> 'd Tuplesortstate" where
  "tuplesort_set_parallel state prl_on = state\<lparr>isParallel := prl_on\<rparr>"

section \<open>Taking tuples in\<close>

text \<open>On a 64-bit machine a \<^verbatim>\<open>SortTuple\<close> takes 24 bytes.\<close>

definition SORTTUPLE_SIZE :: int where
  "SORTTUPLE_SIZE = 24"

definition MaxAllocSize :: int where
  "MaxAllocSize = 1073741823"

definition grow_memtuples :: "'d sort_env \<Rightarrow> 'd Tuplesortstate \<Rightarrow> pg_error + bool \<times> 'd Tuplesortstate" where
  "grow_memtuples env state =
     (if availMem state \<le> int (memtupsize state) * SORTTUPLE_SIZE then Inr (False, state)
      else if int (memtupsize state) * 2 \<ge> MaxAllocSize div SORTTUPLE_SIZE then Inr (False, state)
      else
        (let state = FREEMEM (array_space env (memtupsize state)) state;
             state = state\<lparr>memtupsize := memtupsize state * 2,
               memtuples := memtuples state @ replicate (memtupsize state) (fresh_slot env)\<rparr>;
             state = USEMEM (array_space env (memtupsize state)) state
         in if LACKMEM state then Inl (ERROR ''unexpected out-of-memory situation during sort'')
            else Inr (True, state)))"

text \<open>One tuple of the array, on its way into the bounded heap.\<close>

definition bounded_heap_step ::
  "'d sort_env \<Rightarrow> nat \<Rightarrow> 'd Tuplesortstate \<Rightarrow> pg_error + 'd Tuplesortstate" where
  "bounded_heap_step env i state =
     (if int (memtupcount state) \<ge> bound state \<and>
         COMPARETUP env state (memtuples state ! i) (memtuples state ! 0) \<le> 0
      then Inr (free_sort_tuple env state (memtuples state ! i))
      else bindE (tuplesort_heap_insert env state (memtuples state ! i) 0 False) (\<lambda>state.
        if int (memtupcount state) > bound state
        then Inr (tuplesort_heap_siftup env (free_sort_tuple env state (memtuples state ! 0)) False)
        else Inr state))"

definition make_bounded_heap :: "'d sort_env \<Rightarrow> 'd Tuplesortstate \<Rightarrow> pg_error + 'd Tuplesortstate" where
  "make_bounded_heap env state =
     (let tupcount = memtupcount state
      in if \<not> (status state = TSS_INITIAL \<and> bounded state \<and> int tupcount \<ge> bound state)
         then Inl (TRAP ''make_bounded_heap'')
         else bindE (foldE (bounded_heap_step env) [0..<tupcount] ((REVERSEDIRECTION state)\<lparr>memtupcount := 0\<rparr>))
           (\<lambda>state. if int (memtupcount state) \<noteq> bound state then Inl (TRAP ''memtupcount == bound'')
                    else Inr (state\<lparr>status := TSS_BOUNDED\<rparr>)))"

text \<open>
  The two halves of storing a tuple in the array: growing it while one entry is still
  free, and afterwards the switch to the bounded heap or to tapes when it is time.
\<close>

definition ensure_slot :: "'d sort_env \<Rightarrow> 'd Tuplesortstate \<Rightarrow> pg_error + 'd Tuplesortstate" where
  "ensure_slot env state =
     (if memtupcount state \<ge> memtupsize state - 1
      then bindE (grow_memtuples env state) (\<lambda>(_, state).
        if \<not> memtupcount state < memtupsize state
        then Inl (TRAP ''memtupcount < memtupsize'') else Inr state)
      else Inr state)"

definition switch_over :: "'d sort_env \<Rightarrow> 'd Tuplesortstate \<Rightarrow> pg_error + 'd Tuplesortstate" where
  "switch_over env state =
     (if bounded state \<and>
         (int (memtupcount state) > bound state * 2 \<or>
          (int (memtupcount state) > bound state \<and> LACKMEM state))
      then make_bounded_heap env state
      else if memtupcount state < memtupsize state \<and> \<not> LACKMEM state then Inr state
      else bindE (inittapes env state) (\<lambda>state. dumptuples env state False))"

definition puttuple_common ::
  "'d sort_env \<Rightarrow> 'd Tuplesortstate \<Rightarrow> 'd sort_tuple \<Rightarrow> pg_error + 'd Tuplesortstate" where
  "puttuple_common env state stup =
     (case status state of
        TSS_INITIAL \<Rightarrow>
          bindE (ensure_slot env state) (\<lambda>state.
            switch_over env (state\<lparr>memtuples := (memtuples state)[memtupcount state := stup],
              memtupcount := memtupcount state + 1\<rparr>))
      | TSS_BOUNDED \<Rightarrow>
          if COMPARETUP env state stup (memtuples state ! 0) \<le> 0
          then Inr (free_sort_tuple env state stup)
          else tuplesort_heap_insert env
                 (tuplesort_heap_siftup env (free_sort_tuple env state (memtuples state ! 0)) False)
                 stup 0 False
      | TSS_BUILDRUNS \<Rightarrow>
          if \<not> memtupcount state > 0 then Inl (TRAP ''memtupcount > 0'')
          else bindE (if COMPARETUP env state stup (memtuples state ! 0) \<ge> 0
                      then tuplesort_heap_insert env state stup (currentRun state) True
                      else tuplesort_heap_insert env state stup (currentRun state + 1) True) (\<lambda>state.
            dumptuples env state False)
      | _ \<Rightarrow> Inl (ERROR ''invalid tuplesort state''))"

text \<open>
  The callers: a tuple from a slot, a tuple that arrived from the master (copied out of
  shared memory, its leading key computed anew), and the copy a master makes to send.
\<close>

definition tuplesort_puttupleslot ::
  "'d sort_env \<Rightarrow> MinimalTuple \<Rightarrow> 'd Tuplesortstate \<Rightarrow> pg_error + 'd Tuplesortstate" where
  "tuplesort_puttupleslot env slot state =
     (case copytup_heap env state (fresh_slot env) slot of (state, stup) \<Rightarrow> puttuple_common env state stup)"

definition tuplesort_puttupleslot_prl ::
  "'d sort_env \<Rightarrow> 'd sort_tuple \<Rightarrow> 'd Tuplesortstate \<Rightarrow> pg_error + 'd Tuplesortstate" where
  "tuplesort_puttupleslot_prl env slot state =
     (let stup = (fresh_slot env)\<lparr>tuple := tuple slot\<rparr>;
          state = USEMEM (chunk_space env (tuple stup)) state;
          stup = computeDatum1 env state (stup\<lparr>isnull1 := isnull1 slot\<rparr>)
      in puttuple_common env state stup)"

definition tuplesort_prl_puttupleslot ::
  "'d sort_env \<Rightarrow> MinimalTuple \<Rightarrow> 'd Tuplesortstate \<Rightarrow> 'd Tuplesortstate \<times> 'd sort_tuple" where
  "tuplesort_prl_puttupleslot env slot state = copytup_heap env state (fresh_slot env) slot"

section \<open>Finishing a sort\<close>

function unheapify :: "'d sort_env \<Rightarrow> 'd Tuplesortstate \<Rightarrow> 'd Tuplesortstate" where
  "unheapify env state =
     (if memtupcount state > 1 then
        (let stup = memtuples state ! 0;
             state = tuplesort_heap_siftup env state False
         in unheapify env (state\<lparr>memtuples := (memtuples state)[memtupcount state := stup]\<rparr>))
      else state)"
  by pat_completeness auto
termination
  by (relation "measure (\<lambda>(env, state). memtupcount state)") auto

declare unheapify.simps [simp del]

definition sort_bounded_heap :: "'d sort_env \<Rightarrow> 'd Tuplesortstate \<Rightarrow> pg_error + 'd Tuplesortstate" where
  "sort_bounded_heap env state =
     (let tupcount = memtupcount state
      in if \<not> (status state = TSS_BOUNDED \<and> bounded state \<and> int tupcount = bound state)
         then Inl (TRAP ''sort_bounded_heap'')
         else Inr ((REVERSEDIRECTION ((unheapify env state)\<lparr>memtupcount := tupcount\<rparr>))
                     \<lparr>status := TSS_SORTEDINMEM, boundUsed := True\<rparr>))"

definition tuplesort_performsort ::
  "'d sort_env \<Rightarrow> 'd Tuplesortstate \<Rightarrow> (pg_error + 'd Tuplesortstate) option" where
  "tuplesort_performsort env state =
     (case status state of
        TSS_INITIAL \<Rightarrow>
          Some (Inr (state\<lparr>memtuples := (if memtupcount state > 1
              then qsort_arg (COMPARETUP env state) (memtuples state) 0 (memtupcount state)
              else memtuples state),
            current := 0, eof_reached := False, markpos_offset := 0, markpos_eof := False,
            status := TSS_SORTEDINMEM\<rparr>))
      | TSS_BOUNDED \<Rightarrow>
          Some (bindE (sort_bounded_heap env state) (\<lambda>state.
            Inr (state\<lparr>current := 0, eof_reached := False, markpos_offset := 0, markpos_eof := False,
              status := TSS_SORTEDINMEM\<rparr>)))
      | TSS_BUILDRUNS \<Rightarrow>
          (case dumptuples env state True of
             Inl e \<Rightarrow> Some (Inl e)
           | Inr state \<Rightarrow> Option.bind (mergeruns env state) (\<lambda>r. Some (bindE r (\<lambda>state.
               Inr (state\<lparr>eof_reached := False, markpos_block := 0, markpos_offset := 0,
                 markpos_eof := False\<rparr>)))))
      | _ \<Rightarrow> Some (Inl (ERROR ''invalid tuplesort state'')))"

section \<open>Reading the result\<close>

definition tape_backspace ::
  "nat \<Rightarrow> nat \<Rightarrow> 'd Tuplesortstate \<Rightarrow> pg_error + bool \<times> 'd Tuplesortstate" where
  "tape_backspace tapenum nbytes = on_tapes (\<lambda>state lts.
     bindE (LogicalTapeBackspace lts tapenum nbytes) (\<lambda>(ok, lts). Inr (ok, state\<lparr>tapeset := Some lts\<rparr>)))"

text \<open>
  The result: whether a tuple was found and which, whether the caller owns it, and the
  state. The three cases of the status are one definition each.
\<close>

type_synonym 'd fetch = "pg_error + 'd sort_tuple option \<times> bool \<times> 'd Tuplesortstate"

definition gettuple_mem :: "'d sort_env \<Rightarrow> 'd Tuplesortstate \<Rightarrow> bool \<Rightarrow> 'd fetch" where
  "gettuple_mem env state forward =
     (if \<not> (forward \<or> randomAccess state) then Inl (TRAP ''forward || randomAccess'')
      else if forward then
        (if current state < int (memtupcount state)
         then Inr (Some (memtuples state ! nat (current state)), False, state\<lparr>current := current state + 1\<rparr>)
         else let state = state\<lparr>eof_reached := True\<rparr>
           in if bounded state \<and> current state \<ge> bound state \<and> \<not> is_slave env
              then Inl (ERROR ''retrieved too many tuples in a bounded sort'')
              else Inr (None, False, state))
      else if current state \<le> 0 then Inr (None, False, state)
      else if eof_reached state
        then let state = state\<lparr>eof_reached := False\<rparr>
          in Inr (Some (memtuples state ! nat (current state - 1)), False, state)
      else let state = state\<lparr>current := current state - 1\<rparr>
        in if current state \<le> 0 then Inr (None, False, state)
           else Inr (Some (memtuples state ! nat (current state - 1)), False, state))"

definition read_back :: "'d sort_env \<Rightarrow> 'd Tuplesortstate \<Rightarrow> 'd fetch" where
  "read_back env state =
     (let t = nat (result_tape state)
      in bindE (getlen state t False) (\<lambda>(tuplen, state).
         bindE (tape_backspace t tuplen state) (\<lambda>(ok, state).
           if \<not> ok then Inl (ERROR ''bogus tuple length in backward scan'')
           else bindE (readtup_heap env state (fresh_slot env) t tuplen) (\<lambda>(state, stup).
             Inr (Some stup, True, state)))))"

definition gettuple_tape :: "'d sort_env \<Rightarrow> 'd Tuplesortstate \<Rightarrow> bool \<Rightarrow> 'd fetch" where
  "gettuple_tape env state forward =
     (let t = nat (result_tape state)
      in if \<not> (forward \<or> randomAccess state) then Inl (TRAP ''forward || randomAccess'')
         else if forward then
           (if eof_reached state then Inr (None, True, state)
            else bindE (getlen state t True) (\<lambda>(tuplen, state).
              if tuplen \<noteq> 0
              then bindE (readtup_heap env state (fresh_slot env) t tuplen) (\<lambda>(state, stup).
                     Inr (Some stup, True, state))
              else Inr (None, True, state\<lparr>eof_reached := True\<rparr>)))
         else if eof_reached state then
           bindE (tape_backspace t 8 state) (\<lambda>(ok, state).
             if \<not> ok then Inr (None, True, state)
             else read_back env (state\<lparr>eof_reached := False\<rparr>))
         else
           bindE (tape_backspace t 4 state) (\<lambda>(ok, state).
             if \<not> ok then Inr (None, True, state)
             else bindE (getlen state t False) (\<lambda>(tuplen, state).
               bindE (tape_backspace t (tuplen + 8) state) (\<lambda>(ok, state).
                 if \<not> ok then
                   bindE (tape_backspace t (tuplen + 4) state) (\<lambda>(ok, state).
                     if \<not> ok then Inl (ERROR ''bogus tuple length in backward scan'')
                     else Inr (None, True, state))
                 else read_back env state))))"

definition gettuple_merge :: "'d sort_env \<Rightarrow> 'd Tuplesortstate \<Rightarrow> bool \<Rightarrow> 'd fetch" where
  "gettuple_merge env state forward =
     (if \<not> forward then Inl (TRAP ''forward'')
      else if memtupcount state > 0 then
        (let stup = memtuples state ! 0;
             srcTape = nat (tupindex stup);
             space = chunk_space env (tuple stup);
             state = state\<lparr>availMem := availMem state + space,
               mergeavailmem := (mergeavailmem state)[srcTape := mergeavailmem state ! srcTape + space]\<rparr>;
             state = tuplesort_heap_siftup env state False
         in bindE (if mergenext state ! srcTape = 0 then mergeprereadone env srcTape state else Inr state) (\<lambda>state.
            bindE (load_first env srcTape state) (\<lambda>state.
              Inr (Some stup, True, state))))
      else Inr (None, True, state))"

definition tuplesort_gettuple_common :: "'d sort_env \<Rightarrow> 'd Tuplesortstate \<Rightarrow> bool \<Rightarrow> 'd fetch" where
  "tuplesort_gettuple_common env state forward =
     (case status state of
        TSS_SORTEDINMEM \<Rightarrow> gettuple_mem env state forward
      | TSS_SORTEDONTAPE \<Rightarrow> gettuple_tape env state forward
      | TSS_FINALMERGE \<Rightarrow> gettuple_merge env state forward
      | _ \<Rightarrow> Inl (ERROR ''invalid tuplesort state''))"

text \<open>The slot that is filled or cleared, and the copy a worker makes to send back.\<close>

definition tuplesort_gettupleslot ::
  "'d sort_env \<Rightarrow> 'd Tuplesortstate \<Rightarrow> bool \<Rightarrow> pg_error + MinimalTuple option \<times> 'd Tuplesortstate" where
  "tuplesort_gettupleslot env state forward =
     bindE (tuplesort_gettuple_common env state forward) (\<lambda>(stup, _, state).
       Inr (map_option tuple stup, state))"

definition prl_tuplesort_getsorttuple ::
  "'d sort_env \<Rightarrow> 'd Tuplesortstate \<Rightarrow> bool \<Rightarrow> 'd sort_tuple \<Rightarrow>
   pg_error + 'd sort_tuple option \<times> 'd Tuplesortstate" where
  "prl_tuplesort_getsorttuple env state forward pstup =
     bindE (tuplesort_gettuple_common env state forward) (\<lambda>(stup, _, state).
       Inr (map_option (\<lambda>stup. pstup\<lparr>tuple := tuple stup, isnull1 := isnull1 stup\<rparr>) stup, state))"

section \<open>Moving in the result\<close>

definition tuplesort_rescan :: "'d Tuplesortstate \<Rightarrow> pg_error + 'd Tuplesortstate" where
  "tuplesort_rescan state =
     (if \<not> randomAccess state then Inl (TRAP ''randomAccess'')
      else case status state of
        TSS_SORTEDINMEM \<Rightarrow>
          Inr (state\<lparr>current := 0, eof_reached := False, markpos_offset := 0, markpos_eof := False\<rparr>)
      | TSS_SORTEDONTAPE \<Rightarrow>
          bindE (tape_rewind (nat (result_tape state)) False state) (\<lambda>state.
            Inr (state\<lparr>eof_reached := False, markpos_block := 0, markpos_offset := 0, markpos_eof := False\<rparr>))
      | _ \<Rightarrow> Inl (ERROR ''invalid tuplesort state''))"

definition tuplesort_markpos :: "'d Tuplesortstate \<Rightarrow> pg_error + 'd Tuplesortstate" where
  "tuplesort_markpos state =
     (if \<not> randomAccess state then Inl (TRAP ''randomAccess'')
      else case status state of
        TSS_SORTEDINMEM \<Rightarrow>
          Inr (state\<lparr>markpos_offset := current state, markpos_eof := eof_reached state\<rparr>)
      | TSS_SORTEDONTAPE \<Rightarrow>
          on_tapes (\<lambda>state lts. case LogicalTapeTell lts (nat (result_tape state)) of (block, offset) \<Rightarrow>
            Inr (state\<lparr>markpos_block := block, markpos_offset := offset,
              markpos_eof := eof_reached state\<rparr>)) state
      | _ \<Rightarrow> Inl (ERROR ''invalid tuplesort state''))"

definition tuplesort_restorepos :: "'d Tuplesortstate \<Rightarrow> pg_error + 'd Tuplesortstate" where
  "tuplesort_restorepos state =
     (if \<not> randomAccess state then Inl (TRAP ''randomAccess'')
      else case status state of
        TSS_SORTEDINMEM \<Rightarrow>
          Inr (state\<lparr>current := markpos_offset state, eof_reached := markpos_eof state\<rparr>)
      | TSS_SORTEDONTAPE \<Rightarrow>
          on_tapes (\<lambda>state lts.
            bindE (LogicalTapeSeek lts (nat (result_tape state)) (markpos_block state) (markpos_offset state))
              (\<lambda>(ok, lts). if \<not> ok then Inl (ERROR ''tuplesort_restorepos failed'')
                else Inr (state\<lparr>tapeset := Some lts, eof_reached := markpos_eof state\<rparr>))) state
      | _ \<Rightarrow> Inl (ERROR ''invalid tuplesort state''))"

definition sort_method :: "'d Tuplesortstate \<Rightarrow> string" where
  "sort_method state =
     (case status state of
        TSS_SORTEDINMEM \<Rightarrow> (if boundUsed state then ''top-N heapsort'' else ''quicksort'')
      | TSS_SORTEDONTAPE \<Rightarrow> ''external sort''
      | TSS_FINALMERGE \<Rightarrow> ''external merge''
      | _ \<Rightarrow> ''still in progress'')"

end
