(* ===== verification/BoundedHeap.thy ===== *)
theory BoundedHeap
  imports Tuplesort
begin

text \<open>
  The bounded heap of a sort with a limit: the heap that keeps the smallest tuples while
  tuples come in (\<^verbatim>\<open>make_bounded_heap\<close> and the state \<^verbatim>\<open>TSS_BOUNDED\<close> of
  \<^verbatim>\<open>puttuple_common\<close>), and its conversion to a sorted array
  (\<^verbatim>\<open>sort_bounded_heap\<close>). Also here: the order of tuples by their keys, the smallest
  elements of a multiset, and what the operations on the tuples in memory leave alone.
\<close>

section \<open>The smallest elements of a multiset\<close>

definition smallest :: "('a \<Rightarrow> 'a \<Rightarrow> int) \<Rightarrow> 'a multiset \<Rightarrow> 'a multiset \<Rightarrow> bool" where
  "smallest cmp A T \<longleftrightarrow> (\<exists>R. T = A + R \<and> (\<forall>a\<in>#A. \<forall>r\<in>#R. cmp a r \<le> 0))"

lemma smallest_all: "smallest cmp T T"
  by (auto simp: smallest_def intro: exI [of _ "{#}"])

lemma smallest_subset: "smallest cmp A T \<Longrightarrow> A \<subseteq># T"
  by (auto simp: smallest_def)

lemma smallest_full: "smallest cmp A T \<Longrightarrow> size A = size T \<Longrightarrow> A = T"
  by (auto simp: smallest_def)

lemma smallest_skip:
  assumes "smallest cmp A T" "\<And>a. a \<in># A \<Longrightarrow> cmp a x \<le> 0"
  shows "smallest cmp A (add_mset x T)"
proof -
  obtain R where "T = A + R" "\<forall>a\<in>#A. \<forall>r\<in>#R. cmp a r \<le> 0" using assms(1) by (auto simp: smallest_def)
  with assms(2) show ?thesis unfolding smallest_def by (intro exI [of _ "add_mset x R"]) auto
qed

context sort_comparator
begin

text \<open>Taking \<open>x\<close> in and dropping a greatest element \<open>M\<close>.\<close>

lemma smallest_exchange:
  assumes s: "smallest cmp A T" and x: "A = T \<or> (\<exists>m\<in>#A. cmp x m \<le> 0)"
    and B: "add_mset M B = add_mset x A" and M: "\<And>b. b \<in># B \<Longrightarrow> cmp b M \<le> 0"
  shows "smallest cmp B (add_mset x T)"
proof -
  obtain R where R: "T = A + R" "\<And>a r. a \<in># A \<Longrightarrow> r \<in># R \<Longrightarrow> cmp a r \<le> 0"
    using s by (auto simp: smallest_def)
  have xR: "cmp x r \<le> 0" if "r \<in># R" for r
  proof (cases "A = T")
    case True
    with R that show ?thesis by simp
  next
    case False
    with x obtain m where "m \<in># A" "cmp x m \<le> 0" by blast
    with R(2) [OF _ that] cmp_trans show ?thesis by blast
  qed
  have "cmp b r \<le> 0" if "b \<in># B" "r \<in># add_mset M R" for b r
  proof -
    have "b = x \<or> b \<in># A"
      using that(1) B by (metis insert_iff set_mset_add_mset_insert union_single_eq_member insert_noteq_member)
    with that M R(2) xR show ?thesis by auto
  qed
  moreover have "add_mset x T = B + add_mset M R"
    using B R(1) by simp
  ultimately show ?thesis unfolding smallest_def by blast
qed

end

section \<open>Tuples and their keys\<close>

abbreviation key_order :: "'d sort_env \<Rightarrow> 'd ScanKey list \<Rightarrow> MinimalTuple \<Rightarrow> MinimalTuple \<Rightarrow> int" where
  "key_order env ks \<equiv> keyscmp (heap_getattr_in env) ks"

lemma tuplecmp_key_order:
  assumes "good_keys ks" "ks \<noteq> []" "datum1_ok env ks a" "datum1_ok env ks b"
  shows "tuplecmp (heap_getattr_in env) ks a b = key_order env ks (tuple a) (tuple b)"
proof -
  obtain k ks' where "ks = k # ks'" using assms(2) by (cases ks) auto
  with assms show ?thesis by (auto simp: tuplecmp_lex datum1_ok_def lex_cmp_def)
qed

lemma datum1_ok_tupindex [simp]: "datum1_ok env ks (x\<lparr>tupindex := i\<rparr>) = datum1_ok env ks x"
  by (simp add: datum1_ok_def)

lemma datum1_ok_reversed [simp]:
  "ks \<noteq> [] \<Longrightarrow> datum1_ok env (reversedirection_heap ks) x = datum1_ok env ks x"
  by (cases ks) (auto simp: datum1_ok_def)

section \<open>Changes to the tuples in memory\<close>

text \<open>What storing, inserting, deleting and freeing tuples may change of the state.\<close>

definition mem_frame :: "'d Tuplesortstate \<Rightarrow> 'd Tuplesortstate \<Rightarrow> bool" where
  "mem_frame s s' \<longleftrightarrow>
     s' = s\<lparr>memtuples := memtuples s', memtupcount := memtupcount s', availMem := availMem s'\<rparr>"

lemma mem_frameE:
  assumes "mem_frame s s'"
  obtains xs n m where "s' = s\<lparr>memtuples := xs, memtupcount := n, availMem := m\<rparr>"
  using assms unfolding mem_frame_def by blast

lemma mem_frame_trans [trans]: "mem_frame s s' \<Longrightarrow> mem_frame s' s'' \<Longrightarrow> mem_frame s s''"
  by (elim mem_frameE) (simp add: mem_frame_def)

lemma mem_frame_intros [intro]:
  "mem_frame s s"
  "mem_frame s s' \<Longrightarrow> mem_frame s (s'\<lparr>availMem := m\<rparr>)"
  "mem_frame s s' \<Longrightarrow> mem_frame s (s'\<lparr>memtuples := xs\<rparr>)"
  "mem_frame s s' \<Longrightarrow> mem_frame s (s'\<lparr>memtupcount := n\<rparr>)"
  "mem_frame s s' \<Longrightarrow> mem_frame s (free_sort_tuple env s' x)"
  "mem_frame s s' \<Longrightarrow> mem_frame s (tuplesort_heap_siftup env s' c)"
  by ((erule mem_frameE)?, simp add: mem_frame_def free_sort_tuple_def tuplesort_heap_siftup_def Let_def)+

lemma mem_frame_insert:
  "mem_frame s s' \<Longrightarrow> tuplesort_heap_insert env s' x i c = Inr s'' \<Longrightarrow> mem_frame s s''"
  by (elim mem_frameE) (auto simp: mem_frame_def tuplesort_heap_insert_def Let_def split: if_splits)

lemma mem_frame_fields:
  assumes "mem_frame s s'"
  shows "status s' = status s" "scanKeys s' = scanKeys s" "memtupsize s' = memtupsize s"
    "bounded s' = bounded s" "bound s' = bound s" "randomAccess s' = randomAccess s"
    "boundUsed s' = boundUsed s" "tapeset s' = tapeset s"
  using assms by (auto elim: mem_frameE)

section \<open>The bounded heap\<close>

lemma heap_irrelevant [simp]:
  "array_ok (s\<lparr>availMem := m\<rparr>) = array_ok s"
  "heap_state env c (s\<lparr>availMem := m\<rparr>) = heap_state env c s"
  "heap_elems (s\<lparr>availMem := m\<rparr>) = heap_elems s"
  "COMPARETUP env (s\<lparr>availMem := m\<rparr>) = COMPARETUP env s"
  "array_ok (s\<lparr>status := st\<rparr>) = array_ok s"
  "heap_state env c (s\<lparr>status := st\<rparr>) = heap_state env c s"
  "heap_elems (s\<lparr>status := st\<rparr>) = heap_elems s"
  "COMPARETUP env (s\<lparr>status := st\<rparr>) = COMPARETUP env s"
  by (simp_all add: array_ok_def heap_state_def heap_elems_def COMPARETUP_def)

lemma root_in_heap: "array_ok s \<Longrightarrow> 0 < memtupcount s \<Longrightarrow> memtuples s ! 0 \<in># heap_elems s"
  by (auto simp: heap_elems_def array_ok_def in_set_conv_nth)

text \<open>
  The heap is ordered with the sort direction reversed, so its root is a greatest
  element; it holds the smallest tuples of all that came in, up to the bound.
\<close>

definition bounded_inv ::
  "'d sort_env \<Rightarrow> 'd ScanKey list \<Rightarrow> MinimalTuple multiset \<Rightarrow> 'd Tuplesortstate \<Rightarrow> bool" where
  "bounded_inv env ks T s \<longleftrightarrow> heap_state env False s \<and> scanKeys s = reversedirection_heap ks \<and>
     (\<forall>x\<in>#heap_elems s. datum1_ok env ks x) \<and> 0 < bound s \<and>
     int (memtupcount s) = min (bound s) (int (size T)) \<and>
     smallest (key_order env ks) (image_mset tuple (heap_elems s)) T"

lemma bounded_inv_availMem [simp]:
  "bounded_inv env ks T (s\<lparr>availMem := m\<rparr>) = bounded_inv env ks T s"
  "bounded_inv env ks T (s\<lparr>status := st\<rparr>) = bounded_inv env ks T s"
  by (simp_all add: bounded_inv_def)

lemma bounded_inv_facts:
  assumes "bounded_inv env ks T s"
  shows "array_ok s" "ks \<noteq> []" "good_keys ks" "sort_comparator (key_order env ks)"
    "size (heap_elems s) = memtupcount s"
  using assms by (auto simp: bounded_inv_def heap_state_def array_ok_def keyscmp_comparator
      heap_elems_size)

text \<open>With the direction reversed, the root is a greatest element.\<close>

lemma reversed_compare:
  assumes "array_ok s" "scanKeys s = reversedirection_heap ks" "datum1_ok env ks a" "datum1_ok env ks b"
  shows "COMPARETUP env s a b = - key_order env ks (tuple a) (tuple b)"
proof -
  have "ks \<noteq> []" "good_keys ks" using assms(1,2) by (simp_all add: array_ok_def)
  with assms(3,4) show ?thesis
    by (simp add: COMPARETUP_def assms(2) tuplecmp_reversed tuplecmp_key_order)
qed

lemma reversed_root_greatest:
  assumes h: "heap_state env False s" and keys: "scanKeys s = reversedirection_heap ks"
    and ok: "\<And>x. x \<in># heap_elems s \<Longrightarrow> datum1_ok env ks x" and x: "x \<in># heap_elems s"
  shows "key_order env ks (tuple x) (tuple (memtuples s ! 0)) \<le> 0"
proof -
  have a: "array_ok s" and good: "good_keys ks" using h keys by (auto simp: heap_state_def array_ok_def)
  have "0 < memtupcount s" using x by (cases "memtupcount s") (auto simp: heap_elems_def)
  then have root: "memtuples s ! 0 \<in># heap_elems s" by (rule root_in_heap [OF a])
  have "key_order env ks (tuple (memtuples s ! 0)) (tuple x) \<ge> 0"
    using heap_state_root_least [OF h x] reversed_compare [OF a keys ok [OF root] ok [OF x]] by simp
  then show ?thesis
    using sort_comparator.cmp_le_flip [OF keyscmp_comparator [OF good, of "heap_getattr_in env"]] by blast
qed

lemma bounded_compare:
  assumes "bounded_inv env ks T s" "datum1_ok env ks a" "datum1_ok env ks b"
  shows "COMPARETUP env s a b = - key_order env ks (tuple a) (tuple b)"
  using assms bounded_inv_facts [OF assms(1)] by (intro reversed_compare) (auto simp: bounded_inv_def)

lemma bounded_root_greatest:
  assumes "bounded_inv env ks T s" and "x \<in># heap_elems s"
  shows "key_order env ks (tuple x) (tuple (memtuples s ! 0)) \<le> 0"
  using assms by (intro reversed_root_greatest) (auto simp: bounded_inv_def)

text \<open>A tuple not smaller than the root of a full heap is left out.\<close>

lemma bounded_inv_skip:
  assumes inv: "bounded_inv env ks T s" and full: "bound s \<le> int (memtupcount s)"
    and x: "datum1_ok env ks x" "COMPARETUP env s x (memtuples s ! 0) \<le> 0"
  shows "bounded_inv env ks (add_mset (tuple x) T) s"
proof -
  note f = bounded_inv_facts [OF inv]
  have "0 < memtupcount s" using full inv by (auto simp: bounded_inv_def)
  then have root: "memtuples s ! 0 \<in># heap_elems s" by (rule root_in_heap [OF f(1)])
  have "key_order env ks (tuple x) (tuple (memtuples s ! 0)) \<ge> 0"
    using bounded_compare [OF inv x(1)] x(2) root inv by (simp add: bounded_inv_def)
  then have "key_order env ks (tuple (memtuples s ! 0)) (tuple x) \<le> 0"
    using sort_comparator.cmp_le_flip [OF f(4)] by blast
  then have "key_order env ks a (tuple x) \<le> 0" if "a \<in># image_mset tuple (heap_elems s)" for a
    using that bounded_root_greatest [OF inv] sort_comparator.cmp_trans [OF f(4)]
    by (auto simp del: keyscmp.simps)
  then have "smallest (key_order env ks) (image_mset tuple (heap_elems s)) (add_mset (tuple x) T)"
    using inv by (intro smallest_skip) (auto simp: bounded_inv_def)
  with inv full show ?thesis by (auto simp: bounded_inv_def)
qed

text \<open>Below the bound a tuple just goes in.\<close>

lemma bounded_inv_insert:
  assumes inv: "bounded_inv env ks T s" and "int (memtupcount s) < bound s"
    and room: "memtupcount s < memtupsize s" and x: "datum1_ok env ks x"
  shows "\<exists>s'. tuplesort_heap_insert env s x i False = Inr s' \<and> bounded_inv env ks (add_mset (tuple x) T) s' \<and>
    mem_frame s s' \<and> memtupcount s' = memtupcount s + 1 \<and>
    drop (memtupcount s + 1) (memtuples s') = drop (memtupcount s + 1) (memtuples s)"
proof -
  have h: "heap_state env False s" using inv by (simp add: bounded_inv_def)
  obtain s' where s': "tuplesort_heap_insert env s x i False = Inr s'" "heap_state env False s'"
    "heap_elems s' = add_mset (x\<lparr>tupindex := i\<rparr>) (heap_elems s)"
    "s' = s\<lparr>memtuples := memtuples s', memtupcount := memtupcount s + 1\<rparr>"
    "drop (memtupcount s + 1) (memtuples s') = drop (memtupcount s + 1) (memtuples s)"
    using heap_insert_state [OF h room] by blast
  have fields: "scanKeys s' = scanKeys s" "bound s' = bound s" "memtupcount s' = memtupcount s + 1"
    by (subst s'(4), simp)+
  have "smallest (key_order env ks) (image_mset tuple (heap_elems s)) T"
    "size (image_mset tuple (heap_elems s)) = size T"
    using inv assms(2) bounded_inv_facts(5) [OF inv] by (auto simp: bounded_inv_def)
  then have "image_mset tuple (heap_elems s) = T" by (rule smallest_full)
  then have "bounded_inv env ks (add_mset (tuple x) T) s'"
    using inv s'(2,3) fields assms(2) x by (auto simp: bounded_inv_def smallest_all)
  with s' fields mem_frame_insert [OF mem_frame_intros(1) s'(1)] show ?thesis by blast
qed

text \<open>At the bound a smaller tuple takes the place of the root: inserted first, or afterwards.\<close>

lemma bounded_smaller:
  assumes inv: "bounded_inv env ks T s" and full: "bound s \<le> int (memtupcount s)"
    and x: "datum1_ok env ks x" "\<not> COMPARETUP env s x (memtuples s ! 0) \<le> 0"
  shows "0 < memtupcount s" "memtuples s ! 0 \<in># heap_elems s"
    "key_order env ks (tuple x) (tuple (memtuples s ! 0)) \<le> 0"
proof -
  show c: "0 < memtupcount s" using full inv by (auto simp: bounded_inv_def)
  show r: "memtuples s ! 0 \<in># heap_elems s" by (rule root_in_heap [OF bounded_inv_facts(1) [OF inv] c])
  show "key_order env ks (tuple x) (tuple (memtuples s ! 0)) \<le> 0"
    using bounded_compare [OF inv x(1)] x(2) r inv by (simp add: bounded_inv_def)
qed

lemma bounded_inv_exchange:
  assumes inv: "bounded_inv env ks T s" and full: "bound s \<le> int (memtupcount s)"
    and x: "datum1_ok env ks x" "\<not> COMPARETUP env s x (memtuples s ! 0) \<le> 0"
    and h: "heap_state env False s'" and keys: "scanKeys s' = scanKeys s" "bound s' = bound s"
      "memtupcount s' = memtupcount s"
    and elems: "add_mset M (heap_elems s') = add_mset (x\<lparr>tupindex := i\<rparr>) (heap_elems s)"
    and M: "\<And>y. y \<in># heap_elems s' \<Longrightarrow> key_order env ks (tuple y) (tuple M) \<le> 0"
  shows "bounded_inv env ks (add_mset (tuple x) T) s'"
proof -
  note f = bounded_inv_facts [OF inv] and sm = bounded_smaller [OF inv full x]
  have "smallest (key_order env ks) (image_mset tuple (heap_elems s')) (add_mset (tuple x) T)"
  proof (rule sort_comparator.smallest_exchange [OF f(4)])
    show "smallest (key_order env ks) (image_mset tuple (heap_elems s)) T"
      using inv by (simp add: bounded_inv_def)
    show "image_mset tuple (heap_elems s) = T \<or> (\<exists>m\<in>#image_mset tuple (heap_elems s). key_order env ks (tuple x) m \<le> 0)"
      using sm by auto
    show "add_mset (tuple M) (image_mset tuple (heap_elems s')) = add_mset (tuple x) (image_mset tuple (heap_elems s))"
      using arg_cong [OF elems, of "image_mset tuple"] by simp
  qed (use M in auto)
  moreover have "datum1_ok env ks y" if "y \<in># heap_elems s'" for y
  proof -
    have "y \<in># add_mset (x\<lparr>tupindex := i\<rparr>) (heap_elems s)" using that elems by (metis union_single_eq_member insertCI set_mset_add_mset_insert)
    with inv x(1) show ?thesis by (auto simp: bounded_inv_def)
  qed
  ultimately show ?thesis
    using inv h keys full by (auto simp: bounded_inv_def)
qed

lemma bounded_step_over:
  assumes inv: "bounded_inv env ks T s" and full: "bound s \<le> int (memtupcount s)"
    and room: "memtupcount s < memtupsize s"
    and x: "datum1_ok env ks x" "\<not> COMPARETUP env s x (memtuples s ! 0) \<le> 0"
    and ins: "tuplesort_heap_insert env s x i False = Inr s1"
  defines "s' \<equiv> tuplesort_heap_siftup env (free_sort_tuple env s1 (memtuples s1 ! 0)) False"
  shows "bounded_inv env ks (add_mset (tuple x) T) s'"
    "mem_frame s s'"
    "drop (memtupcount s + 1) (memtuples s') = drop (memtupcount s + 1) (memtuples s)"
proof -
  have h: "heap_state env False s" using inv by (simp add: bounded_inv_def)
  have s1: "heap_state env False s1" "heap_elems s1 = add_mset (x\<lparr>tupindex := i\<rparr>) (heap_elems s)"
    "s1 = s\<lparr>memtuples := memtuples s1, memtupcount := memtupcount s + 1\<rparr>"
    "drop (memtupcount s + 1) (memtuples s1) = drop (memtupcount s + 1) (memtuples s)"
    using heap_insert_state [OF h room, of x i] ins by auto
  have fields: "scanKeys s1 = scanKeys s" "bound s1 = bound s" "memtupcount s1 = memtupcount s + 1"
    by (subst s1(3), simp)+
  define f1 where "f1 = free_sort_tuple env s1 (memtuples s1 ! 0)"
  have f1: "heap_state env False f1" "0 < memtupcount f1" "memtuples f1 = memtuples s1"
    "heap_elems f1 = heap_elems s1" "memtupcount f1 = memtupcount s + 1" "scanKeys f1 = scanKeys s1" "bound f1 = bound s1"
    using s1(1) fields by (simp_all add: f1_def free_sort_tuple_def)
  note sift = heap_siftup_state [OF f1(1,2), folded s'_def [folded f1_def]]
  have ok: "datum1_ok env ks y" if "y \<in># heap_elems s1" for y
    using that s1(2) inv x(1) by (auto simp: bounded_inv_def)
  show "bounded_inv env ks (add_mset (tuple x) T) s'"
  proof (rule bounded_inv_exchange [OF inv full x, where i = i and M = "memtuples s1 ! 0"])
    show "heap_state env False s'" by (rule sift(1))
    show "scanKeys s' = scanKeys s" "bound s' = bound s" "memtupcount s' = memtupcount s"
      using fields f1 by (simp_all add: s'_def f1_def [symmetric])
    show el: "add_mset (memtuples s1 ! 0) (heap_elems s') = add_mset (x\<lparr>tupindex := i\<rparr>) (heap_elems s)"
      using sift(2) f1 s1(2) by simp
    show "key_order env ks (tuple y) (tuple (memtuples s1 ! 0)) \<le> 0" if "y \<in># heap_elems s'" for y
    proof (rule reversed_root_greatest [OF s1(1)])
      show "scanKeys s1 = reversedirection_heap ks" using inv fields by (simp add: bounded_inv_def)
      show "y \<in># heap_elems s1" using that sift(2) f1 by (metis insertCI set_mset_add_mset_insert)
    qed (rule ok)
  qed
  show "mem_frame s s'"
    unfolding s'_def by (intro mem_frame_intros mem_frame_insert [OF _ ins])
  show "drop (memtupcount s + 1) (memtuples s') = drop (memtupcount s + 1) (memtuples s)"
    using arg_cong [OF sift(4), of "drop 1"] f1 s1(4) by simp
qed

text \<open>One tuple on its way into the bounded heap, and the loop over the array.\<close>

lemma bounded_heap_step_inv:
  assumes inv: "bounded_inv env ks T s" and i: "memtupcount s \<le> i" "i < memtupsize s"
    and x: "datum1_ok env ks (memtuples s ! i)"
  shows "\<exists>s'. bounded_heap_step env i s = Inr s' \<and> bounded_inv env ks (add_mset (tuple (memtuples s ! i)) T) s' \<and>
    mem_frame s s' \<and> drop (Suc i) (memtuples s') = drop (Suc i) (memtuples s)"
proof -
  let ?x = "memtuples s ! i"
  have room: "memtupcount s < memtupsize s" using i by simp
  have h: "heap_state env False s" using inv by (simp add: bounded_inv_def)
  have later: "drop (Suc i) ys = drop (Suc i) zs" if "drop (memtupcount s + 1) ys = drop (memtupcount s + 1) zs"
    for ys zs :: "'a sort_tuple list"
    using arg_cong [OF that, of "drop (i - memtupcount s)"] i by simp
  obtain s1 where s1: "tuplesort_heap_insert env s ?x 0 False = Inr s1"
    using heap_insert_state [OF h room] by blast
  have c1: "memtupcount s1 = memtupcount s + 1" "bound s1 = bound s"
    using s1 by (auto simp: tuplesort_heap_insert_def Let_def split: if_splits)
  consider "bound s \<le> int (memtupcount s)" "COMPARETUP env s ?x (memtuples s ! 0) \<le> 0"
    | "bound s \<le> int (memtupcount s)" "\<not> COMPARETUP env s ?x (memtuples s ! 0) \<le> 0"
    | "int (memtupcount s) < bound s" by linarith
  then show ?thesis
  proof cases
    case 1
    then show ?thesis
      using bounded_inv_skip [OF inv 1(1) x 1(2)] by (auto simp: bounded_heap_step_def free_sort_tuple_def)
  next
    case 2
    note o = bounded_step_over [OF inv 2(1) room x 2(2) s1]
    from 2 s1 c1 have "bounded_heap_step env i s =
        Inr (tuplesort_heap_siftup env (free_sort_tuple env s1 (memtuples s1 ! 0)) False)"
      by (simp add: bounded_heap_step_def)
    with o later show ?thesis by blast
  next
    case 3
    then have "bounded_heap_step env i s = Inr s1" using s1 c1 by (simp add: bounded_heap_step_def)
    moreover have "bounded_inv env ks (add_mset (tuple ?x) T) s1" "mem_frame s s1"
      "drop (memtupcount s + 1) (memtuples s1) = drop (memtupcount s + 1) (memtuples s)"
      using bounded_inv_insert [OF inv 3 room x, of 0] s1 by auto
    ultimately show ?thesis using later by blast
  qed
qed

lemma make_bounded_heap_inv:
  assumes s: "status s = TSS_INITIAL" "bounded s" "0 < bound s" "bound s \<le> int (memtupcount s)" "array_ok s"
    and ok: "\<And>x. x \<in># heap_elems s \<Longrightarrow> datum1_ok env (scanKeys s) x"
  shows "\<exists>s'. make_bounded_heap env s = Inr s' \<and> status s' = TSS_BOUNDED \<and> bounded s' \<and> bound s' = bound s \<and>
    randomAccess s' = randomAccess s \<and>
    int (memtupcount s') = bound s' \<and> bounded_inv env (scanKeys s) (image_mset tuple (heap_elems s)) s'"
proof -
  let ?n = "memtupcount s" and ?xs = "memtuples s" and ?ks = "scanKeys s"
  define s0 where "s0 = (REVERSEDIRECTION s)\<lparr>memtupcount := 0\<rparr>"
  define I where "I = (\<lambda>i s'. bounded_inv env ?ks (image_mset tuple (mset (take i ?xs))) s' \<and> mem_frame s0 s' \<and>
    drop i (memtuples s') = drop i ?xs)"
  have len: "length ?xs = memtupsize s" "?n \<le> memtupsize s" using s(5) by (auto simp: array_ok_def)
  have f0: "scanKeys s0 = reversedirection_heap ?ks" "memtupcount s0 = 0" "bound s0 = bound s"
    "memtuples s0 = ?xs" "memtupsize s0 = memtupsize s"
    by (simp_all add: s0_def REVERSEDIRECTION_def)
  have a0: "array_ok s0" using s(5) by (simp add: array_ok_def f0)
  have "heap_elems s0 = {#}" by (simp add: heap_elems_def f0)
  then have "I 0 s0"
    using s(3) heap_state_empty [OF a0 f0(2)] by (simp add: I_def bounded_inv_def f0 smallest_all mem_frame_intros)
  moreover have "\<exists>s''. bounded_heap_step env ([0..<?n] ! i) s' = Inr s'' \<and> I (Suc i) s''"
    if I: "I i s'" and i: "i < length [0..<?n]" for i s'
  proof -
    have inv: "bounded_inv env ?ks (image_mset tuple (mset (take i ?xs))) s'" and fr: "mem_frame s0 s'"
      and dr: "drop i (memtuples s') = drop i ?xs" using I by (auto simp: I_def)
    have xi: "memtuples s' ! i = ?xs ! i"
      using drop_eq_nth [OF dr [symmetric], of i] i len by simp
    have "?xs ! i \<in># heap_elems s" using i len by (auto simp: heap_elems_def in_set_conv_nth)
    then have "datum1_ok env ?ks (memtuples s' ! i)" using ok xi by simp
    moreover have "memtupcount s' \<le> i" "i < memtupsize s'"
      using inv i len mem_frame_fields(3) [OF fr] f0(5) by (auto simp: bounded_inv_def)
    ultimately obtain s'' where "bounded_heap_step env i s' = Inr s''"
      "bounded_inv env ?ks (add_mset (tuple (?xs ! i)) (image_mset tuple (mset (take i ?xs)))) s''"
      "mem_frame s' s''" "drop (Suc i) (memtuples s'') = drop (Suc i) (memtuples s')"
      using bounded_heap_step_inv [OF inv] xi by metis
    moreover have "drop (Suc i) (memtuples s') = drop (Suc i) ?xs"
      using arg_cong [OF dr, of "drop 1"] by simp
    ultimately show ?thesis
      using fr i len mem_frame_trans by (auto simp: I_def take_Suc_conv_app_nth)
  qed
  ultimately obtain s' where s': "foldE (bounded_heap_step env) [0..<?n] s0 = Inr s'" "I ?n s'"
    using foldE_invariant [of I s0 "[0..<?n]" "bounded_heap_step env"] by auto
  then have inv: "bounded_inv env ?ks (image_mset tuple (heap_elems s)) s'" and fr: "mem_frame s0 s'"
    by (auto simp: I_def heap_elems_def)
  have b: "bound s' = bound s" "bounded s'" "randomAccess s' = randomAccess s" using mem_frame_fields [OF fr] s by (auto simp: s0_def REVERSEDIRECTION_def)
  have c: "int (memtupcount s') = bound s'"
    using inv b s len by (auto simp: bounded_inv_def heap_elems_def)
  have "make_bounded_heap env s = Inr (s'\<lparr>status := TSS_BOUNDED\<rparr>)"
    using s s' c by (simp add: make_bounded_heap_def s0_def)
  with inv b c show ?thesis by simp
qed

lemma put_bounded:
  assumes st: "status s = TSS_BOUNDED" and inv: "bounded_inv env ks T s" and full: "int (memtupcount s) = bound s"
    and x: "datum1_ok env ks x"
  shows "\<exists>s'. puttuple_common env s x = Inr s' \<and> bounded_inv env ks (add_mset (tuple x) T) s' \<and>
    mem_frame s s' \<and> memtupcount s' = memtupcount s"
proof (cases "COMPARETUP env s x (memtuples s ! 0) \<le> 0")
  case True
  with st inv full x show ?thesis
    using bounded_inv_skip [OF inv _ x True] by (auto simp: puttuple_common_def free_sort_tuple_def)
next
  case False
  let ?s1 = "free_sort_tuple env s (memtuples s ! 0)" let ?s2 = "tuplesort_heap_siftup env ?s1 False"
  note sm = bounded_smaller [OF inv _ x False]
  have h1: "heap_state env False ?s1" "0 < memtupcount ?s1" "heap_elems ?s1 = heap_elems s"
    "memtuples ?s1 = memtuples s" "memtupcount ?s1 = memtupcount s"
    using inv sm full by (auto simp: free_sort_tuple_def bounded_inv_def)
  note sift = heap_siftup_state [OF h1(1,2)]
  have room: "memtupcount ?s2 < memtupsize ?s2"
    using h1 by (auto simp: heap_state_def array_ok_def free_sort_tuple_def)
  obtain s' where s': "tuplesort_heap_insert env ?s2 x 0 False = Inr s'" "heap_state env False s'"
    "heap_elems s' = add_mset (x\<lparr>tupindex := 0\<rparr>) (heap_elems ?s2)"
    using heap_insert_state [OF sift(1) room] by blast
  have fr: "mem_frame s s'" by (intro mem_frame_insert [OF _ s'(1)] mem_frame_intros)
  have c: "memtupcount s' = memtupcount s"
    using s'(1) h1 by (auto simp: tuplesort_heap_insert_def Let_def split: if_splits)
  have "bounded_inv env ks (add_mset (tuple x) T) s'"
  proof (rule bounded_inv_exchange [OF inv _ x False, where i = 0 and M = "memtuples s ! 0"])
    show "add_mset (memtuples s ! 0) (heap_elems s') = add_mset (x\<lparr>tupindex := 0\<rparr>) (heap_elems s)"
      using s'(3) sift(2) h1 by simp
    show "key_order env ks (tuple y) (tuple (memtuples s ! 0)) \<le> 0" if "y \<in># heap_elems s'" for y
    proof (cases "y = x\<lparr>tupindex := 0\<rparr>")
      case True
      with sm(3) full show ?thesis by simp
    next
      case False
      with that s'(3) have "y \<in># heap_elems ?s2" by simp
      with sift(2) h1 have "y \<in># heap_elems s" by (metis insertCI set_mset_add_mset_insert)
      then show ?thesis by (rule bounded_root_greatest [OF inv])
    qed
  qed (use full c s'(2) mem_frame_fields [OF fr] in auto)
  with st False s'(1) fr c show ?thesis by (auto simp: puttuple_common_def)
qed

section \<open>From the heap to a sorted array\<close>

text \<open>
  \<open>N\<close> tuples: those in the heap, none greater than the ones behind it, which are in
  order already.
\<close>

definition unheap_inv :: "'d sort_env \<Rightarrow> 'd ScanKey list \<Rightarrow> nat \<Rightarrow> 'd Tuplesortstate \<Rightarrow> bool" where
  "unheap_inv env ks N s \<longleftrightarrow> heap_state env False s \<and> scanKeys s = reversedirection_heap ks \<and>
     memtupcount s \<le> N \<and> N \<le> memtupsize s \<and>
     (\<forall>x\<in>#heap_elems s. datum1_ok env ks x) \<and>
     (\<forall>x\<in>#heap_elems s. \<forall>j. memtupcount s \<le> j \<and> j < N \<longrightarrow>
        key_order env ks (tuple x) (tuple (memtuples s ! j)) \<le> 0) \<and>
     (\<forall>i j. memtupcount s \<le> i \<and> i < j \<and> j < N \<longrightarrow>
        key_order env ks (tuple (memtuples s ! i)) (tuple (memtuples s ! j)) \<le> 0)"

lemma unheap_step:
  assumes inv: "unheap_inv env ks N s" and n: "memtupcount s = Suc n"
  defines "s1 \<equiv> tuplesort_heap_siftup env s False"
  defines "s' \<equiv> s1\<lparr>memtuples := (memtuples s1)[n := memtuples s ! 0]\<rparr>"
  shows "unheap_inv env ks N s'" "mset (take N (memtuples s')) = mset (take N (memtuples s))" "mem_frame s s'"
proof -
  have h: "heap_state env False s" and keys: "scanKeys s = reversedirection_heap ks"
    and N: "Suc n \<le> N" "N \<le> memtupsize s" and ok: "\<And>x. x \<in># heap_elems s \<Longrightarrow> datum1_ok env ks x"
    and le: "\<And>x j. x \<in># heap_elems s \<Longrightarrow> Suc n \<le> j \<Longrightarrow> j < N \<Longrightarrow>
      key_order env ks (tuple x) (tuple (memtuples s ! j)) \<le> 0"
    and srt: "\<And>i j. Suc n \<le> i \<Longrightarrow> i < j \<Longrightarrow> j < N \<Longrightarrow>
      key_order env ks (tuple (memtuples s ! i)) (tuple (memtuples s ! j)) \<le> 0"
    using inv n by (auto simp: unheap_inv_def)
  have len: "length (memtuples s) = memtupsize s" using h by (simp add: heap_state_def array_ok_def)
  note sift = heap_siftup_state [OF h, folded s1_def, unfolded n, simplified]
  have s1: "memtupcount s1 = n" "scanKeys s1 = scanKeys s" "memtupsize s1 = memtupsize s"
    "length (memtuples s1) = memtupsize s"
    using sift(1) n by (auto simp: s1_def heap_state_def array_ok_def)
  have root: "memtuples s ! 0 \<in># heap_elems s" using sift(2) by (metis union_single_eq_member)
  have sub: "x \<in># heap_elems s" if "x \<in># heap_elems s1" for x
    using that sift(2) by (metis insertCI set_mset_add_mset_insert)
  have el: "heap_elems s' = heap_elems s1" by (simp add: s'_def heap_elems_def s1)
  have at: "memtuples s' ! j = (if j = n then memtuples s ! 0 else memtuples s ! j)" if "n \<le> j" "j < N" for j
    using that N s1 drop_eq_nth [OF sift(4), of j] by (auto simp: s'_def)
  have hs: "heap_state env False s'"
    using sift(1) by (auto simp: s'_def heap_state_def array_ok_def heap_ok_def COMPARETUP_def s1
        nth_list_update parent_def)
  have s': "memtupcount s' = n" "scanKeys s' = scanKeys s" "memtupsize s' = memtupsize s"
    by (simp_all add: s'_def s1)
  have "key_order env ks (tuple x) (tuple (memtuples s' ! j)) \<le> 0"
    if "x \<in># heap_elems s1" "n \<le> j" "j < N" for x j
    using that at [of j] reversed_root_greatest [OF h keys ok] le [of x j] sub by auto
  moreover have "key_order env ks (tuple (memtuples s' ! i)) (tuple (memtuples s' ! j)) \<le> 0"
    if "n \<le> i" "i < j" "j < N" for i j
    using that at [of i] at [of j] le [OF root] srt [of i j] by auto
  ultimately show "unheap_inv env ks N s'"
    using hs N keys ok sub by (simp add: unheap_inv_def el s')
  have split: "take N xs = take n xs @ xs ! n # take (N - Suc n) (drop (Suc n) xs)"
    if "length xs = memtupsize s" for xs :: "'a sort_tuple list"
  proof -
    have "take N xs = take n xs @ take (N - n) (drop n xs)"
      using N by (metis le_add_diff_inverse take_add Suc_leD)
    also have "drop n xs = xs ! n # drop (Suc n) xs" using that N by (simp add: Cons_nth_drop_Suc)
    finally show ?thesis using N by (simp add: take_Cons')
  qed
  have "mset (take N (memtuples s')) =
      add_mset (memtuples s ! 0) (heap_elems s1) + mset (take (N - Suc n) (drop (Suc n) (memtuples s)))"
    using split [of "memtuples s'"] N s1 arg_cong [OF sift(4), of "drop 1"] by (simp add: s'_def heap_elems_def)
  also have "add_mset (memtuples s ! 0) (heap_elems s1) = mset (take n (memtuples s)) + {#memtuples s ! n#}"
    using sift(2) N len by (simp add: heap_elems_def n take_Suc_conv_app_nth)
  finally show "mset (take N (memtuples s')) = mset (take N (memtuples s))"
    using split [OF len] by simp
  show "mem_frame s s'" unfolding s'_def s1_def by (intro mem_frame_intros)
qed

lemma unheapify_sorts:
  "unheap_inv env ks N s \<Longrightarrow>
   sorted_wrt (\<lambda>a b. key_order env ks a b \<le> 0) (map tuple (take N (memtuples (unheapify env s)))) \<and>
   mset (take N (memtuples (unheapify env s))) = mset (take N (memtuples s)) \<and>
   mem_frame s (unheapify env s) \<and> length (memtuples (unheapify env s)) = memtupsize s"
proof (induction "memtupcount s" arbitrary: s rule: less_induct)
  case less
  let ?u = "unheapify env s"
  have len: "length (memtuples s) = memtupsize s"
    using less.prems by (simp add: unheap_inv_def heap_state_def array_ok_def)
  show ?case
  proof (cases "memtupcount s > 1")
    case True
    then obtain n where n: "memtupcount s = Suc n" by (cases "memtupcount s") auto
    let ?s1 = "tuplesort_heap_siftup env s False"
    let ?s' = "?s1\<lparr>memtuples := (memtuples ?s1)[n := memtuples s ! 0]\<rparr>"
    note step = unheap_step [OF less.prems n]
    have "?u = unheapify env ?s'" using True n by (simp add: unheapify.simps [of env s] Let_def)
    moreover have "memtupcount ?s' < memtupcount s" "memtupsize ?s' = memtupsize s" using n by simp_all
    ultimately show ?thesis
      using less.hyps [of ?s'] step by (auto intro: mem_frame_trans)
  next
    case False
    then have u: "?u = s" by (simp add: unheapify.simps [of env s])
    have "key_order env ks (tuple (memtuples s ! i)) (tuple (memtuples s ! j)) \<le> 0" if "i < j" "j < N" for i j
    proof (cases "i < memtupcount s")
      case True
      then have "memtuples s ! i \<in># heap_elems s" "memtupcount s \<le> j"
        using False that len less.prems by (auto simp: heap_elems_def in_set_conv_nth unheap_inv_def)
      with that less.prems show ?thesis by (simp add: unheap_inv_def)
    next
      case i: False
      with that less.prems show ?thesis by (simp add: unheap_inv_def)
    qed
    then show ?thesis
      using u len by (auto simp: sorted_wrt_iff_nth_less mem_frame_intros)
  qed
qed

end
