(* ===== verification/MemorySort.thy ===== *)
theory MemorySort
  imports BoundedHeap
begin

text \<open>
  Correctness of a sort that stays in memory: the states \<^verbatim>\<open>TSS_INITIAL\<close> and
  \<^verbatim>\<open>TSS_BOUNDED\<close> while tuples come in, \<^verbatim>\<open>TSS_SORTEDINMEM\<close> afterwards. What the
  sort owes its caller is stated over the tuples themselves and the order of their sort
  keys, \<open>keyscmp\<close>.
\<close>

section \<open>Taking tuples in\<close>

lemma grow_memtuples_keeps:
  assumes "grow_memtuples env s = Inr (grown, s')" and "array_ok s"
  shows "array_ok s' \<and> heap_elems s' = heap_elems s \<and> memtupcount s' = memtupcount s \<and> status s' = status s \<and>
    scanKeys s' = scanKeys s \<and> bounded s' = bounded s \<and> bound s' = bound s \<and> randomAccess s' = randomAccess s"
  using assms by (auto simp: grow_memtuples_def Let_def array_ok_def heap_elems_def split: if_splits)

text \<open>The options of a sort.\<close>

definition same_options :: "'d Tuplesortstate \<Rightarrow> 'd Tuplesortstate \<Rightarrow> bool" where
  "same_options s s' \<longleftrightarrow> bounded s' = bounded s \<and> bound s' = bound s \<and> randomAccess s' = randomAccess s"

lemma same_options_trans: "same_options s s' \<Longrightarrow> same_options s' s'' \<Longrightarrow> same_options s s''"
  by (simp add: same_options_def)

text \<open>A sort in memory that has taken in the tuples \<open>T\<close>.\<close>

definition loading_inv ::
  "'d sort_env \<Rightarrow> 'd ScanKey list \<Rightarrow> MinimalTuple multiset \<Rightarrow> 'd Tuplesortstate \<Rightarrow> bool" where
  "loading_inv env ks T s \<longleftrightarrow> status s = TSS_INITIAL \<and> scanKeys s = ks \<and> array_ok s \<and>
     memtupcount s < memtupsize s \<and> image_mset tuple (heap_elems s) = T \<and>
     (\<forall>x\<in>#heap_elems s. datum1_ok env ks x) \<and> (bounded s \<longrightarrow> 0 < bound s)"

definition heaping_inv ::
  "'d sort_env \<Rightarrow> 'd ScanKey list \<Rightarrow> MinimalTuple multiset \<Rightarrow> 'd Tuplesortstate \<Rightarrow> bool" where
  "heaping_inv env ks T s \<longleftrightarrow> status s = TSS_BOUNDED \<and> bounded s \<and> int (memtupcount s) = bound s \<and>
     bounded_inv env ks T s"

lemma store_tuple:
  fixes x :: "'d sort_tuple"
  assumes "array_ok s" and "memtupcount s < memtupsize s"
  defines "s' \<equiv> s\<lparr>memtuples := (memtuples s)[memtupcount s := x], memtupcount := memtupcount s + 1\<rparr>"
  shows "array_ok s'" "heap_elems s' = add_mset x (heap_elems s)"
  using assms by (auto simp: array_ok_def heap_elems_def take_Suc_conv_app_nth)

lemma put_loading:
  assumes inv: "loading_inv env ks T s" and x: "datum1_ok env ks x"
    and put: "puttuple_common env s x = Inr s'" and st: "status s' \<noteq> TSS_BUILDRUNS"
  shows "(loading_inv env ks (add_mset (tuple x) T) s' \<or> heaping_inv env ks (add_mset (tuple x) T) s') \<and>
    same_options s s'"
proof -
  note inv' = inv [unfolded loading_inv_def]
  obtain s1 where s1: "ensure_slot env s = Inr s1"
    using put inv' by (auto simp: puttuple_common_def bindE_Inr_iff)
  have g: "array_ok s1" "heap_elems s1 = heap_elems s" "status s1 = status s" "scanKeys s1 = scanKeys s"
    "bounded s1 = bounded s" "bound s1 = bound s" "memtupcount s1 < memtupsize s1"
    "randomAccess s1 = randomAccess s"
    using s1 inv' by (auto simp: ensure_slot_def bindE_Inr_iff split: if_splits dest!: grow_memtuples_keeps)
  let ?s2 = "s1\<lparr>memtuples := (memtuples s1)[memtupcount s1 := x], memtupcount := memtupcount s1 + 1\<rparr>"
  note st2 = store_tuple [OF g(1,7), of x]
  have res: "switch_over env ?s2 = Inr s'"
    using put inv' s1 by (simp add: puttuple_common_def)
  have ok: "datum1_ok env ks y" if "y \<in># heap_elems ?s2" for y
    using that st2(2) g(2) inv' x by auto
  have T: "image_mset tuple (heap_elems ?s2) = add_mset (tuple x) T" using st2(2) g(2) inv' by simp
  show ?thesis
  proof (cases "bounded ?s2 \<and> (int (memtupcount ?s2) > bound ?s2 * 2 \<or> (int (memtupcount ?s2) > bound ?s2 \<and> LACKMEM ?s2))")
    case True
    then have "0 < bound ?s2" "bound ?s2 \<le> int (memtupcount ?s2)" using inv' g by auto
    then have "heaping_inv env ks (add_mset (tuple x) T) s' \<and> same_options s s'"
      using make_bounded_heap_inv [of ?s2 env] True res st2(1) ok T g inv'
      by (auto simp: heaping_inv_def switch_over_def same_options_def)
    then show ?thesis by blast
  next
    case False
    show ?thesis
    proof (cases "memtupcount ?s2 < memtupsize ?s2 \<and> \<not> LACKMEM ?s2")
      case fits: True
      with False res have "s' = ?s2" by (auto simp: switch_over_def)
      with inv' g st2(1) ok T fits have "loading_inv env ks (add_mset (tuple x) T) s' \<and> same_options s s'"
        by (simp add: loading_inv_def same_options_def)
      then show ?thesis by blast
    next
      case spill: False
      from res False spill have "bindE (inittapes env ?s2) (\<lambda>s. dumptuples env s False) = Inr s'"
        by (simp only: switch_over_def if_False)
      then obtain s3 where "inittapes env ?s2 = Inr s3" "dumptuples env s3 False = Inr s'"
        unfolding bindE_Inr_iff by blast
      then have "status s' = TSS_BUILDRUNS"
        using inittapes_status dumptuples_status by metis
      with st show ?thesis by simp
    qed
  qed
qed

section \<open>From the first tuple to the sorted array\<close>

lemma loading_inv_availMem [simp]:
  "loading_inv env ks T (s\<lparr>availMem := m\<rparr>) = loading_inv env ks T s"
  "heaping_inv env ks T (s\<lparr>availMem := m\<rparr>) = heaping_inv env ks T s"
  by (simp_all add: loading_inv_def heaping_inv_def)

definition in_memory_inv ::
  "'d sort_env \<Rightarrow> 'd ScanKey list \<Rightarrow> MinimalTuple multiset \<Rightarrow> 'd Tuplesortstate \<Rightarrow> bool" where
  "in_memory_inv env ks T s \<longleftrightarrow> loading_inv env ks T s \<or> heaping_inv env ks T s"

lemma in_memory_keys:
  "in_memory_inv env ks T s \<Longrightarrow> ks \<noteq> [] \<and> good_keys ks \<and> sk_attno (scanKeys s ! 0) = sk_attno (ks ! 0)"
  by (cases ks) (auto simp: in_memory_inv_def loading_inv_def heaping_inv_def bounded_inv_def heap_state_def array_ok_def)

lemma put_in_memory:
  assumes inv: "in_memory_inv env ks T s" and x: "datum1_ok env ks x"
    and put: "puttuple_common env s x = Inr s'" and st: "status s' \<noteq> TSS_BUILDRUNS"
  shows "in_memory_inv env ks (add_mset (tuple x) T) s' \<and> same_options s s'"
proof (cases "loading_inv env ks T s")
  case True
  then show ?thesis unfolding in_memory_inv_def using x put st by (rule put_loading)
next
  case False
  with inv have h: "heaping_inv env ks T s" by (simp add: in_memory_inv_def)
  then obtain s'' where s'': "puttuple_common env s x = Inr s''" "bounded_inv env ks (add_mset (tuple x) T) s''"
    "mem_frame s s''" "memtupcount s'' = memtupcount s"
    using put_bounded [of s env ks T x] x by (auto simp: heaping_inv_def)
  with put h mem_frame_fields [OF s''(3)] show ?thesis
    by (auto simp: in_memory_inv_def heaping_inv_def same_options_def)
qed

lemma puttupleslot_in_memory:
  assumes inv: "in_memory_inv env ks T s" and put: "tuplesort_puttupleslot env t s = Inr s'"
    and st: "status s' \<noteq> TSS_BUILDRUNS"
  shows "in_memory_inv env ks (add_mset t T) s' \<and> same_options s s'"
proof -
  obtain d n where dn: "heap_getattr_in env t (sk_attno (ks ! 0)) = (d, n)" by (metis surj_pair)
  let ?x = "(fresh_slot env)\<lparr>tuple := t, datum1 := d, isnull1 := n\<rparr>"
  let ?s = "s\<lparr>availMem := availMem s - chunk_space env t\<rparr>"
  have "puttuple_common env ?s ?x = Inr s'"
    using put in_memory_keys [OF inv] dn by (simp add: tuplesort_puttupleslot_def copytup_heap_def Let_def)
  moreover have "in_memory_inv env ks T ?s" using inv by (simp add: in_memory_inv_def)
  moreover have "datum1_ok env ks ?x" using dn by (simp add: datum1_ok_def)
  ultimately show ?thesis using put_in_memory [of env ks T ?s ?x s'] st by (simp add: same_options_def)
qed

lemma puttuple_status_BUILDRUNS:
  "puttuple_common env s x = Inr s' \<Longrightarrow> status s = TSS_BUILDRUNS \<Longrightarrow> status s' = TSS_BUILDRUNS"
  by (auto simp: puttuple_common_def bindE_Inr_iff tuplesort_heap_insert_def Let_def
      split: if_splits dest!: dumptuples_status)

lemma puttupleslot_status_BUILDRUNS:
  "tuplesort_puttupleslot env t s = Inr s' \<Longrightarrow> status s = TSS_BUILDRUNS \<Longrightarrow> status s' = TSS_BUILDRUNS"
  by (auto simp: tuplesort_puttupleslot_def copytup_heap_def Let_def split: prod.splits
      dest!: puttuple_status_BUILDRUNS)

lemma put_all_status:
  "foldE (tuplesort_puttupleslot env) ts s = Inr s' \<Longrightarrow> status s' \<noteq> TSS_BUILDRUNS \<Longrightarrow> status s \<noteq> TSS_BUILDRUNS"
proof (induction ts arbitrary: s)
  case (Cons t ts)
  then obtain s1 where "tuplesort_puttupleslot env t s = Inr s1" "foldE (tuplesort_puttupleslot env) ts s1 = Inr s'"
    by (auto simp: bindE_Inr_iff)
  with Cons puttupleslot_status_BUILDRUNS show ?case by blast
qed simp

lemma put_all_in_memory:
  "in_memory_inv env ks T s \<Longrightarrow> foldE (tuplesort_puttupleslot env) ts s = Inr s' \<Longrightarrow>
   status s' \<noteq> TSS_BUILDRUNS \<Longrightarrow> in_memory_inv env ks (mset ts + T) s' \<and> same_options s s'"
proof (induction ts arbitrary: s T)
  case Nil
  then show ?case by (simp add: same_options_def)
next
  case (Cons t ts)
  then obtain s1 where s1: "tuplesort_puttupleslot env t s = Inr s1" "foldE (tuplesort_puttupleslot env) ts s1 = Inr s'"
    by (auto simp: bindE_Inr_iff)
  have "in_memory_inv env ks (add_mset t T) s1" and o1: "same_options s s1"
    using puttupleslot_in_memory [OF Cons.prems(1) s1(1)] put_all_status [OF s1(2)] Cons.prems(3) by blast+
  from Cons.IH [OF this(1) s1(2) Cons.prems(3)] same_options_trans [OF o1] show ?case by simp
qed

text \<open>A bounded heap takes every tuple.\<close>

lemma put_heaping:
  assumes h: "heaping_inv env ks T s"
  shows "\<exists>s'. tuplesort_puttupleslot env t s = Inr s' \<and> status s' = TSS_BOUNDED"
proof -
  let ?s = "USEMEM (chunk_space env t) s"
  have h': "heaping_inv env ks T ?s" using h by simp
  have "sk_attno (scanKeys s ! 0) = sk_attno (ks ! 0)" using in_memory_keys [of env ks T s] h by (simp add: in_memory_inv_def)
  then obtain x where x: "tuplesort_puttupleslot env t s = puttuple_common env ?s x" "datum1_ok env ks x"
    by (cases "heap_getattr_in env t (sk_attno (ks ! 0))")
      (simp add: tuplesort_puttupleslot_def copytup_heap_def Let_def datum1_ok_def)
  from put_bounded [of ?s env ks T x] h' x(2) obtain s' where "puttuple_common env ?s x = Inr s'" "mem_frame ?s s'"
    by (auto simp: heaping_inv_def)
  with x(1) h mem_frame_fields [of ?s s'] show ?thesis by (auto simp: heaping_inv_def)
qed

text \<open>An array that is still unordered holds at most twice as many tuples as are wanted.\<close>

lemma switch_over_stays:
  assumes sw: "switch_over env s = Inr s'" and st: "status s' = TSS_INITIAL"
  shows "s' = s \<and> \<not> (bounded s \<and> bound s * 2 < int (memtupcount s))"
proof -
  have heap: "make_bounded_heap env s \<noteq> Inr s'"
    using st by (auto simp: make_bounded_heap_def Let_def bindE_Inr_iff simp del: foldE.simps)
  have tapes: "bindE (inittapes env s) (\<lambda>s. dumptuples env s False) \<noteq> Inr s'"
  proof
    assume "bindE (inittapes env s) (\<lambda>s. dumptuples env s False) = Inr s'"
    then obtain s3 where "inittapes env s = Inr s3" "dumptuples env s3 False = Inr s'" unfolding bindE_Inr_iff by blast
    then have "status s' = TSS_BUILDRUNS" using inittapes_status dumptuples_status by metis
    with st show False by simp
  qed
  show ?thesis
  proof (cases "bounded s \<and> (int (memtupcount s) > bound s * 2 \<or> (int (memtupcount s) > bound s \<and> LACKMEM s))")
    case True
    then have "switch_over env s = make_bounded_heap env s" unfolding switch_over_def by (rule if_P)
    with sw heap show ?thesis by simp
  next
    case False
    then have "switch_over env s = (if memtupcount s < memtupsize s \<and> \<not> LACKMEM s then Inr s
        else bindE (inittapes env s) (\<lambda>state. dumptuples env state False))" unfolding switch_over_def by (rule if_not_P)
    with sw tapes False show ?thesis by (auto split: if_splits)
  qed
qed

lemma put_loading_count:
  assumes inv: "in_memory_inv env ks T s" and put: "tuplesort_puttupleslot env t s = Inr s'" and st: "status s' = TSS_INITIAL"
  shows "bounded s' \<longrightarrow> int (memtupcount s') \<le> bound s' * 2"
proof (cases "loading_inv env ks T s")
  case False
  with inv have "heaping_inv env ks T s" by (simp add: in_memory_inv_def)
  from put_heaping [OF this, of t] put st show ?thesis by auto
next
  case True
  then have "status s = TSS_INITIAL" by (simp add: loading_inv_def)
  with put obtain s1 where "switch_over env s1 = Inr s'"
    by (auto simp: tuplesort_puttupleslot_def copytup_heap_def puttuple_common_def bindE_Inr_iff Let_def split: prod.splits)
  from switch_over_stays [OF this st] show ?thesis by auto
qed

lemma puts_loading_count:
  assumes inv: "in_memory_inv env ks T s" "memtupcount s = 0" and put: "foldE (tuplesort_puttupleslot env) ts s = Inr s'"
    and st: "status s' = TSS_INITIAL" and b: "bounded s" "0 < bound s"
  shows "int (memtupcount s') \<le> bound s' * 2"
proof (cases ts rule: rev_cases)
  case Nil
  with put inv(2) b show ?thesis by simp
next
  case (snoc us t)
  with put obtain s1 where s1: "foldE (tuplesort_puttupleslot env) us s = Inr s1" "tuplesort_puttupleslot env t s1 = Inr s'"
    by (auto simp: foldE_append bindE_Inr_iff)
  then have nb: "status s1 \<noteq> TSS_BUILDRUNS" using st puttupleslot_status_BUILDRUNS [OF s1(2)] by auto
  note i1 = put_all_in_memory [OF inv(1) s1(1) nb]
  have "same_options s1 s'" using puttupleslot_in_memory [OF conjunct1 [OF i1] s1(2)] st by simp
  with i1 b have "bounded s'" by (simp add: same_options_def)
  with put_loading_count [OF conjunct1 [OF i1] s1(2) st] show ?thesis by simp
qed

text \<open>The tuples of a finished sort, in the order in which they are delivered.\<close>

definition sorted_result :: "'d Tuplesortstate \<Rightarrow> MinimalTuple list" where
  "sorted_result s = map tuple (take (memtupcount s) (memtuples s))"

lemma performsort_loading:
  assumes inv: "loading_inv env ks T s"
  shows "\<exists>s'. tuplesort_performsort env s = Some (Inr s') \<and> status s' = TSS_SORTEDINMEM \<and> current s' = 0 \<and>
    eof_reached s' = False \<and> bounded s' = bounded s \<and> bound s' = bound s \<and> randomAccess s' = randomAccess s \<and>
    memtupcount s' \<le> length (memtuples s') \<and>
    sorted_wrt (\<lambda>a b. key_order env ks a b \<le> 0) (sorted_result s') \<and> mset (sorted_result s') = T"
proof -
  let ?n = "memtupcount s" and ?cmp = "COMPARETUP env s"
  let ?q = "if ?n > 1 then qsort_arg ?cmp (memtuples s) 0 ?n else memtuples s"
  have a: "array_ok s" "?n \<le> length (memtuples s)" and keys: "scanKeys s = ks"
    and ok: "\<And>x. x \<in># heap_elems s \<Longrightarrow> datum1_ok env ks x" and st: "status s = TSS_INITIAL"
    using inv by (auto simp: loading_inv_def array_ok_def)
  have cmp: "sort_comparator ?cmp" using a(1) by (rule array_ok_comparator)
  have q: "permutes_range 0 ?n (memtuples s) ?q" "sort_comparator.sorted_range ?cmp ?q 0 ?n"
    using sort_comparator.qsort_arg_correct [OF cmp, of 0 ?n "memtuples s"] a
      sort_comparator.sorted_range_short [OF cmp, of ?n 0 "memtuples s"] by auto
  have len: "length ?q = length (memtuples s)" using q(1) by (rule permutes_range_length)
  have m: "mset (take ?n ?q) = heap_elems s"
    using permutes_range_slice [OF q(1)] a by (simp add: heap_elems_def)
  have "sorted_wrt (\<lambda>x y. ?cmp x y \<le> 0) (take ?n ?q)"
    using sort_comparator.sorted_range_slice [OF cmp _ q(2)] len a by simp
  then have "sorted_wrt (\<lambda>x y. key_order env ks (tuple x) (tuple y) \<le> 0) (take ?n ?q)"
  proof (rule sorted_wrt_mono_rel [rotated])
    fix x y assume "x \<in> set (take ?n ?q)" "y \<in> set (take ?n ?q)" "?cmp x y \<le> 0"
    then have "datum1_ok env ks x" "datum1_ok env ks y" using ok m by (metis set_mset_mset)+
    with \<open>?cmp x y \<le> 0\<close> a(1) keys show "key_order env ks (tuple x) (tuple y) \<le> 0"
      by (simp add: COMPARETUP_def tuplecmp_key_order array_ok_def)
  qed
  then have "sorted_wrt (\<lambda>a b. key_order env ks a b \<le> 0) (map tuple (take ?n ?q))"
    by (simp add: sorted_wrt_map)
  moreover have "mset (map tuple (take ?n ?q)) = T" using m inv by (simp add: loading_inv_def)
  ultimately show ?thesis
    using st len a by (simp add: tuplesort_performsort_def sorted_result_def)
qed

lemma performsort_heaping:
  assumes inv: "heaping_inv env ks T s"
  shows "\<exists>s'. tuplesort_performsort env s = Some (Inr s') \<and> status s' = TSS_SORTEDINMEM \<and> current s' = 0 \<and>
    eof_reached s' = False \<and> bounded s' = bounded s \<and> bound s' = bound s \<and> randomAccess s' = randomAccess s \<and>
    memtupcount s' \<le> length (memtuples s') \<and>
    sorted_wrt (\<lambda>a b. key_order env ks a b \<le> 0) (sorted_result s') \<and>
    smallest (key_order env ks) (mset (sorted_result s')) T \<and> int (length (sorted_result s')) = bound s"
proof -
  let ?n = "memtupcount s" and ?u = "unheapify env s"
  have st: "status s = TSS_BOUNDED" "bounded s" "int ?n = bound s" and b: "bounded_inv env ks T s"
    using inv by (auto simp: heaping_inv_def)
  have a: "array_ok s" using bounded_inv_facts(1) [OF b] .
  have "unheap_inv env ks ?n s"
    using b a by (auto simp: unheap_inv_def bounded_inv_def array_ok_def)
  note u = unheapify_sorts [OF this]
  have fr: "mem_frame s ?u" using u by blast
  let ?r = "(REVERSEDIRECTION (?u\<lparr>memtupcount := ?n\<rparr>))\<lparr>status := TSS_SORTEDINMEM, boundUsed := True\<rparr>"
  let ?s' = "?r\<lparr>current := 0, eof_reached := False, markpos_offset := 0, markpos_eof := False, status := TSS_SORTEDINMEM\<rparr>"
  have "tuplesort_performsort env s = Some (Inr ?s')"
    using st by (simp add: tuplesort_performsort_def sort_bounded_heap_def Let_def)
  moreover have "mset (sorted_result ?s') = image_mset tuple (heap_elems s)"
    using u by (simp add: sorted_result_def REVERSEDIRECTION_def heap_elems_def)
  moreover have "sorted_wrt (\<lambda>a b. key_order env ks a b \<le> 0) (sorted_result ?s')"
    using u by (simp add: sorted_result_def REVERSEDIRECTION_def)
  moreover have "int (length (sorted_result ?s')) = bound s" "?n \<le> length (memtuples ?u)"
    using u a st by (auto simp: sorted_result_def REVERSEDIRECTION_def array_ok_def)
  ultimately show ?thesis
    using b mem_frame_fields [OF fr] by (simp add: bounded_inv_def REVERSEDIRECTION_def)
qed

section \<open>Reading the result\<close>

text \<open>The loop of the caller: fetch up to \<open>n\<close> tuples, stopping at the first empty slot.\<close>

primrec read_tuples ::
  "'d sort_env \<Rightarrow> bool \<Rightarrow> nat \<Rightarrow> 'd Tuplesortstate \<Rightarrow> pg_error + MinimalTuple list \<times> 'd Tuplesortstate" where
  "read_tuples env forward 0 s = Inr ([], s)"
| "read_tuples env forward (Suc n) s =
     bindE (tuplesort_gettupleslot env s forward) (\<lambda>(slot, s).
       case slot of None \<Rightarrow> Inr ([], s)
       | Some t \<Rightarrow> bindE (read_tuples env forward n s) (\<lambda>(ts, s). Inr (t # ts, s)))"

lemma gettupleslot_mem:
  "status s = TSS_SORTEDINMEM \<Longrightarrow> tuplesort_gettupleslot env s forward =
     bindE (gettuple_mem env s forward) (\<lambda>(x, _, s). Inr (map_option tuple x, s))"
  by (simp add: tuplesort_gettupleslot_def tuplesort_gettuple_common_def)

lemma read_forward:
  assumes "status s = TSS_SORTEDINMEM" "memtupcount s \<le> length (memtuples s)" "0 \<le> current s"
    and "nat (current s) + n \<le> memtupcount s"
  shows "read_tuples env True n s =
    Inr (take n (drop (nat (current s)) (sorted_result s)), s\<lparr>current := current s + int n\<rparr>)"
  using assms
proof (induction n arbitrary: s)
  case (Suc n)
  let ?s = "s\<lparr>current := current s + 1\<rparr>"
  have "current s < int (memtupcount s)" using Suc.prems by linarith
  then have "tuplesort_gettupleslot env s True = Inr (Some (sorted_result s ! nat (current s)), ?s)"
    using Suc.prems by (simp add: gettupleslot_mem gettuple_mem_def sorted_result_def)
  moreover have "read_tuples env True n ?s =
      Inr (take n (drop (nat (current s) + 1) (sorted_result s)), s\<lparr>current := current s + int (Suc n)\<rparr>)"
    using Suc.IH [of ?s] Suc.prems by (simp add: sorted_result_def nat_add_distrib algebra_simps)
  moreover have "take (Suc n) (drop (nat (current s)) (sorted_result s)) =
      sorted_result s ! nat (current s) # take n (drop (nat (current s) + 1) (sorted_result s))"
    using Suc.prems by (simp add: sorted_result_def flip: Cons_nth_drop_Suc)
  ultimately show ?case by simp
qed simp

lemma read_tuples_add:
  "read_tuples env fwd m s = Inr (ts, s1) \<Longrightarrow> length ts = m \<Longrightarrow>
   read_tuples env fwd (m + n) s = bindE (read_tuples env fwd n s1) (\<lambda>(us, s2). Inr (ts @ us, s2))"
proof (induction m arbitrary: s ts)
  case 0
  then show ?case by (cases "read_tuples env fwd n s") auto
next
  case (Suc m)
  then obtain t s' ts' where g: "tuplesort_gettupleslot env s fwd = Inr (Some t, s')"
    "read_tuples env fwd m s' = Inr (ts', s1)" "ts = t # ts'"
    by (auto simp: bindE_Inr_iff split: option.splits)
  with Suc have "read_tuples env fwd (m + n) s' =
      bindE (read_tuples env fwd n s1) (\<lambda>(us, s2). Inr (ts' @ us, s2))" by auto
  with g show ?case by (cases "read_tuples env fwd n s1") auto
qed

text \<open>At the end the slot stays empty, except that a bounded sort complains.\<close>

lemma read_past_end:
  assumes "status s = TSS_SORTEDINMEM" "current s = int (memtupcount s)"
    and "\<not> (bounded s \<and> bound s \<le> current s \<and> \<not> is_slave env)"
  shows "tuplesort_gettupleslot env s True = Inr (None, s\<lparr>eof_reached := True\<rparr>)"
  using assms by (simp add: gettupleslot_mem gettuple_mem_def Let_def)

text \<open>Backwards from the end: first the last tuple, then the one before each.\<close>

lemma read_backward:
  assumes "status s = TSS_SORTEDINMEM" "memtupcount s \<le> length (memtuples s)" "randomAccess s"
    and "\<not> eof_reached s" "current s = int (Suc c)" "Suc c \<le> memtupcount s" and "n \<le> c"
  shows "read_tuples env False n s =
    Inr (take n (rev (take c (sorted_result s))), s\<lparr>current := int (Suc c - n)\<rparr>)"
  using assms
proof (induction n arbitrary: s c)
  case (Suc n)
  then obtain k where k: "c = Suc k" by (cases c) auto
  let ?s = "s\<lparr>current := int (Suc k)\<rparr>"
  have "tuplesort_gettupleslot env s False = Inr (Some (sorted_result s ! k), ?s)"
    using Suc.prems k by (simp add: gettupleslot_mem gettuple_mem_def sorted_result_def Let_def)
  moreover have "read_tuples env False n ?s =
      Inr (take n (rev (take k (sorted_result s))), s\<lparr>current := int (Suc c - Suc n)\<rparr>)"
    using Suc.IH [of ?s k] Suc.prems k by (simp add: sorted_result_def)
  moreover have "take (Suc n) (rev (take c (sorted_result s))) =
      sorted_result s ! k # take n (rev (take k (sorted_result s)))"
    using Suc.prems k by (simp add: sorted_result_def take_Suc_conv_app_nth)
  ultimately show ?case by simp
qed simp

lemma read_all:
  assumes "status s = TSS_SORTEDINMEM" "memtupcount s \<le> length (memtuples s)" "current s = 0"
    and "\<not> (bounded s \<and> bound s \<le> int (memtupcount s) \<and> \<not> is_slave env)"
  shows "read_tuples env True (memtupcount s + 1) s =
    Inr (sorted_result s, s\<lparr>current := int (memtupcount s), eof_reached := True\<rparr>)"
proof -
  let ?n = "memtupcount s" and ?s = "s\<lparr>current := int (memtupcount s)\<rparr>"
  have "read_tuples env True ?n s = Inr (sorted_result s, ?s)"
    using read_forward [of s ?n env] assms by (simp add: sorted_result_def)
  moreover have "read_tuples env True 1 ?s = Inr ([], ?s\<lparr>eof_reached := True\<rparr>)"
    using read_past_end [of ?s env] assms by simp
  moreover have "length (sorted_result s) = ?n" using assms by (simp add: sorted_result_def)
  ultimately show ?thesis by (simp add: read_tuples_add del: One_nat_def)
qed

section \<open>Starting\<close>

lemma begin_keys:
  assumes "\<And>oper f rev. ordering_op oper = Some (f, rev) \<Longrightarrow> btree_proc f"
  shows "foldE (begin_scan_key ordering_op) keys s = Inr s' \<Longrightarrow> good_keys (scanKeys s) \<Longrightarrow>
    good_keys (scanKeys s') \<and> length (scanKeys s') = length (scanKeys s) + length keys \<and>
    s' = s\<lparr>scanKeys := scanKeys s'\<rparr>"
proof (induction keys arbitrary: s)
  case (Cons k keys)
  then obtain s1 where s1: "begin_scan_key ordering_op k s = Inr s1" "foldE (begin_scan_key ordering_op) keys s1 = Inr s'"
    by (auto simp: bindE_Inr_iff)
  obtain a oper nf where k: "k = (a, oper, nf)" by (cases k)
  from s1(1) obtain key where key: "s1 = s\<lparr>scanKeys := scanKeys s @ [key]\<rparr>" "btree_proc (sk_func key)"
    using assms by (auto simp: begin_scan_key_def k ScanKeyInit_def Let_def split: if_splits option.splits prod.splits)
  then have "good_keys (scanKeys s1)" using Cons.prems by (simp add: good_keys_def)
  from Cons.IH [OF s1(2) this] key(1) show ?case by auto
qed (simp add: good_keys_def)

lemma begin_loading:
  assumes ops: "\<And>oper f rev. ordering_op oper = Some (f, rev) \<Longrightarrow> btree_proc f"
    and start: "tuplesort_begin_heap env ordering_op keys workMem random = Inr s"
  shows "loading_inv env (scanKeys s) {#} s \<and> \<not> bounded s \<and> randomAccess s = random"
proof -
  from start obtain s0 where s0: "tuplesort_begin_common env workMem random = Inr s0" "length keys > 0"
    "foldE (begin_scan_key ordering_op) keys (s0\<lparr>isParallelEnded := False, nKeys := length keys\<rparr>) = Inr s"
    by (auto simp: tuplesort_begin_heap_def bindE_Inr_iff split: if_splits)
  have f: "status s0 = TSS_INITIAL" "memtuples s0 = replicate 1024 (fresh_slot env)" "memtupcount s0 = 0"
    "memtupsize s0 = 1024" "\<not> bounded s0" "scanKeys s0 = []" "randomAccess s0 = random"
    using s0(1) by (auto simp: tuplesort_begin_common_def Let_def split: if_splits)
  let ?b = "s0\<lparr>isParallelEnded := False, nKeys := length keys\<rparr>"
  have "good_keys (scanKeys s) \<and> length (scanKeys s) = length (scanKeys ?b) + length keys \<and>
      s = ?b\<lparr>scanKeys := scanKeys s\<rparr>"
    by (rule begin_keys [OF ops s0(3)]) (assumption, simp add: f good_keys_def)
  then obtain ks where ks: "good_keys ks" "length ks = length keys" "s = ?b\<lparr>scanKeys := ks\<rparr>"
    using f(6) by auto
  with f s0(2) show ?thesis
    by (auto simp: loading_inv_def array_ok_def heap_elems_def)
qed

section \<open>Properties\<close>

lemma smallest_take:
  assumes "smallest cmp (mset xs) T" "sorted_wrt (\<lambda>a b. cmp a b \<le> 0) xs"
  shows "smallest cmp (mset (take k xs)) T"
proof -
  obtain R where R: "T = mset xs + R" "\<forall>a\<in>set xs. \<forall>r\<in>#R. cmp a r \<le> 0"
    using assms(1) by (auto simp: smallest_def)
  have "sorted_wrt (\<lambda>a b. cmp a b \<le> 0) (take k xs @ drop k xs)" using assms(2) by simp
  then have "\<forall>a\<in>set (take k xs). \<forall>b\<in>set (drop k xs). cmp a b \<le> 0" unfolding sorted_wrt_append by blast
  moreover have "mset xs = mset (take k xs) + mset (drop k xs)" by (metis append_take_drop_id mset_append)
  ultimately show ?thesis
    unfolding smallest_def using R
    by (intro exI [of _ "mset (drop k xs) + R"]) (auto dest: in_set_takeD)
qed

text \<open>
  An example to run the sort on: the key of a tuple is its first byte, a tuple without
  bytes has a null key, and operator 58 orders by \<open>btcharcmp\<close>.
\<close>

definition demo_env :: "byte sort_env" where
  "demo_env = \<lparr>heap_getattr_in = (\<lambda>t _. case t of [] \<Rightarrow> (0, True) | b # _ \<Rightarrow> (b, False)),
     chunk_space = (\<lambda>t. int (length t) + 32), array_space = (\<lambda>n. 24 * int n + 16),
     fresh_slot = \<lparr>tuple = [], datum1 = 0, isnull1 = True, tupindex = 0\<rparr>, is_slave = False\<rparr>"

definition demo_ops :: "int \<Rightarrow> ((byte \<Rightarrow> byte \<Rightarrow> int option) \<times> bool) option" where
  "demo_ops oper = (if oper = 58 then Some (\<lambda>a b. Some (btcharcmp a b), False) else None)"

lemma demo_ops_good: "demo_ops oper = Some (f, reverse) \<Longrightarrow> btree_proc f"
  by (auto simp: demo_ops_def btchar.btree_proc_axioms split: if_splits)

lemmas demo_run = demo_env_def demo_ops_def tuplesort_begin_heap_def tuplesort_begin_common_def
  begin_scan_key_def ScanKeyInit_def tuplesort_set_bound_def tuplesort_puttupleslot_def copytup_heap_def
  puttuple_common_def ensure_slot_def switch_over_def Let_def

lemma demo_puts:
  "\<exists>s0 s1. tuplesort_begin_heap demo_env demo_ops [(1, 58, False)] 64 True = Inr s0 \<and>
     foldE (tuplesort_puttupleslot demo_env) [[3], [], [1, 7], [3]] s0 = Inr s1 \<and> status s1 \<noteq> TSS_BUILDRUNS"
  by (simp add: demo_run)

text \<open>
  C6: a sort that fits into memory is correct from the first call to the last. After
  tuplesort_begin_heap, putting any tuples in, tuplesort_performsort succeeds, and reading
  on until the slot is empty delivers every tuple that was put in, each as often as it was
  put in, in the order of the sort keys (direction and position of nulls included). The
  sort support functions are assumed to be proper btree comparison functions.
\<close>

theorem sort_in_memory:
  assumes ops: "\<And>oper f rev. ordering_op oper = Some (f, rev) \<Longrightarrow> btree_proc f"
    and start: "tuplesort_begin_heap env ordering_op keys workMem random = Inr s0"
    and put: "foldE (tuplesort_puttupleslot env) ts s0 = Inr s1" and fits: "status s1 \<noteq> TSS_BUILDRUNS"
  shows "\<exists>s2 s3 out. tuplesort_performsort env s1 = Some (Inr s2) \<and>
    read_tuples env True (length ts + 1) s2 = Inr (out, s3) \<and> mset out = mset ts \<and>
    sorted_wrt (\<lambda>a b. keyscmp (heap_getattr_in env) (scanKeys s0) a b \<le> 0) out"
proof -
  have b: "loading_inv env (scanKeys s0) {#} s0" "\<not> bounded s0" using begin_loading [OF ops start] by auto
  have "in_memory_inv env (scanKeys s0) (mset ts) s1" "\<not> bounded s1"
    using put_all_in_memory [OF _ put fits, of "scanKeys s0" "{#}"] b
    by (auto simp: in_memory_inv_def same_options_def)
  then have l: "loading_inv env (scanKeys s0) (mset ts) s1" by (auto simp: in_memory_inv_def heaping_inv_def)
  from performsort_loading [OF l] obtain s2 where s2: "tuplesort_performsort env s1 = Some (Inr s2)"
    "status s2 = TSS_SORTEDINMEM" "current s2 = 0" "bounded s2 = bounded s1" "memtupcount s2 \<le> length (memtuples s2)"
    "sorted_wrt (\<lambda>a b. key_order env (scanKeys s0) a b \<le> 0) (sorted_result s2)" "mset (sorted_result s2) = mset ts"
    by blast
  have "memtupcount s2 = length ts"
    using arg_cong [OF s2(7), of size] s2(5) by (simp add: sorted_result_def)
  with read_all [OF s2(2,5,3), of env] s2 \<open>\<not> bounded s1\<close> show ?thesis by auto
qed

theorem sort_in_memory_witness:
  "\<exists>s0 s1 s2 s3 out. tuplesort_begin_heap demo_env demo_ops [(1, 58, False)] 64 True = Inr s0 \<and>
     foldE (tuplesort_puttupleslot demo_env) [[3], [], [1, 7], [3]] s0 = Inr s1 \<and>
     tuplesort_performsort demo_env s1 = Some (Inr s2) \<and>
     read_tuples demo_env True 5 s2 = Inr (out, s3) \<and> mset out = {#[3], [], [1, 7], [3]#}"
proof -
  obtain s0 s1 where d: "tuplesort_begin_heap demo_env demo_ops [(1, 58, False)] 64 True = Inr s0"
    "foldE (tuplesort_puttupleslot demo_env) [[3], [], [1, 7], [3]] s0 = Inr s1" "status s1 \<noteq> TSS_BUILDRUNS"
    using demo_puts by blast
  have "length [[3], [], [1, 7], [3 :: byte]] + 1 = 5" "mset [[3], [], [1, 7], [3 :: byte]] = {#[3], [], [1, 7], [3]#}"
    by simp_all
  then show ?thesis using sort_in_memory [OF _ d] demo_ops_good d(1,2) by metis
qed

lemma bounded_sort_result:
  assumes ops: "\<forall>oper f rev. ordering_op oper = Some (f, rev) \<longrightarrow> btree_proc f"
    and start: "tuplesort_begin_heap env ordering_op keys workMem random = Inr s0"
    and bound: "tuplesort_set_bound s0 n = Inr s1" and n: "0 < n" "n \<le> INT_MAX div 2"
    and put: "foldE (tuplesort_puttupleslot env) ts s1 = Inr s2" and fits: "status s2 \<noteq> TSS_BUILDRUNS"
  shows "\<exists>s3. tuplesort_performsort env s2 = Some (Inr s3) \<and> status s3 = TSS_SORTEDINMEM \<and> current s3 = 0 \<and>
    memtupcount s3 \<le> length (memtuples s3) \<and> bounded s3 \<and> bound s3 = n \<and>
    sorted_wrt (\<lambda>a b. key_order env (scanKeys s0) a b \<le> 0) (sorted_result s3) \<and>
    smallest (key_order env (scanKeys s0)) (mset (sorted_result s3)) (mset ts) \<and>
    (memtupcount s3 = length ts \<and> int (length ts) \<le> n * 2 \<or> int (memtupcount s3) = n \<and> n \<le> int (length ts))"
proof -
  have b: "loading_inv env (scanKeys s0) {#} s0" using begin_loading [OF _ start] ops by blast
  have s1: "s1 = s0\<lparr>bounded := True, bound := n\<rparr>" using bound n by (auto simp: tuplesort_set_bound_def split: if_splits)
  have l1: "in_memory_inv env (scanKeys s0) {#} s1" "memtupcount s1 = 0"
    using b n by (auto simp: s1 in_memory_inv_def loading_inv_def array_ok_def heap_elems_def)
  have inv: "in_memory_inv env (scanKeys s0) (mset ts) s2" "bounded s2" "bound s2 = n"
    using put_all_in_memory [OF l1(1) put fits] s1 by (auto simp: same_options_def)
  show ?thesis
  proof (cases "loading_inv env (scanKeys s0) (mset ts) s2")
    case True
    then have st: "status s2 = TSS_INITIAL" and T: "array_ok s2" "image_mset tuple (heap_elems s2) = mset ts"
      by (auto simp: loading_inv_def)
    have "memtupcount s2 = length ts" using arg_cong [OF T(2), of size] heap_elems_size [OF T(1)] by simp
    then have le: "int (length ts) \<le> n * 2" using puts_loading_count [OF l1 put st] s1 n inv(3) by simp
    from performsort_loading [OF True] obtain s3 where s3: "tuplesort_performsort env s2 = Some (Inr s3)"
      "status s3 = TSS_SORTEDINMEM" "current s3 = 0" "bounded s3 = bounded s2" "bound s3 = bound s2" "memtupcount s3 \<le> length (memtuples s3)"
      "sorted_wrt (\<lambda>a b. key_order env (scanKeys s0) a b \<le> 0) (sorted_result s3)" "mset (sorted_result s3) = mset ts"
      by blast
    have "memtupcount s3 = length ts" using arg_cong [OF s3(8), of size] s3(6) by (simp add: sorted_result_def)
    with s3 inv le show ?thesis by (auto simp: smallest_all)
  next
    case False
    with inv have h: "heaping_inv env (scanKeys s0) (mset ts) s2" by (simp add: in_memory_inv_def)
    from performsort_heaping [OF this] obtain s3 where s3: "tuplesort_performsort env s2 = Some (Inr s3)"
      "status s3 = TSS_SORTEDINMEM" "current s3 = 0" "bounded s3 = bounded s2" "bound s3 = bound s2" "memtupcount s3 \<le> length (memtuples s3)"
      "sorted_wrt (\<lambda>a b. key_order env (scanKeys s0) a b \<le> 0) (sorted_result s3)"
      "smallest (key_order env (scanKeys s0)) (mset (sorted_result s3)) (mset ts)"
      "int (length (sorted_result s3)) = bound s2" by blast
    obtain R where "mset ts = mset (sorted_result s3) + R" using s3(8) by (auto simp: smallest_def)
    from arg_cong [OF this, of size] have "length (sorted_result s3) \<le> length ts" by simp
    with s3 inv show ?thesis by (auto simp: sorted_result_def)
  qed
qed

text \<open>
  C9: a bounded sort (LIMIT) that fits into memory delivers the \<open>n\<close> smallest tuples.
  Whether the sort switched to the bounded heap or not, the first \<open>n\<close> tuples read are
  in order and no tuple left out precedes any of them.
\<close>

theorem bounded_sort_in_memory:
  assumes ops: "\<And>oper f rev. ordering_op oper = Some (f, rev) \<Longrightarrow> btree_proc f"
    and start: "tuplesort_begin_heap env ordering_op keys workMem random = Inr s0"
    and bound: "tuplesort_set_bound s0 n = Inr s1" and n: "0 < n" "n \<le> INT_MAX div 2"
    and put: "foldE (tuplesort_puttupleslot env) ts s1 = Inr s2" and fits: "status s2 \<noteq> TSS_BUILDRUNS"
  shows "\<exists>s3 s4 out. tuplesort_performsort env s2 = Some (Inr s3) \<and>
    read_tuples env True (min (nat n) (length ts)) s3 = Inr (out, s4) \<and>
    length out = min (nat n) (length ts) \<and>
    sorted_wrt (\<lambda>a b. keyscmp (heap_getattr_in env) (scanKeys s0) a b \<le> 0) out \<and>
    smallest (keyscmp (heap_getattr_in env) (scanKeys s0)) (mset out) (mset ts)"
proof -
  have "\<forall>oper f rev. ordering_op oper = Some (f, rev) \<longrightarrow> btree_proc f" using ops by blast
  from bounded_sort_result [OF this start bound n put fits] obtain s3 where s3: "tuplesort_performsort env s2 = Some (Inr s3)"
    "status s3 = TSS_SORTEDINMEM" "current s3 = 0" "memtupcount s3 \<le> length (memtuples s3)"
    "sorted_wrt (\<lambda>a b. key_order env (scanKeys s0) a b \<le> 0) (sorted_result s3)"
    "smallest (key_order env (scanKeys s0)) (mset (sorted_result s3)) (mset ts)"
    "memtupcount s3 = length ts \<and> int (length ts) \<le> n * 2 \<or> int (memtupcount s3) = n \<and> n \<le> int (length ts)" by blast
  then have "min (nat n) (length ts) \<le> memtupcount s3" by auto
  note s3 = s3(1-6) this
  let ?k = "min (nat n) (length ts)"
  have "read_tuples env True ?k s3 = Inr (take ?k (sorted_result s3), s3\<lparr>current := int ?k\<rparr>)"
    using read_forward [of s3 ?k env] s3 by simp
  moreover have "length (take ?k (sorted_result s3)) = ?k" using s3(4,7) by (simp add: sorted_result_def)
  ultimately show ?thesis
    using s3(1) smallest_take [OF s3(6,5), of ?k] sorted_wrt_take [OF s3(5), of ?k] by blast
qed

lemma demo_bounded_puts:
  "\<exists>s0 s1 s2. tuplesort_begin_heap demo_env demo_ops [(1, 58, False)] 64 False = Inr s0 \<and>
     tuplesort_set_bound s0 2 = Inr s1 \<and>
     foldE (tuplesort_puttupleslot demo_env) [[3], [], [1, 7]] s1 = Inr s2 \<and> status s2 \<noteq> TSS_BUILDRUNS"
  by (simp add: demo_run)

theorem bounded_sort_in_memory_witness:
  "\<exists>s0 s1 s2 s3 s4 out. tuplesort_begin_heap demo_env demo_ops [(1, 58, False)] 64 False = Inr s0 \<and>
     tuplesort_set_bound s0 2 = Inr s1 \<and>
     foldE (tuplesort_puttupleslot demo_env) [[3], [], [1, 7]] s1 = Inr s2 \<and>
     tuplesort_performsort demo_env s2 = Some (Inr s3) \<and>
     read_tuples demo_env True 2 s3 = Inr (out, s4) \<and> length out = 2"
proof -
  obtain s0 s1 s2 where d: "tuplesort_begin_heap demo_env demo_ops [(1, 58, False)] 64 False = Inr s0"
    "tuplesort_set_bound s0 2 = Inr s1"
    "foldE (tuplesort_puttupleslot demo_env) [[3], [], [1, 7]] s1 = Inr s2" "status s2 \<noteq> TSS_BUILDRUNS"
    using demo_bounded_puts by blast
  have two: "min (nat 2) (length [[3], [], [1, 7 :: byte]]) = 2" by simp
  have "\<exists>s3 s4 out. tuplesort_performsort demo_env s2 = Some (Inr s3) \<and>
      read_tuples demo_env True 2 s3 = Inr (out, s4) \<and> length out = 2 \<and>
      sorted_wrt (\<lambda>a b. keyscmp (heap_getattr_in demo_env) (scanKeys s0) a b \<le> 0) out \<and>
      smallest (keyscmp (heap_getattr_in demo_env) (scanKeys s0)) (mset out) (mset [[3], [], [1, 7]])"
    by (rule bounded_sort_in_memory [OF _ d(1,2) _ _ d(3,4), unfolded two]) (simp_all add: demo_ops_good)
  with d show ?thesis by blast
qed

lemma read_tuples_frame:
  "status s = TSS_SORTEDINMEM \<Longrightarrow> read_tuples env fwd n s = Inr (out, s') \<Longrightarrow>
   s' = s\<lparr>current := current s', eof_reached := eof_reached s'\<rparr>"
proof (induction n arbitrary: s out)
  case (Suc n)
  from Suc.prems(2) obtain slot s1 where g: "tuplesort_gettupleslot env s fwd = Inr (slot, s1)"
    by (auto simp: bindE_Inr_iff)
  then have "s1 = s\<lparr>current := current s1, eof_reached := eof_reached s1\<rparr>"
    using Suc.prems(1) by (auto simp: gettupleslot_mem gettuple_mem_def bindE_Inr_iff Let_def split: if_splits)
  then obtain c e where s1: "s1 = s\<lparr>current := c, eof_reached := e\<rparr>" by blast
  show ?case
  proof (cases slot)
    case None
    with Suc.prems(2) g have "s' = s1" by simp
    with s1 show ?thesis by simp
  next
    case (Some t)
    with Suc.prems(2) g obtain ts where r: "read_tuples env fwd n s1 = Inr (ts, s')"
      by (auto simp: bindE_Inr_iff)
    have "s' = s1\<lparr>current := current s', eof_reached := eof_reached s'\<rparr>"
      using Suc.IH [OF _ r] Suc.prems(1) s1 by simp
    then obtain c' e' where "s' = s1\<lparr>current := c', eof_reached := e'\<rparr>" by blast
    with s1 show ?thesis by simp
  qed
qed simp

text \<open>
  C37: mark and restore. After tuplesort_markpos, whatever is read in either direction,
  tuplesort_restorepos brings back exactly the state in which the mark was set.
\<close>

theorem markpos_restorepos:
  assumes "status s = TSS_SORTEDINMEM" and "tuplesort_markpos s = Inr s1"
    and "read_tuples env forward n s1 = Inr (out, s2)"
  shows "tuplesort_restorepos s2 = Inr s1 \<and> current s1 = current s \<and> eof_reached s1 = eof_reached s"
proof -
  have s1: "s1 = s\<lparr>markpos_offset := current s, markpos_eof := eof_reached s\<rparr>" "randomAccess s"
    using assms(1,2) by (auto simp: tuplesort_markpos_def split: if_splits)
  have "s2 = s1\<lparr>current := current s2, eof_reached := eof_reached s2\<rparr>"
    using read_tuples_frame [OF _ assms(3)] assms(1) s1 by simp
  then obtain c e where "s2 = s1\<lparr>current := c, eof_reached := e\<rparr>" by blast
  with assms(1) s1 show ?thesis by (simp add: tuplesort_restorepos_def)
qed

text \<open>A finished sort of two tuples, of which one has been read.\<close>

definition demo_sorted :: "byte Tuplesortstate" where
  "demo_sorted = (case tuplesort_begin_common demo_env 64 True of
     Inr s \<Rightarrow> s\<lparr>memtuples := [\<lparr>tuple = [1], datum1 = 1, isnull1 = False, tupindex = 0\<rparr>,
         \<lparr>tuple = [2], datum1 = 2, isnull1 = False, tupindex = 0\<rparr>], memtupcount := 2, memtupsize := 2,
         status := TSS_SORTEDINMEM, current := 1\<rparr>)"

theorem markpos_restorepos_witness:
  "\<exists>s1 s2. tuplesort_markpos demo_sorted = Inr s1 \<and> read_tuples demo_env True 2 s1 = Inr ([[2]], s2) \<and>
     tuplesort_restorepos s2 = Inr s1"
proof -
  have st: "status demo_sorted = TSS_SORTEDINMEM"
    by (simp add: demo_sorted_def tuplesort_begin_common_def demo_env_def Let_def)
  obtain s1 s2 where "tuplesort_markpos demo_sorted = Inr s1" "read_tuples demo_env True 2 s1 = Inr ([[2]], s2)"
    by (simp add: demo_sorted_def tuplesort_begin_common_def demo_env_def Let_def
        tuplesort_markpos_def gettupleslot_mem gettuple_mem_def numeral_2_eq_2)
  with markpos_restorepos [OF st this] show ?thesis by blast
qed

text \<open>
  C38: a finished sort read to its end and then backwards delivers its tuples in reverse.
\<close>

theorem scan_back:
  assumes "status s = TSS_SORTEDINMEM" "randomAccess s" "memtupcount s \<le> length (memtuples s)" "current s = 0"
    and "\<not> (bounded s \<and> bound s \<le> int (memtupcount s) \<and> \<not> is_slave env)"
    and "read_tuples env True (memtupcount s + 1) s = Inr (out, s1)"
  shows "\<exists>s2. read_tuples env False (memtupcount s + 1) s1 = Inr (rev out, s2)"
proof -
  let ?n = "memtupcount s"
  have s1: "s1 = s\<lparr>current := int ?n, eof_reached := True\<rparr>" and out: "out = sorted_result s"
    using read_all [OF assms(1,3,4,5)] assms(6) by auto
  show ?thesis
  proof (cases ?n)
    case 0
    with s1 out assms(1,2) show ?thesis
      by (simp add: gettupleslot_mem gettuple_mem_def sorted_result_def)
  next
    case (Suc c)
    let ?s2 = "s1\<lparr>eof_reached := False\<rparr>"
    have r1: "read_tuples env False 1 s1 = Inr ([sorted_result s ! c], ?s2)"
      using assms s1 Suc by (simp add: gettupleslot_mem gettuple_mem_def Let_def sorted_result_def)
    have r2: "read_tuples env False c ?s2 = Inr (rev (take c (sorted_result s)), ?s2\<lparr>current := 1\<rparr>)"
      using read_backward [of ?s2 c c env] assms s1 Suc by (simp add: sorted_result_def)
    have r3: "\<exists>s3. read_tuples env False 1 (?s2\<lparr>current := 1\<rparr>) = Inr ([], s3)"
      using assms s1 by (simp add: gettupleslot_mem gettuple_mem_def Let_def)
    have len: "length (sorted_result s) = Suc c" using assms(3) Suc by (simp add: sorted_result_def)
    have "read_tuples env False (c + 1) ?s2 = bindE (read_tuples env False 1 (?s2\<lparr>current := 1\<rparr>))
        (\<lambda>(us, s3). Inr (rev (take c (sorted_result s)) @ us, s3))"
      using read_tuples_add [OF r2, of 1] len by simp
    then have "\<exists>s3. read_tuples env False (1 + (c + 1)) s1 =
        Inr (sorted_result s ! c # rev (take c (sorted_result s)), s3)"
      using read_tuples_add [OF r1, of "c + 1"] r3 by auto
    moreover have "rev (sorted_result s) = sorted_result s ! c # rev (take c (sorted_result s))"
      using arg_cong [OF take_Suc_conv_app_nth [of c "sorted_result s"], of rev] len by simp
    moreover have "memtupcount s + 1 = 1 + (c + 1)" using Suc by simp
    ultimately show ?thesis using out by metis
  qed
qed

theorem scan_back_witness:
  "\<exists>s1 s2. read_tuples demo_env True 3 (demo_sorted\<lparr>current := 0\<rparr>) = Inr ([[1], [2]], s1) \<and>
     read_tuples demo_env False 3 s1 = Inr ([[2], [1]], s2)"
proof -
  let ?s = "demo_sorted\<lparr>current := 0\<rparr>"
  have f: "status ?s = TSS_SORTEDINMEM" "randomAccess ?s" "memtupcount ?s = 2" "length (memtuples ?s) = 2"
    "current ?s = 0" "\<not> bounded ?s"
    by (simp_all add: demo_sorted_def tuplesort_begin_common_def demo_env_def Let_def)
  obtain s1 where s1: "read_tuples demo_env True (memtupcount ?s + 1) ?s = Inr ([[1], [2]], s1)"
    using read_all [of ?s demo_env] f by (auto simp: sorted_result_def demo_sorted_def tuplesort_begin_common_def
        demo_env_def Let_def numeral_2_eq_2)
  have three: "memtupcount ?s + 1 = 3" using f by simp
  have "\<exists>s2. read_tuples demo_env False 3 s1 = Inr (rev [[1], [2]], s2)"
    using scan_back [OF f(1,2) _ f(5) _ s1] f by (simp add: three del: read_tuples.simps)
  with s1 [unfolded three] show ?thesis by (auto simp del: read_tuples.simps)
qed

text \<open>
  C39: how far a bounded sort can be read. A sort for the first \<open>n\<close> tuples that stayed in
  memory delivers all its tuples if these are at most \<open>2 n\<close>, or just \<open>n\<close> of them. The fetch
  after the last of these raises an error if \<open>n\<close> tuples or more were put in; it reports the
  end if there were fewer, and always in a worker.
\<close>

theorem bounded_over_read:
  assumes ops: "\<And>oper f rev. ordering_op oper = Some (f, rev) \<Longrightarrow> btree_proc f"
    and start: "tuplesort_begin_heap env ordering_op keys workMem random = Inr s0"
    and bound: "tuplesort_set_bound s0 n = Inr s1" and n: "0 < n" "n \<le> INT_MAX div 2"
    and put: "foldE (tuplesort_puttupleslot env) ts s1 = Inr s2" and fits: "status s2 \<noteq> TSS_BUILDRUNS"
  shows "\<exists>s3 s4 out. tuplesort_performsort env s2 = Some (Inr s3) \<and>
    read_tuples env True (length out) s3 = Inr (out, s4) \<and>
    (length out = length ts \<and> int (length ts) \<le> n * 2 \<or> int (length out) = n \<and> n \<le> int (length ts)) \<and>
    tuplesort_gettupleslot env s4 True =
      (if n \<le> int (length ts) \<and> is_slave env = False then Inl (ERROR ''retrieved too many tuples in a bounded sort'')
       else Inr (None, s4\<lparr>eof_reached := True\<rparr>))"
proof -
  have "\<forall>oper f rev. ordering_op oper = Some (f, rev) \<longrightarrow> btree_proc f" using ops by blast
  from bounded_sort_result [OF this start bound n put fits] obtain s3 where s3: "tuplesort_performsort env s2 = Some (Inr s3)"
    "status s3 = TSS_SORTEDINMEM" "current s3 = 0" "memtupcount s3 \<le> length (memtuples s3)" "bounded s3" "bound s3 = n"
    and len: "memtupcount s3 = length ts \<and> int (length ts) \<le> n * 2 \<or> int (memtupcount s3) = n \<and> n \<le> int (length ts)" by blast
  let ?m = "memtupcount s3" and ?s4 = "s3\<lparr>current := int (memtupcount s3)\<rparr>"
  have out: "length (sorted_result s3) = ?m" using s3(4) by (simp add: sorted_result_def)
  have "read_tuples env True ?m s3 = Inr (sorted_result s3, ?s4)"
    using read_forward [of s3 ?m env] s3 out by simp
  moreover have "n \<le> int ?m \<longleftrightarrow> n \<le> int (length ts)" using len by auto
  then have "tuplesort_gettupleslot env ?s4 True =
      (if n \<le> int (length ts) \<and> is_slave env = False then Inl (ERROR ''retrieved too many tuples in a bounded sort'')
       else Inr (None, ?s4\<lparr>eof_reached := True\<rparr>))"
    using s3 by (simp add: gettupleslot_mem gettuple_mem_def Let_def)
  ultimately show ?thesis using s3(1) len out by (intro exI [of _ s3] exI [of _ ?s4] exI [of _ "sorted_result s3"]) simp
qed

theorem bounded_over_read_witness:
  "\<exists>s0 s1 s2 s3 s4 out. tuplesort_begin_heap demo_env demo_ops [(1, 58, False)] 64 False = Inr s0 \<and>
     tuplesort_set_bound s0 2 = Inr s1 \<and>
     foldE (tuplesort_puttupleslot demo_env) [[3], [], [1, 7]] s1 = Inr s2 \<and>
     tuplesort_performsort demo_env s2 = Some (Inr s3) \<and> read_tuples demo_env True (length out) s3 = Inr (out, s4) \<and>
     tuplesort_gettupleslot demo_env s4 True = Inl (ERROR ''retrieved too many tuples in a bounded sort'')"
proof -
  obtain s0 s1 s2 where d: "tuplesort_begin_heap demo_env demo_ops [(1, 58, False)] 64 False = Inr s0"
    "tuplesort_set_bound s0 2 = Inr s1"
    "foldE (tuplesort_puttupleslot demo_env) [[3], [], [1, 7]] s1 = Inr s2" "status s2 \<noteq> TSS_BUILDRUNS"
    using demo_bounded_puts by blast
  have "\<exists>s3 s4 out. tuplesort_performsort demo_env s2 = Some (Inr s3) \<and> read_tuples demo_env True (length out) s3 = Inr (out, s4) \<and>
      (length out = length [[3], [], [1, 7 :: byte]] \<and> int (length [[3], [], [1, 7 :: byte]]) \<le> 2 * 2 \<or>
       int (length out) = 2 \<and> 2 \<le> int (length [[3], [], [1, 7 :: byte]])) \<and>
      tuplesort_gettupleslot demo_env s4 True =
        (if 2 \<le> int (length [[3], [], [1, 7 :: byte]]) \<and> is_slave demo_env = False
         then Inl (ERROR ''retrieved too many tuples in a bounded sort'') else Inr (None, s4\<lparr>eof_reached := True\<rparr>))"
    by (rule bounded_over_read [OF _ d(1,2) _ _ d(3,4)]) (simp_all add: demo_ops_good)
  moreover have "is_slave demo_env = False" by (simp add: demo_env_def)
  ultimately show ?thesis using d(1-3) by auto
qed

end
