(* ===== verification/Workers.thy ===== *)
theory Workers
  imports TupleState
begin

text \<open>
  Workers and their states (\<^verbatim>\<open>include/storage/parallel.h\<close>,
  \<^verbatim>\<open>backend/storage/lmgr/parallel.c\<close>): the records in shared memory, the transitions a
  master makes on all workers of a job, and the loops in which a process polls the states of
  others. A pointer to a worker is its index in a table, and a list of workers is the
  sequence of its members (theory \<open>SharedLists\<close> has the lists in memory). A polling loop
  runs against memory that others change: it is given the sequence of tables that its rounds
  find. The spin locks of these routines are taken and released within one round, so a
  round is one step. That a signal may end such a loop is not modelled.
\<close>

section \<open>Records\<close>

datatype PRL_WORKER_STATE = PRL_WORKER_STATE_NONE | PRL_WORKER_STATE_INITIAL | PRL_WORKER_STATE_READY
  | PRL_WORKER_STATE_WORKING | PRL_WORKER_STATE_FINISHED | PRL_WORKER_STATE_FINISHED_ACK
  | PRL_WORKER_STATE_END | PRL_WORKER_STATE_CANCELED | PRL_WORKER_STATE_DEAD

datatype PRL_WORK_TYPE = PRL_WORK_TYPE_SORT | PRL_WORK_TYPE_QUERY | PRL_WORK_TYPE_TEST | PRL_WORK_TYPE_END

record WorkDef =
  is_new :: bool
  hasWork :: bool
  workType :: PRL_WORK_TYPE
  jobId :: int

record Worker =
  valid :: bool
  workerPid :: int
  work :: WorkDef
  worker_state :: PRL_WORKER_STATE

section \<open>Transitions of all workers of a job\<close>

definition worker_matches :: "int \<Rightarrow> PRL_WORKER_STATE \<Rightarrow> Worker \<Rightarrow> bool" where
  "worker_matches job st w \<longleftrightarrow> valid w \<and> worker_state w = st \<and> jobId (work w) = job"

fun stateTransition :: "int \<Rightarrow> PRL_WORKER_STATE \<Rightarrow> PRL_WORKER_STATE \<Rightarrow> nat list \<Rightarrow> Worker list \<Rightarrow> nat \<times> Worker list" where
  "stateTransition job oldState newState [] tab = (0, tab)"
| "stateTransition job oldState newState (i # ids) tab =
     (let m = worker_matches job oldState (tab ! i);
          tab = (if m then tab[i := (tab ! i)\<lparr>worker_state := newState\<rparr>] else tab)
      in case stateTransition job oldState newState ids tab of (counter, tab) \<Rightarrow>
           ((if m then 1 else 0) + counter, tab))"

text \<open>The workers of a sort, in the order of the list.\<close>

definition registerWorkers :: "'d Tuplesortstate \<Rightarrow> nat \<Rightarrow> nat list \<Rightarrow> Worker list \<Rightarrow> pg_error + 'd Tuplesortstate" where
  "registerWorkers state prl_level ids tab =
     (let ready = filter (\<lambda>i. worker_matches (workersId state) PRL_WORKER_STATE_INITIAL (tab ! i)) ids
      in if length ready \<noteq> prl_level then Inl (TRAP ''readyCnt == prl_level'')
         else Inr (state\<lparr>lastWorker := -1, workers := ready, workersCnt := int (length ready),
                    workersFinished := replicate (length ready) False\<rparr>))"

section \<open>Waiting\<close>

definition ready_count :: "int \<Rightarrow> PRL_WORKER_STATE \<Rightarrow> nat list \<Rightarrow> Worker list \<Rightarrow> nat" where
  "ready_count job st ids tab = length (filter (\<lambda>i. worker_matches job st (tab ! i)) ids)"

text \<open>The result is the number of rounds after which the loop ends.\<close>

partial_function (option) wait_rounds ::
  "int \<Rightarrow> nat \<Rightarrow> PRL_WORKER_STATE \<Rightarrow> nat list \<Rightarrow> (nat \<Rightarrow> Worker list) \<Rightarrow> nat \<Rightarrow> nat \<Rightarrow> nat option" where
  "wait_rounds job wanted st ids tabs k readyCnt =
     (if readyCnt \<noteq> wanted
      then wait_rounds job wanted st ids tabs (k + 1) (ready_count job st ids (tabs k))
      else Some k)"

definition waitForWorkers :: "int \<Rightarrow> nat \<Rightarrow> PRL_WORKER_STATE \<Rightarrow> nat list \<Rightarrow> (nat \<Rightarrow> Worker list) \<Rightarrow> nat option" where
  "waitForWorkers job wanted st ids tabs = wait_rounds job wanted st ids tabs 0 0"

definition not_end :: "PRL_WORKER_STATE \<Rightarrow> nat list \<Rightarrow> Worker list \<Rightarrow> bool" where
  "not_end st ids tab \<longleftrightarrow>
     (\<exists>i\<in>set ids. valid (tab ! i) \<and> worker_state (tab ! i) \<noteq> st \<and> worker_state (tab ! i) \<noteq> PRL_WORKER_STATE_END)"

partial_function (option) waitForAllWorkers ::
  "PRL_WORKER_STATE \<Rightarrow> nat list \<Rightarrow> (nat \<Rightarrow> Worker list) \<Rightarrow> nat \<Rightarrow> nat option" where
  "waitForAllWorkers st ids tabs k =
     (if not_end st ids (tabs k) then waitForAllWorkers st ids tabs (k + 1) else Some (k + 1))"

text \<open>One round of a worker's wait for its own state: \<open>None\<close> to go on waiting.\<close>

definition waitForState :: "PRL_WORKER_STATE \<Rightarrow> Worker \<Rightarrow> (pg_error + unit) option" where
  "waitForState st w =
     (if worker_state w = st then Some (Inr ())
      else if worker_state w = PRL_WORKER_STATE_CANCELED then Some (Inl (ERROR ''Worker - state CANCELLED''))
      else None)"

definition waitForAndSet :: "PRL_WORKER_STATE \<Rightarrow> PRL_WORKER_STATE \<Rightarrow> Worker \<Rightarrow> (pg_error + Worker) option" where
  "waitForAndSet st newState w =
     (if worker_state w = st then Some (Inr (w\<lparr>worker_state := newState\<rparr>))
      else if worker_state w = PRL_WORKER_STATE_CANCELED then Some (Inl (ERROR ''Worker - state CANCELLED''))
      else None)"

section \<open>Facts\<close>

lemma stateTransition_table:
  "distinct ids \<Longrightarrow> set ids \<subseteq> {..<length tab} \<Longrightarrow> stateTransition job old new ids tab = (c, tab') \<Longrightarrow>
   length tab' = length tab \<and>
   (\<forall>i<length tab. tab' ! i = (if i \<in> set ids \<and> worker_matches job old (tab ! i)
                               then (tab ! i)\<lparr>worker_state := new\<rparr> else tab ! i)) \<and>
   c = ready_count job old ids tab"
proof (induction ids arbitrary: tab c)
  case (Cons i ids)
  define m where "m = worker_matches job old (tab ! i)"
  define tab1 where "tab1 = (if m then tab[i := (tab ! i)\<lparr>worker_state := new\<rparr>] else tab)"
  from Cons.prems(3) obtain c1 where rec: "stateTransition job old new ids tab1 = (c1, tab')"
    and c: "c = (if m then 1 else 0) + c1"
    by (auto simp: tab1_def m_def Let_def split: prod.splits if_splits)
  have "set ids \<subseteq> {..<length tab1}" using Cons.prems(2) by (auto simp: tab1_def)
  from Cons.IH [OF _ this rec] Cons.prems(1)
  have IH: "length tab' = length tab1"
    "\<And>j. j < length tab1 \<Longrightarrow> tab' ! j = (if j \<in> set ids \<and> worker_matches job old (tab1 ! j)
                               then (tab1 ! j)\<lparr>worker_state := new\<rparr> else tab1 ! j)"
    "c1 = ready_count job old ids tab1" by auto
  have tab1: "length tab1 = length tab" "i < length tab" "\<And>j. j \<in> set ids \<Longrightarrow> tab1 ! j = tab ! j"
    "tab1 ! i = (if m then (tab ! i)\<lparr>worker_state := new\<rparr> else tab ! i)"
    "\<And>j. j \<noteq> i \<Longrightarrow> tab1 ! j = tab ! j"
    using Cons.prems(1,2) by (auto simp: tab1_def nth_list_update)
  have "c = ready_count job old (i # ids) tab"
    using c IH(3) tab1(3) by (simp add: ready_count_def m_def cong: filter_cong)
  moreover have "tab' ! j = (if j \<in> set (i # ids) \<and> worker_matches job old (tab ! j)
      then (tab ! j)\<lparr>worker_state := new\<rparr> else tab ! j)" if "j < length tab" for j
  proof (cases "j = i")
    case True
    then have "j \<notin> set ids" using Cons.prems(1) by simp
    with True IH(2) [of j] that tab1 show ?thesis by (simp add: m_def)
  next
    case False
    with IH(2) [of j] that tab1 show ?thesis by simp
  qed
  ultimately show ?case using IH(1) tab1(1) by simp
qed (simp add: ready_count_def)

lemma wait_rounds_step:
  "readyCnt \<noteq> n \<Longrightarrow> (\<And>j. k \<le> j \<Longrightarrow> j < k + d \<Longrightarrow> ready_count job st ids (tabs j) \<noteq> n) \<Longrightarrow>
   ready_count job st ids (tabs (k + d)) = n \<Longrightarrow>
   wait_rounds job n st ids tabs k readyCnt = Some (k + d + 1)"
proof (induction d arbitrary: k readyCnt)
  case 0
  then show ?case
    by (simp add: wait_rounds.simps [of job n st ids tabs k readyCnt] wait_rounds.simps [of job n st ids tabs "Suc k"])
next
  case (Suc d)
  have "wait_rounds job n st ids tabs (k + 1) (ready_count job st ids (tabs k)) = Some (k + 1 + d + 1)"
    by (rule Suc.IH) (use Suc.prems in auto)
  with Suc.prems(1) show ?case by (simp add: wait_rounds.simps [of job n st ids tabs k readyCnt])
qed

lemma wait_rounds_result:
  assumes "wait_rounds job n st ids tabs k readyCnt = Some r"
  shows "(r = k \<and> readyCnt = n) \<or> (k < r \<and> ready_count job st ids (tabs (r - 1)) = n)"
proof (rule wait_rounds.raw_induct [OF _ assms])
  fix wait job n st ids tabs and k readyCnt r :: nat
  assume IH: "\<And>job n st ids tabs k readyCnt r. wait job n st ids tabs k readyCnt = Some r \<Longrightarrow>
      r = k \<and> readyCnt = n \<or> k < r \<and> ready_count job st ids (tabs (r - 1)) = n"
    and body: "(if readyCnt \<noteq> n then wait job n st ids tabs (k + 1) (ready_count job st ids (tabs k)) else Some k) = Some r"
  show "r = k \<and> readyCnt = n \<or> k < r \<and> ready_count job st ids (tabs (r - 1)) = n"
  proof (cases "readyCnt = n")
    case False
    with body have "wait job n st ids tabs (k + 1) (ready_count job st ids (tabs k)) = Some r" by simp
    from IH [OF this] show ?thesis by auto
  qed (use body in simp)
qed

section \<open>Properties\<close>

text \<open>
  C35: A master's transition moves exactly the valid workers of its job that are in the old
  state: each becomes a worker in the new state and is otherwise unchanged, every other
  worker stays as it is, and the count returned is the number of workers moved.
\<close>

theorem stateTransition_moves:
  assumes "distinct ids" and "set ids \<subseteq> {..<length tab}"
    and "stateTransition job old new ids tab = (counter, tab')"
  shows "let moves = (\<lambda>i. valid (tab ! i) \<and> worker_state (tab ! i) = old \<and> jobId (work (tab ! i)) = job)
    in length tab' = length tab \<and> counter = length (filter moves ids) \<and>
      (\<forall>i<length tab. tab' ! i = (if i \<in> set ids \<and> moves i then (tab ! i)\<lparr>worker_state := new\<rparr> else tab ! i))"
  using stateTransition_table [OF assms] by (simp add: Let_def ready_count_def worker_matches_def)

definition demo_worker :: "PRL_WORKER_STATE \<Rightarrow> int \<Rightarrow> Worker" where
  "demo_worker st job = \<lparr>valid = True, workerPid = 100 + job,
     work = \<lparr>is_new = False, hasWork = True, workType = PRL_WORK_TYPE_SORT, jobId = job\<rparr>, worker_state = st\<rparr>"

theorem stateTransition_moves_witness:
  "\<exists>tab'. stateTransition 7 PRL_WORKER_STATE_INITIAL PRL_WORKER_STATE_READY [1, 0]
       [demo_worker PRL_WORKER_STATE_INITIAL 7, demo_worker PRL_WORKER_STATE_INITIAL 8] = (1, tab') \<and>
     tab' = [demo_worker PRL_WORKER_STATE_READY 7, demo_worker PRL_WORKER_STATE_INITIAL 8]"
proof -
  let ?tab = "[demo_worker PRL_WORKER_STATE_INITIAL 7, demo_worker PRL_WORKER_STATE_INITIAL 8]"
  obtain c tab' where r: "stateTransition 7 PRL_WORKER_STATE_INITIAL PRL_WORKER_STATE_READY [1, 0] ?tab = (c, tab')"
    by fastforce
  let ?moves = "\<lambda>i. valid (?tab ! i) \<and> worker_state (?tab ! i) = PRL_WORKER_STATE_INITIAL \<and> jobId (work (?tab ! i)) = 7"
  have "length tab' = 2 \<and> c = length (filter ?moves [1, 0]) \<and>
      (\<forall>i<2. tab' ! i = (if i \<in> {1, 0} \<and> ?moves i
         then (?tab ! i)\<lparr>worker_state := PRL_WORKER_STATE_READY\<rparr> else ?tab ! i))"
    using stateTransition_moves [OF _ _ r] by (simp add: Let_def)
  then have "c = 1" "tab' = [demo_worker PRL_WORKER_STATE_READY 7, demo_worker PRL_WORKER_STATE_INITIAL 8]"
    by (auto simp: demo_worker_def list_eq_iff_nth_eq less_2_cases_iff numeral_2_eq_2 less_Suc_eq)
  with r show ?thesis by simp
qed

lemma waitForWorkers_round:
  assumes "0 < n"
  shows "(ready_count job st ids (tabs k) = n \<and> (\<forall>j<k. ready_count job st ids (tabs j) \<noteq> n)) =
    (waitForWorkers job n st ids tabs = Some (k + 1))"
proof
  assume "ready_count job st ids (tabs k) = n \<and> (\<forall>j<k. ready_count job st ids (tabs j) \<noteq> n)"
  then show "waitForWorkers job n st ids tabs = Some (k + 1)"
    using wait_rounds_step [of 0 n 0 k job st ids tabs] assms by (simp add: waitForWorkers_def)
next
  assume w: "waitForWorkers job n st ids tabs = Some (k + 1)"
  then have "wait_rounds job n st ids tabs 0 0 = Some (k + 1)" by (simp only: waitForWorkers_def)
  from wait_rounds_result [OF this] have r: "ready_count job st ids (tabs k) = n" by simp
  have "ready_count job st ids (tabs j) \<noteq> n" if "j < k" for j
  proof
    assume "ready_count job st ids (tabs j) = n"
    then obtain l where l: "ready_count job st ids (tabs l) = n" "\<forall>i<l. ready_count job st ids (tabs i) \<noteq> n" "l \<le> j"
      using ex_least_nat_le [of "\<lambda>i. ready_count job st ids (tabs i) = n" j] by blast
    then have "waitForWorkers job n st ids tabs = Some (l + 1)"
      using wait_rounds_step [of 0 n 0 l job st ids tabs] assms by (simp add: waitForWorkers_def)
    with w l(3) that show False by simp
  qed
  with r show "ready_count job st ids (tabs k) = n \<and> (\<forall>j<k. ready_count job st ids (tabs j) \<noteq> n)" by blast
qed

text \<open>
  C36: Waiting for workers ends, and ends right: if some round finds exactly the number of
  valid workers of the job in the state waited for, the loop returns after the first such round; and it
  never returns otherwise.
\<close>

theorem waitForWorkers_first:
  assumes "0 < n"
  shows "let ready = (\<lambda>j. length (filter (\<lambda>i. valid (tabs j ! i) \<and> worker_state (tabs j ! i) = st \<and> jobId (work (tabs j ! i)) = job) ids))
    in (ready k = n \<and> (\<forall>j<k. ready j \<noteq> n)) = (waitForWorkers job n st ids tabs = Some (k + 1))"
  using waitForWorkers_round [OF assms, of job st ids tabs k] by (simp add: Let_def ready_count_def worker_matches_def)

theorem waitForWorkers_first_witness:
  "waitForWorkers 7 1 PRL_WORKER_STATE_FINISHED [0]
     (\<lambda>k. [demo_worker (if k < 3 then PRL_WORKER_STATE_READY else PRL_WORKER_STATE_FINISHED) 7]) = Some (3 + 1)"
  by (subst waitForWorkers_first [unfolded Let_def, symmetric]) (simp_all add: demo_worker_def)

end
