(* ===== verification/SpinLock.thy ===== *)
theory SpinLock
  imports Prelude
begin

text \<open>
  Spin locks: \<^verbatim>\<open>backend/storage/lmgr/s_lock.c\<close> with the macros of \<^verbatim>\<open>s_lock.h\<close> and \<^verbatim>\<open>spin.h\<close>. Waiting
  for a lock goes on against memory that others change: \<open>tas k\<close> is what the test-and-set of
  round \<open>k\<close> finds, \<^const>\<open>True\<close> for a lock that is taken. \<open>jitter k c\<close> is the random amount by which
  the delay grows after sleep \<open>k\<close>, at most the delay \<open>c\<close> itself. A waiter that finds the lock
  taken for too long gives up and brings the server down.
\<close>

section \<open>Waiting for a lock\<close>

definition DEFAULT_SPINS_PER_DELAY :: nat where
  "DEFAULT_SPINS_PER_DELAY = 100"

definition MIN_SPINS_PER_DELAY :: nat where
  "MIN_SPINS_PER_DELAY = 10"

definition MAX_SPINS_PER_DELAY :: nat where
  "MAX_SPINS_PER_DELAY = 1000"

definition NUM_DELAYS :: nat where
  "NUM_DELAYS = 1000"

definition MIN_DELAY_MSEC :: nat where
  "MIN_DELAY_MSEC = 1"

definition MAX_DELAY_MSEC :: nat where
  "MAX_DELAY_MSEC = 1000"

definition s_lock_stuck :: pg_error where
  "s_lock_stuck = PANIC ''stuck spinlock detected''"

text \<open>How long to sleep now, and the delay after that sleep.\<close>

definition sleep_now :: "nat \<Rightarrow> nat" where
  "sleep_now cur_delay = (if cur_delay = 0 then MIN_DELAY_MSEC else cur_delay)"

definition next_delay :: "nat \<Rightarrow> nat \<Rightarrow> nat" where
  "next_delay now more = (if now + more > MAX_DELAY_MSEC then MIN_DELAY_MSEC else now + more)"

text \<open>
  The loop: \<open>k\<close> rounds have found the lock taken, \<open>spins\<close> of them since the last of \<open>delays\<close>
  sleeps. The result is the round that got the lock, the delay reached and the sleeps.
\<close>

function s_lock_loop ::
  "(nat \<Rightarrow> bool) \<Rightarrow> (nat \<Rightarrow> nat \<Rightarrow> nat) \<Rightarrow> nat \<Rightarrow> nat \<Rightarrow> nat \<Rightarrow> nat \<Rightarrow> nat \<Rightarrow> pg_error + nat \<times> nat \<times> nat list" where
  "s_lock_loop tas jitter spins_per_delay k spins delays cur_delay =
     (if tas k then
        (if spins + 1 \<ge> spins_per_delay then
           (if delays + 1 > NUM_DELAYS then Inl s_lock_stuck
            else
              bindE (s_lock_loop tas jitter spins_per_delay (k + 1) 0 (delays + 1)
                  (next_delay (sleep_now cur_delay) (jitter (delays + 1) (sleep_now cur_delay))))
                (\<lambda>(k, delay, sleeps). Inr (k, delay, sleep_now cur_delay # sleeps)))
         else s_lock_loop tas jitter spins_per_delay (k + 1) (spins + 1) delays cur_delay)
      else Inr (k, cur_delay, []))"
  by pat_completeness auto
termination
  by (relation "measures [\<lambda>(tas, jitter, n, k, spins, delays, cur). NUM_DELAYS - delays,
      \<lambda>(tas, jitter, n, k, spins, delays, cur). n - spins]") auto

declare s_lock_loop.simps [simp del]

text \<open>The new value of \<^verbatim>\<open>spins_per_delay\<close> follows the round and the sleeps.\<close>

definition adapt_spins :: "nat \<Rightarrow> nat \<Rightarrow> nat" where
  "adapt_spins spins_per_delay cur_delay =
     (if cur_delay = 0
      then (if spins_per_delay < MAX_SPINS_PER_DELAY then min (spins_per_delay + 100) MAX_SPINS_PER_DELAY else spins_per_delay)
      else (if spins_per_delay > MIN_SPINS_PER_DELAY then max (spins_per_delay - 1) MIN_SPINS_PER_DELAY else spins_per_delay))"

definition s_lock :: "(nat \<Rightarrow> bool) \<Rightarrow> (nat \<Rightarrow> nat \<Rightarrow> nat) \<Rightarrow> nat \<Rightarrow> pg_error + nat \<times> nat list \<times> nat" where
  "s_lock tas jitter spins_per_delay =
     bindE (s_lock_loop tas jitter spins_per_delay 0 0 0 0)
       (\<lambda>(k, cur_delay, sleeps). Inr (k, sleeps, adapt_spins spins_per_delay cur_delay))"

definition S_LOCK :: "(nat \<Rightarrow> bool) \<Rightarrow> (nat \<Rightarrow> nat \<Rightarrow> nat) \<Rightarrow> nat \<Rightarrow> pg_error + nat" where
  "S_LOCK tas jitter spins_per_delay =
     (if tas 0 then bindE (s_lock (\<lambda>k. tas (k + 1)) jitter spins_per_delay) (\<lambda>(_, _, n). Inr n) else Inr spins_per_delay)"

definition set_spins_per_delay :: "nat \<Rightarrow> nat" where
  "set_spins_per_delay shared_spins_per_delay = shared_spins_per_delay"

definition update_spins_per_delay :: "nat \<Rightarrow> nat \<Rightarrow> nat" where
  "update_spins_per_delay shared_spins_per_delay spins_per_delay =
     (shared_spins_per_delay * 15 + spins_per_delay) div 16"

section \<open>Locks in memory that one process runs on\<close>

text \<open>
  In the routines that are one step of their process nobody else runs between the rounds: a
  lock that is taken when they ask for it stays taken.
\<close>

definition SpinLockAcquire :: "bool \<Rightarrow> pg_error + bool" where
  "SpinLockAcquire taken =
     bindE (S_LOCK (\<lambda>_. taken) (\<lambda>_ c. c) (set_spins_per_delay DEFAULT_SPINS_PER_DELAY)) (\<lambda>_. Inr True)"

definition SpinLockRelease :: "bool \<Rightarrow> bool" where
  "SpinLockRelease taken = False"

section \<open>How long the waiting goes on\<close>

text \<open>The rounds that may still fail before the waiter gives up.\<close>

definition rounds_left :: "nat \<Rightarrow> nat \<Rightarrow> nat \<Rightarrow> nat" where
  "rounds_left n spins delays = (NUM_DELAYS - delays) * n + (n - spins)"

lemma rounds_left_spin: "spins + 1 < n \<Longrightarrow> rounds_left n spins delays = Suc (rounds_left n (spins + 1) delays)"
  by (simp add: rounds_left_def)

lemma rounds_left_sleep:
  assumes "spins < n" "spins + 1 \<ge> n" "delays + 1 \<le> NUM_DELAYS"
  shows "rounds_left n spins delays = Suc (rounds_left n 0 (delays + 1))"
proof -
  have "n - spins = 1" "(NUM_DELAYS - delays) = Suc (NUM_DELAYS - (delays + 1))" using assms by simp_all
  then show ?thesis by (simp add: rounds_left_def)
qed

lemma loop_stuck:
  assumes "spins < n" "delays \<le> NUM_DELAYS" "\<forall>j<rounds_left n spins delays. tas (k + j)"
  shows "s_lock_loop tas jitter n k spins delays cur = Inl s_lock_stuck"
  using assms
proof (induction tas jitter n k spins delays cur rule: s_lock_loop.induct)
  case (1 tas jitter n k spins delays cur)
  have pos: "0 < rounds_left n spins delays" using "1.prems"(1) by (simp add: rounds_left_def)
  then have tas: "tas k" using "1.prems"(3) by (metis add_0_right)
  show ?case
  proof (cases "spins + 1 \<ge> n")
    case True
    show ?thesis
    proof (cases "delays + 1 > NUM_DELAYS")
      case False
      have "\<forall>j<rounds_left n 0 (delays + 1). tas (k + 1 + j)"
        using "1.prems"(3) rounds_left_sleep [OF "1.prems"(1) True] False by (metis Suc_less_eq add_Suc_shift add.commute linorder_not_less plus_1_eq_Suc)
      then show ?thesis using "1.IH"(1) [OF tas True False] False tas True "1.prems"(1)
        by (subst s_lock_loop.simps) simp
    qed (use tas True in \<open>simp add: s_lock_loop.simps\<close>)
  next
    case False
    have "\<forall>j<rounds_left n (spins + 1) delays. tas (k + 1 + j)"
      using "1.prems"(3) rounds_left_spin [of spins n delays] False
      by (metis Suc_less_eq add_Suc_shift add.commute linorder_not_less plus_1_eq_Suc)
    then show ?thesis using "1.IH"(2) [OF tas False] False tas "1.prems"(2)
      by (subst s_lock_loop.simps) simp
  qed
qed

definition waited :: "nat \<Rightarrow> nat \<Rightarrow> nat \<Rightarrow> nat \<Rightarrow> nat \<times> nat \<times> nat list \<Rightarrow> bool" where
  "waited n spins cur d r \<longleftrightarrow> (\<exists>k cur' sleeps. r = (k, cur', sleeps) \<and> length sleeps = (spins + d) div n \<and>
     set sleeps \<subseteq> {MIN_DELAY_MSEC..MAX_DELAY_MSEC} \<and> cur' \<le> MAX_DELAY_MSEC \<and> (cur' = 0 \<longleftrightarrow> cur = 0 \<and> sleeps = []))"

lemma loop_returns:
  assumes "spins < n" "delays \<le> NUM_DELAYS" "d < rounds_left n spins delays" "\<not> tas (k + d)" "\<forall>j<d. tas (k + j)"
    "cur \<le> MAX_DELAY_MSEC" "\<forall>i c. jitter i c \<le> c"
  shows "\<exists>r. s_lock_loop tas jitter n k spins delays cur = Inr r \<and> fst r = k + d \<and> waited n spins cur d r"
  using assms
proof (induction tas jitter n k spins delays cur arbitrary: d rule: s_lock_loop.induct)
  case (1 tas jitter n k spins delays cur)
  show ?case
  proof (cases d)
    case 0
    then have "s_lock_loop tas jitter n k spins delays cur = Inr (k, cur, [])" using "1.prems"(4) by (simp add: s_lock_loop.simps)
    then show ?thesis using 0 "1.prems"(1,6) by (simp add: waited_def)
  next
    case (Suc e)
    then have tas: "tas k" using "1.prems"(5) by (metis add_0_right zero_less_Suc)
    have e: "\<not> tas (k + 1 + e)" "\<forall>j<e. tas (k + 1 + j)" using "1.prems"(4,5) Suc by auto
    show ?thesis
    proof (cases "spins + 1 \<ge> n")
      case True
      have more: "delays + 1 \<le> NUM_DELAYS"
      proof (rule ccontr)
        assume "\<not> ?thesis"
        then have "rounds_left n spins delays \<le> 1" using True by (simp add: rounds_left_def)
        with "1.prems"(3) Suc show False by simp
      qed
      let ?now = "sleep_now cur"
      let ?next = "next_delay ?now (jitter (delays + 1) ?now)"
      have now: "?now \<in> {MIN_DELAY_MSEC..MAX_DELAY_MSEC}" "0 < ?next" "?next \<le> MAX_DELAY_MSEC"
        using "1.prems"(6) by (auto simp: sleep_now_def next_delay_def MIN_DELAY_MSEC_def MAX_DELAY_MSEC_def)
      have small: "e < rounds_left n 0 (delays + 1)" "0 < n" "\<not> delays + 1 > NUM_DELAYS"
        using rounds_left_sleep [OF "1.prems"(1) True more] "1.prems"(1,3) Suc more by auto
      obtain c sleeps where r: "s_lock_loop tas jitter n (k + 1) 0 (delays + 1) ?next = Inr (k + 1 + e, c, sleeps)"
        "waited n 0 ?next e (k + 1 + e, c, sleeps)"
        using "1.IH"(1) [OF tas True small(3,2) more small(1) e now(3) "1.prems"(7)] by (metis prod.collapse)
      have "s_lock_loop tas jitter n k spins delays cur = Inr (k + d, c, ?now # sleeps)"
        using tas True more r(1) Suc by (subst s_lock_loop.simps) simp
      moreover have "spins + d = n + e" using True "1.prems"(1) Suc by simp
      then have "waited n spins cur d (k + d, c, ?now # sleeps)" using r(2) now small(2) by (auto simp: waited_def div_add_self1)
      ultimately show ?thesis by (intro exI [of _ "(k + d, c, ?now # sleeps)"]) simp
    next
      case False
      have "e < rounds_left n (spins + 1) delays" using rounds_left_spin [of spins n delays] False "1.prems"(3) Suc by simp
      then obtain r where r: "s_lock_loop tas jitter n (k + 1) (spins + 1) delays cur = Inr r" "fst r = k + 1 + e" "waited n (spins + 1) cur e r"
        using "1.IH"(2) [OF tas False] False "1.prems"(2,6,7) e by (metis not_le)
      then show ?thesis using tas False Suc by (subst s_lock_loop.simps) (simp add: waited_def)
    qed
  qed
qed

lemma rounds_left_start: "rounds_left n 0 0 = (NUM_DELAYS + 1) * n"
  by (simp add: rounds_left_def)

lemma s_lock_gives_up:
  "0 < n \<Longrightarrow> \<forall>j<(NUM_DELAYS + 1) * n. tas j \<Longrightarrow> s_lock tas jitter n = Inl s_lock_stuck"
  using loop_stuck [of 0 n 0 tas 0 jitter 0] by (simp add: s_lock_def rounds_left_start)

lemma adapt_spins_range:
  "n \<in> {MIN_SPINS_PER_DELAY..MAX_SPINS_PER_DELAY} \<Longrightarrow> adapt_spins n c \<in> {MIN_SPINS_PER_DELAY..MAX_SPINS_PER_DELAY}"
  by (auto simp: adapt_spins_def MIN_SPINS_PER_DELAY_def MAX_SPINS_PER_DELAY_def)

lemma SpinLockAcquire_simps [simp]: "SpinLockAcquire False = Inr True" "SpinLockAcquire True = Inl s_lock_stuck"
  by (simp_all add: SpinLockAcquire_def S_LOCK_def s_lock_gives_up set_spins_per_delay_def DEFAULT_SPINS_PER_DELAY_def)

section \<open>Properties\<close>

text \<open>
  C34: waiting for a spin lock always ends. If the lock is found taken in each of the rounds that
  1000 sleeps and one more bout of spinning allow, the server is brought down as having a stuck spin
  lock; otherwise the waiter gets the lock in the first round that finds it free, having slept
  once for every full bout of spinning, each time between 1 and 1000 milliseconds. The number
  of spins per bout stays between 10 and 1000, in the process and in the shared estimate.
\<close>

theorem s_lock_bounded:
  assumes n: "n \<in> {MIN_SPINS_PER_DELAY..MAX_SPINS_PER_DELAY}" and jitter: "\<forall>i c. jitter i c \<le> c"
  shows "((\<forall>j<(NUM_DELAYS + 1) * n. tas j) \<longrightarrow> s_lock tas jitter n = Inl s_lock_stuck) \<and>
    (\<forall>d<(NUM_DELAYS + 1) * n. \<not> tas d \<and> (\<forall>j<d. tas j) \<longrightarrow>
       (\<exists>sleeps n'. s_lock tas jitter n = Inr (d, sleeps, n') \<and> length sleeps = d div n \<and>
          set sleeps \<subseteq> {MIN_DELAY_MSEC..MAX_DELAY_MSEC} \<and> n' \<in> {MIN_SPINS_PER_DELAY..MAX_SPINS_PER_DELAY} \<and>
          (\<forall>shared \<in> {MIN_SPINS_PER_DELAY..MAX_SPINS_PER_DELAY}.
             update_spins_per_delay shared n' \<in> {MIN_SPINS_PER_DELAY..MAX_SPINS_PER_DELAY})))"
proof (intro conjI allI impI)
  have pos: "0 < n" using n by (simp add: MIN_SPINS_PER_DELAY_def)
  show "s_lock tas jitter n = Inl s_lock_stuck" if "\<forall>j<(NUM_DELAYS + 1) * n. tas j" using s_lock_gives_up [OF pos that] .
  fix d assume d: "d < (NUM_DELAYS + 1) * n" "\<not> tas d \<and> (\<forall>j<d. tas j)"
  obtain c sleeps where r: "s_lock_loop tas jitter n 0 0 0 0 = Inr (d, c, sleeps)" "waited n 0 0 d (d, c, sleeps)"
    using loop_returns [OF pos, of 0 d tas 0 0 jitter] d jitter by (auto simp: rounds_left_start)
  then have "s_lock tas jitter n = Inr (d, sleeps, adapt_spins n c)" by (simp add: s_lock_def)
  moreover have "update_spins_per_delay shared n' \<in> {MIN_SPINS_PER_DELAY..MAX_SPINS_PER_DELAY}"
    if "shared \<in> {MIN_SPINS_PER_DELAY..MAX_SPINS_PER_DELAY}" "n' \<in> {MIN_SPINS_PER_DELAY..MAX_SPINS_PER_DELAY}" for shared n'
    using that by (auto simp: update_spins_per_delay_def MIN_SPINS_PER_DELAY_def MAX_SPINS_PER_DELAY_def)
  ultimately show "\<exists>sleeps n'. s_lock tas jitter n = Inr (d, sleeps, n') \<and> length sleeps = d div n \<and>
      set sleeps \<subseteq> {MIN_DELAY_MSEC..MAX_DELAY_MSEC} \<and> n' \<in> {MIN_SPINS_PER_DELAY..MAX_SPINS_PER_DELAY} \<and>
      (\<forall>shared \<in> {MIN_SPINS_PER_DELAY..MAX_SPINS_PER_DELAY}.
         update_spins_per_delay shared n' \<in> {MIN_SPINS_PER_DELAY..MAX_SPINS_PER_DELAY})"
    using r(2) adapt_spins_range [OF n, of c] unfolding waited_def by auto
qed

theorem s_lock_bounded_witness:
  "\<exists>sleeps n'. s_lock (\<lambda>k. k < 25) (\<lambda>_ c. c) 10 = Inr (25, sleeps, n') \<and> length sleeps = 2 \<and> n' \<in> {10..1000}"
proof -
  have n: "(10 :: nat) \<in> {MIN_SPINS_PER_DELAY..MAX_SPINS_PER_DELAY}" and d: "25 < (NUM_DELAYS + 1) * 10"
    by (simp_all add: NUM_DELAYS_def MIN_SPINS_PER_DELAY_def MAX_SPINS_PER_DELAY_def)
  note waits = s_lock_bounded [OF n, of "\<lambda>_ c. c" "\<lambda>k. k < 25", THEN conjunct2, rule_format, OF _ d]
  have "\<exists>sleeps n'. s_lock (\<lambda>k. k < 25) (\<lambda>_ c. c) 10 = Inr (25, sleeps, n') \<and> length sleeps = 25 div 10 \<and>
      n' \<in> {MIN_SPINS_PER_DELAY..MAX_SPINS_PER_DELAY}"
    using waits by auto
  then show ?thesis by (simp add: MIN_SPINS_PER_DELAY_def MAX_SPINS_PER_DELAY_def)
qed

end
