(* ===== verification/SemPool.thy ===== *)
theory SemPool
  imports SpinLock
begin

text \<open>
  The semaphores of parallel execution: the operations of
  \<^verbatim>\<open>backend/port/sysv_sema.c\<close> on counts, the boxes that hold them in shared memory,
  the list of free boxes, and the creation and destruction of a buffer queue
  (\<^verbatim>\<open>backend/storage/lmgr/parallel.c\<close>), which takes three boxes from that list and
  gives them back. Waiting for a semaphore that nobody will raise is \<open>None\<close>. Errors of the
  \<^verbatim>\<open>semop\<close> system call other than an interruption, after which the code tries again,
  are not behaviours of the model.
\<close>

section \<open>Shared memory\<close>

record SEM_BOX =
  links_next :: "nat option"
  sem :: nat

record 'a BufferQueueCell =
  ptr_value :: 'a
  cell_next :: "nat option"
  cell_last :: bool

record BufferQueue =
  head :: "nat option"
  tail :: "nat option"
  items :: nat
  spaces :: nat
  mutex :: nat
  init_size :: int
  bq_size :: int
  stop :: bool

text \<open>
  The boxes, the head of the list of free ones and its spin lock, and the queue cells
  by their address.
\<close>

record 'a shmem =
  boxes :: "SEM_BOX list"
  freeSems :: "nat option"
  PrlSemLock :: bool
  cells :: "nat \<Rightarrow> 'a BufferQueueCell option"

section \<open>Operations on semaphores\<close>

definition sem_count :: "'a shmem \<Rightarrow> nat \<Rightarrow> nat" where
  "sem_count m i = sem (boxes m ! i)"

definition set_sem :: "nat \<Rightarrow> nat \<Rightarrow> 'a shmem \<Rightarrow> 'a shmem" where
  "set_sem i n m = m\<lparr>boxes := (boxes m)[i := (boxes m ! i)\<lparr>sem := n\<rparr>]\<rparr>"

definition PGSemaphoreReset :: "nat \<Rightarrow> 'a shmem \<Rightarrow> 'a shmem" where
  "PGSemaphoreReset i m = set_sem i 0 m"

definition PGSemaphoreLock :: "nat \<Rightarrow> 'a shmem \<Rightarrow> 'a shmem option" where
  "PGSemaphoreLock i m =
     (if sem_count m i = 0 then None else Some (set_sem i (sem_count m i - 1) m))"

definition PGSemaphoreUnlock :: "nat \<Rightarrow> 'a shmem \<Rightarrow> 'a shmem" where
  "PGSemaphoreUnlock i m = set_sem i (sem_count m i + 1) m"

definition PGSemaphoreTryLock :: "nat \<Rightarrow> 'a shmem \<Rightarrow> bool \<times> 'a shmem" where
  "PGSemaphoreTryLock i m =
     (if sem_count m i = 0 then (False, m) else (True, set_sem i (sem_count m i - 1) m))"

text \<open>The spin lock of the free list.\<close>

definition lock_pool :: "'a shmem \<Rightarrow> pg_error + 'a shmem" where
  "lock_pool m = bindE (SpinLockAcquire (PrlSemLock m)) (\<lambda>l. Inr (m\<lparr>PrlSemLock := l\<rparr>))"

definition unlock_pool :: "'a shmem \<Rightarrow> 'a shmem" where
  "unlock_pool m = m\<lparr>PrlSemLock := SpinLockRelease (PrlSemLock m)\<rparr>"

lemma lock_pool_simps [simp]:
  "\<not> PrlSemLock m \<Longrightarrow> lock_pool m = Inr (m\<lparr>PrlSemLock := True\<rparr>)" "PrlSemLock m \<Longrightarrow> lock_pool m = Inl s_lock_stuck"
  by (simp_all add: lock_pool_def)

lemma unlock_pool_simp: "unlock_pool m = m\<lparr>PrlSemLock := False\<rparr>"
  by (simp add: unlock_pool_def SpinLockRelease_def)

section \<open>The pool\<close>

definition MaxPrlSems :: nat where
  "MaxPrlSems = 100"

definition init_box :: "nat \<Rightarrow> 'a shmem \<Rightarrow> 'a shmem" where
  "init_box i m = m\<lparr>boxes := boxes m @ [\<lparr>links_next = freeSems m, sem = 1\<rparr>], freeSems := Some i\<rparr>"

definition InitPrlSemas :: "'a shmem" where
  "InitPrlSemas = fold init_box [0..<MaxPrlSems]
     \<lparr>boxes = [], freeSems = None, PrlSemLock = False, cells = (\<lambda>_. None)\<rparr>"

definition PrlGlobalSemas :: nat where
  "PrlGlobalSemas = MaxPrlSems"

text \<open>One box from the head of the free list, under the spin lock.\<close>

definition take_sem :: "'a shmem \<Rightarrow> (pg_error + nat) \<times> 'a shmem" where
  "take_sem m = (case freeSems m of
       None \<Rightarrow> (Inl (FATAL ''sorry, too many semaphores used already in parallel execution''), m)
     | Some i \<Rightarrow> (Inr i, m\<lparr>freeSems := links_next (boxes m ! i)\<rparr>))"

text \<open>
  The three boxes of a queue. \<^verbatim>\<open>ereport(FATAL)\<close> leaves the routine before the
  \<^verbatim>\<open>SpinLockRelease\<close> that follows it.
\<close>

definition take_sems :: "'a shmem \<Rightarrow> (pg_error + nat \<times> nat \<times> nat) \<times> 'a shmem" where
  "take_sems m = (case take_sem m of
       (Inl e, m) \<Rightarrow> (Inl e, m)
     | (Inr sp, m) \<Rightarrow> (case take_sem m of
         (Inl e, m) \<Rightarrow> (Inl e, m)
       | (Inr it, m) \<Rightarrow> (case take_sem m of
           (Inl e, m) \<Rightarrow> (Inl e, m)
         | (Inr mu, m) \<Rightarrow> (Inr (sp, it, mu), m))))"

definition createBufferQueue :: "int \<Rightarrow> 'a shmem \<Rightarrow> ((pg_error + BufferQueue) \<times> 'a shmem) option" where
  "createBufferQueue buffer_size m = (case lock_pool m of
       Inl e \<Rightarrow> Some (Inl e, m)
     | Inr m \<Rightarrow> (case take_sems m of
         (Inl e, m) \<Rightarrow> Some (Inl e, m)
       | (Inr (sp, it, mu), m) \<Rightarrow>
           (let m = unlock_pool m;
                m = (PGSemaphoreUnlock sp ^^ nat (buffer_size - 1)) m
            in map_option (\<lambda>m. (Inr \<lparr>head = None, tail = None, items = it, spaces = sp, mutex = mu,
                                     init_size = buffer_size, bq_size = 0, stop = False\<rparr>, m))
                 (PGSemaphoreLock it m))))"

text \<open>Back to count one, as created.\<close>

definition renew_sem :: "nat \<Rightarrow> 'a shmem \<Rightarrow> 'a shmem" where
  "renew_sem i m = PGSemaphoreUnlock i (PGSemaphoreReset i m)"

definition give_sem :: "nat \<Rightarrow> 'a shmem \<Rightarrow> 'a shmem" where
  "give_sem i m = m\<lparr>boxes := (boxes m)[i := (boxes m ! i)\<lparr>links_next := freeSems m\<rparr>], freeSems := Some i\<rparr>"

text \<open>Destroying a queue; a queue that still has a head draws a warning.\<close>

definition destroyBufferQueue :: "BufferQueue \<Rightarrow> 'a shmem \<Rightarrow> (pg_error + bool) \<times> 'a shmem" where
  "destroyBufferQueue bq m =
     (let m = renew_sem (spaces bq) (renew_sem (mutex bq) (renew_sem (items bq) m))
      in case lock_pool m of
           Inl e \<Rightarrow> (Inl e, m)
         | Inr m \<Rightarrow>
             let m = give_sem (spaces bq) (give_sem (mutex bq) (give_sem (items bq) m))
             in (Inr (head bq \<noteq> None), unlock_pool m))"

section \<open>Facts on semaphore operations\<close>

named_theorems sem_simps \<open>counts, links and frame of semaphore operations\<close>

lemma set_sem_fields [sem_simps]:
  "freeSems (set_sem i n m) = freeSems m" "PrlSemLock (set_sem i n m) = PrlSemLock m"
  "cells (set_sem i n m) = cells m" "length (boxes (set_sem i n m)) = length (boxes m)"
  by (simp_all add: set_sem_def)

lemma sem_count_lock [sem_simps]: "sem_count (m\<lparr>PrlSemLock := b\<rparr>) i = sem_count m i"
  "sem_count (m\<lparr>cells := c\<rparr>) i = sem_count m i"
  by (simp_all add: sem_count_def)

lemma set_sem_count [sem_simps]:
  "i < length (boxes m) \<Longrightarrow> sem_count (set_sem i n m) j = (if i = j then n else sem_count m j)"
  by (simp add: set_sem_def sem_count_def nth_list_update)

lemma set_sem_link [sem_simps]: "links_next (boxes (set_sem i n m) ! j) = links_next (boxes m ! j)"
  by (cases "i < length (boxes m)") (auto simp: set_sem_def nth_list_update list_update_beyond)

lemma set_sem_set_sem [sem_simps]: "set_sem i n (set_sem i k m) = set_sem i n m"
  by (cases "i < length (boxes m)") (auto simp: set_sem_def list_update_beyond)

text \<open>\<open>n\<close> posts raise the count by \<open>n\<close>.\<close>

lemma unlock_times:
  "i < length (boxes m) \<Longrightarrow> (PGSemaphoreUnlock i ^^ n) m = set_sem i (sem_count m i + n) m"
proof (induction n)
  case 0
  then show ?case by (simp add: set_sem_def sem_count_def)
next
  case (Suc n)
  then show ?case by (simp add: PGSemaphoreUnlock_def sem_simps)
qed

lemma renew_sem_set: "i < length (boxes m) \<Longrightarrow> renew_sem i m = set_sem i 1 m"
  by (simp add: renew_sem_def PGSemaphoreUnlock_def PGSemaphoreReset_def sem_simps)

section \<open>The free list\<close>

fun free_chain :: "SEM_BOX list \<Rightarrow> nat option \<Rightarrow> nat list \<Rightarrow> bool" where
  "free_chain bs None [] = True"
| "free_chain bs (Some i) (j # js) = (i = j \<and> i < length bs \<and> free_chain bs (links_next (bs ! i)) js)"
| "free_chain bs _ _ = False"

fun_cases free_chain_NoneE: "free_chain bs None js"
fun_cases free_chain_SomeE: "free_chain bs (Some i) js"
fun_cases free_chain_ConsE: "free_chain bs p (j # js)"

lemma free_chain_bound: "free_chain bs p js \<Longrightarrow> j \<in> set js \<Longrightarrow> j < length bs"
  by (induction bs p js rule: free_chain.induct) auto

lemma free_chain_frame:
  "free_chain bs p js \<Longrightarrow> length bs \<le> length bs' \<Longrightarrow>
   (\<And>j. j \<in> set js \<Longrightarrow> links_next (bs' ! j) = links_next (bs ! j)) \<Longrightarrow> free_chain bs' p js"
  by (induction bs p js rule: free_chain.induct) auto

text \<open>The boxes \<open>fs\<close> are free, in this order, and every one has count one.\<close>

definition pool_ok :: "'a shmem \<Rightarrow> nat list \<Rightarrow> bool" where
  "pool_ok m fs \<longleftrightarrow> free_chain (boxes m) (freeSems m) fs \<and> distinct fs \<and>
     (\<forall>i\<in>set fs. sem_count m i = 1) \<and> \<not> PrlSemLock m"

lemma init_box_fields [simp]:
  "length (boxes (init_box i m)) = Suc (length (boxes m))" "cells (init_box i m) = cells m"
  by (simp_all add: init_box_def)

lemma init_boxes:
  "let m = fold init_box [0..<n] \<lparr>boxes = [], freeSems = None, PrlSemLock = False, cells = (\<lambda>_. None)\<rparr>
   in length (boxes m) = n \<and> pool_ok m (rev [0..<n]) \<and> cells m = (\<lambda>_. None)"
proof (induction n)
  case 0
  then show ?case by (simp add: pool_ok_def)
next
  case (Suc n)
  define m where "m = fold init_box [0..<n]
    \<lparr>boxes = [], freeSems = None, PrlSemLock = False, cells = (\<lambda>_. None :: 'a BufferQueueCell option)\<rparr>"
  from Suc have m: "length (boxes m) = n" "pool_ok m (rev [0..<n])" "cells m = (\<lambda>_. None)"
    by (simp_all add: m_def Let_def)
  then have "free_chain (boxes (init_box n m)) (freeSems m) (rev [0..<n])"
    by - (rule free_chain_frame [where bs = "boxes m"], auto simp: pool_ok_def init_box_def nth_append)
  with m have "pool_ok (init_box n m) (n # rev [0..<n])"
    by (auto simp: pool_ok_def init_box_def sem_count_def nth_append)
  then show ?case using m by (simp add: m_def [symmetric])
qed

lemma InitPrlSemas_pool: "pool_ok (InitPrlSemas :: 'a shmem) (rev [0..<MaxPrlSems])"
  using init_boxes [where ?'a = 'a, of MaxPrlSems] by (simp add: InitPrlSemas_def Let_def)

lemma take_sem_pool:
  assumes "free_chain (boxes m) (freeSems m) (i # fs)"
  shows "take_sem m = (Inr i, m\<lparr>freeSems := links_next (boxes m ! i)\<rparr>)"
    and "free_chain (boxes m) (links_next (boxes m ! i)) fs"
  using assms by (auto simp: take_sem_def elim: free_chain_ConsE split: option.splits)

lemma take_sem_none: "free_chain (boxes m) (freeSems m) [] \<Longrightarrow> fst (take_sem m) =
    Inl (FATAL ''sorry, too many semaphores used already in parallel execution'') \<and> snd (take_sem m) = m"
  by (cases "freeSems m") (auto simp: take_sem_def)

lemma take_sems_pool:
  assumes "free_chain (boxes m) (freeSems m) (sp # it # mu # fs)"
  shows "\<exists>p. take_sems m = (Inr (sp, it, mu), m\<lparr>freeSems := p\<rparr>) \<and> free_chain (boxes m) p fs"
proof -
  note a = take_sem_pool [OF assms]
  define m1 where "m1 = m\<lparr>freeSems := links_next (boxes m ! sp)\<rparr>"
  note b = take_sem_pool [of m1 it "mu # fs"]
  define m2 where "m2 = m1\<lparr>freeSems := links_next (boxes m1 ! it)\<rparr>"
  note c = take_sem_pool [of m2 mu fs]
  show ?thesis using a b c by (auto simp: take_sems_def m1_def m2_def)
qed

text \<open>With fewer than three free boxes the routine fails, and the spin lock stays taken.\<close>

lemma take_sems_short:
  assumes "free_chain (boxes m) (freeSems m) fs" and "length fs < 3"
  shows "\<exists>p. take_sems m =
    (Inl (FATAL ''sorry, too many semaphores used already in parallel execution''), m\<lparr>freeSems := p\<rparr>)"
proof -
  have step: "take_sem m = (Inl (FATAL ''sorry, too many semaphores used already in parallel execution''), m)
      \<and> fs = [] \<or> (\<exists>i gs. fs = i # gs \<and> take_sem m = (Inr i, m\<lparr>freeSems := links_next (boxes m ! i)\<rparr>) \<and>
         free_chain (boxes m) (links_next (boxes m ! i)) gs)"
    if "free_chain (boxes m) (freeSems m) fs" for m :: "'a shmem" and fs
    using that take_sem_none [of m] take_sem_pool [of m] by (cases fs) (auto simp: prod_eq_iff)
  from step [OF assms(1)] show ?thesis
  proof (elim disjE exE conjE)
    assume "take_sem m = (Inl (FATAL ''sorry, too many semaphores used already in parallel execution''), m)"
    then have "take_sems m = (Inl (FATAL ''sorry, too many semaphores used already in parallel execution''), m\<lparr>freeSems := freeSems m\<rparr>)"
      by (simp add: take_sems_def)
    then show ?thesis by blast
  next
    fix i gs assume i: "fs = i # gs" "take_sem m = (Inr i, m\<lparr>freeSems := links_next (boxes m ! i)\<rparr>)"
      "free_chain (boxes m) (links_next (boxes m ! i)) gs"
    define m1 where "m1 = m\<lparr>freeSems := links_next (boxes m ! i)\<rparr>"
    from i have "free_chain (boxes m1) (freeSems m1) gs" by (simp add: m1_def)
    from step [OF this] show ?thesis
    proof (elim disjE exE conjE)
      assume "take_sem m1 = (Inl (FATAL ''sorry, too many semaphores used already in parallel execution''), m1)"
      with i show ?thesis by (auto simp: take_sems_def m1_def)
    next
      fix j hs assume j: "gs = j # hs" "take_sem m1 = (Inr j, m1\<lparr>freeSems := links_next (boxes m1 ! j)\<rparr>)"
        "free_chain (boxes m1) (links_next (boxes m1 ! j)) hs"
      with assms(2) i have "hs = []" by simp
      with j step [of "m1\<lparr>freeSems := links_next (boxes m1 ! j)\<rparr>" hs] i show ?thesis
        by (auto simp: take_sems_def m1_def)
    qed
  qed
qed

section \<open>Creating and destroying a queue\<close>

text \<open>What a new queue looks like, and what is left in the pool.\<close>

lemma createBufferQueue_ok:
  assumes pool: "pool_ok m (sp # it # mu # fs)"
  shows "\<exists>m'. createBufferQueue n m =
      Some (Inr \<lparr>head = None, tail = None, items = it, spaces = sp, mutex = mu, init_size = n,
                 bq_size = 0, stop = False\<rparr>, m') \<and>
    pool_ok m' fs \<and> cells m' = cells m \<and> length (boxes m') = length (boxes m) \<and>
    (\<forall>i. sem_count m' i = (if i = sp then 1 + nat (n - 1) else if i = it then 0 else sem_count m i))"
proof -
  define m0 where "m0 = m\<lparr>PrlSemLock := True\<rparr>"
  from pool have c: "free_chain (boxes m0) (freeSems m0) (sp # it # mu # fs)" and "\<not> PrlSemLock m"
    and d: "distinct (sp # it # mu # fs)" and one: "\<forall>i\<in>set (sp # it # mu # fs). sem_count m i = 1"
    by (auto simp: pool_ok_def m0_def)
  then have acq: "lock_pool m = Inr m0" by (simp add: m0_def)
  from take_sems_pool [OF c] obtain p where p: "take_sems m0 = (Inr (sp, it, mu), m0\<lparr>freeSems := p\<rparr>)"
    "free_chain (boxes m0) p fs" by blast
  define m1 where "m1 = unlock_pool (m0\<lparr>freeSems := p\<rparr>)"
  have m1: "boxes m1 = boxes m" "cells m1 = cells m" "freeSems m1 = p" "\<not> PrlSemLock m1"
      "sem_count m1 = sem_count m"
    by (auto simp: m1_def m0_def unlock_pool_simp sem_count_def)
  have len: "sp < length (boxes m1)" "it < length (boxes m1)" "mu < length (boxes m1)"
    using free_chain_bound [OF c] by (auto simp: m0_def m1)
  define m2 where "m2 = set_sem sp (sem_count m1 sp + nat (n - 1)) m1"
  have m2: "(PGSemaphoreUnlock sp ^^ nat (n - 1)) m1 = m2" using unlock_times [OF len(1)] by (simp add: m2_def)
  have "sem_count m2 it = 1" using len d one by (auto simp: m2_def sem_simps m1)
  then have lock: "PGSemaphoreLock it m2 = Some (set_sem it 0 m2)" by (simp add: PGSemaphoreLock_def)
  have "free_chain (boxes (set_sem it 0 m2)) p fs"
    using p(2) by (rule free_chain_frame) (auto simp: m2_def sem_simps m0_def m1)
  then have "pool_ok (set_sem it 0 m2) fs"
    using d one len m1 by (auto simp: pool_ok_def m2_def sem_simps)
  moreover have "createBufferQueue n m =
      Some (Inr \<lparr>head = None, tail = None, items = it, spaces = sp, mutex = mu, init_size = n,
                 bq_size = 0, stop = False\<rparr>, set_sem it 0 m2)"
    by (simp add: createBufferQueue_def acq p m1_def [symmetric] m2 lock)
  ultimately show ?thesis using len d one m1
    by (intro exI [of _ "set_sem it 0 m2"]) (auto simp: m2_def sem_simps)
qed

lemma give_sem_pool:
  assumes "free_chain (boxes m) (freeSems m) fs" and "i < length (boxes m)" and "i \<notin> set fs"
  shows "free_chain (boxes (give_sem i m)) (freeSems (give_sem i m)) (i # fs)"
proof -
  have "free_chain (boxes (give_sem i m)) (freeSems m) fs"
    using assms(1) by (rule free_chain_frame) (use assms(2,3) in \<open>auto simp: give_sem_def nth_list_update\<close>)
  then show ?thesis using assms(2) by (simp add: give_sem_def)
qed

lemma give_sem_fields [sem_simps]:
  "sem_count (give_sem i m) j = sem_count m j" "cells (give_sem i m) = cells m"
  "PrlSemLock (give_sem i m) = PrlSemLock m" "length (boxes (give_sem i m)) = length (boxes m)"
  by (cases "i < length (boxes m)"; auto simp: give_sem_def sem_count_def nth_list_update list_update_beyond)+

text \<open>Destroying a queue renews its three boxes and frees them.\<close>

lemma destroyBufferQueue_ok:
  assumes pool: "pool_ok m fs"
    and own: "distinct (spaces bq # mutex bq # items bq # fs)"
    and len: "spaces bq < length (boxes m)" "mutex bq < length (boxes m)" "items bq < length (boxes m)"
  shows "\<exists>m'. destroyBufferQueue bq m = (Inr (head bq \<noteq> None), m') \<and>
    pool_ok m' (spaces bq # mutex bq # items bq # fs) \<and> cells m' = cells m \<and>
    length (boxes m') = length (boxes m)"
proof -
  define m1 where "m1 = set_sem (spaces bq) 1 (set_sem (mutex bq) 1 (set_sem (items bq) 1 m))"
  have "renew_sem (spaces bq) (renew_sem (mutex bq) (renew_sem (items bq) m)) = m1"
    using len by (simp add: renew_sem_set sem_simps m1_def)
  moreover have chain: "free_chain (boxes m1) (freeSems m1) fs"
    using pool by (auto simp: pool_ok_def m1_def sem_simps intro: free_chain_frame)
  have cnt: "\<forall>i\<in>set (spaces bq # mutex bq # items bq # fs). sem_count m1 i = 1"
    using pool len own by (auto simp: pool_ok_def m1_def sem_simps)
  define m2 where "m2 = m1\<lparr>PrlSemLock := True\<rparr>"
  have "lock_pool m1 = Inr m2"
    using pool by (simp add: pool_ok_def m1_def m2_def sem_simps)
  moreover define m3 where "m3 = give_sem (spaces bq) (give_sem (mutex bq) (give_sem (items bq) m2))"
  have "free_chain (boxes m3) (freeSems m3) (spaces bq # mutex bq # items bq # fs)"
    unfolding m3_def using chain own len
    by (intro give_sem_pool) (auto simp: m2_def m1_def sem_simps)
  then have "pool_ok (unlock_pool m3) (spaces bq # mutex bq # items bq # fs)"
    using own cnt by (auto simp: pool_ok_def unlock_pool_simp m3_def m2_def sem_simps)
  ultimately have "destroyBufferQueue bq m = (Inr (head bq \<noteq> None), unlock_pool m3)"
    "pool_ok (unlock_pool m3) (spaces bq # mutex bq # items bq # fs)"
    by (simp_all add: destroyBufferQueue_def m3_def [symmetric])
  moreover have "cells (unlock_pool m3) = cells m" "length (boxes (unlock_pool m3)) = length (boxes m)"
    by (simp_all add: unlock_pool_simp m3_def m2_def m1_def sem_simps)
  ultimately show ?thesis by blast
qed

section \<open>Properties\<close>

text \<open>
  C32: A queue can be created whenever three semaphores are free, and destroying it gives
  the pool back as it was: the same semaphores are free, each with count one, the lock of
  the free list is released, and no queue cell has been touched.
\<close>

theorem create_destroy:
  assumes "pool_ok m fs" and "3 \<le> length fs"
  shows "\<exists>bq m1 m2 fs'. createBufferQueue n m = Some (Inr bq, m1) \<and>
    destroyBufferQueue bq m1 = (Inr False, m2) \<and> pool_ok m2 fs' \<and> set fs' = set fs \<and>
    length fs' = length fs \<and> cells m2 = cells m"
proof -
  obtain sp it mu gs where fs: "fs = sp # it # mu # gs"
    using assms(2) by (auto simp: numeral_eq_Suc Suc_le_length_iff)
  define bq where "bq = \<lparr>head = None, tail = None, items = it, spaces = sp, mutex = mu, init_size = n,
                 bq_size = 0, stop = False\<rparr>"
  from createBufferQueue_ok [OF assms(1) [unfolded fs], of n] obtain m1
    where m1: "createBufferQueue n m = Some (Inr bq, m1)" "pool_ok m1 gs" "cells m1 = cells m"
      "length (boxes m1) = length (boxes m)" by (auto simp: bq_def)
  have own: "distinct (spaces bq # mutex bq # items bq # gs)" "sp < length (boxes m)" "it < length (boxes m)"
      "mu < length (boxes m)"
    using assms(1) free_chain_bound [of "boxes m" "freeSems m" fs]
    by (auto simp: fs bq_def pool_ok_def simp del: free_chain.simps)
  from destroyBufferQueue_ok [OF m1(2) own(1)] own m1
  obtain m2 where "destroyBufferQueue bq m1 = (Inr False, m2)" "cells m2 = cells m1"
      "pool_ok m2 (spaces bq # mutex bq # items bq # gs)" by (auto simp: bq_def)
  with m1 show ?thesis by (intro exI [of _ bq] exI [of _ m1] exI [of _ m2] exI conjI) (auto simp: fs bq_def)
qed

theorem create_destroy_witness:
  "\<exists>bq m1 m2 fs'. createBufferQueue 1000 (InitPrlSemas :: nat shmem) = Some (Inr bq, m1) \<and>
    destroyBufferQueue bq m1 = (Inr False, m2) \<and> pool_ok m2 fs' \<and>
    set fs' = set (rev [0..<MaxPrlSems]) \<and> length fs' = length (rev [0..<MaxPrlSems]) \<and>
    cells m2 = cells (InitPrlSemas :: nat shmem)"
  by (rule create_destroy [OF InitPrlSemas_pool]) (simp add: MaxPrlSems_def)

text \<open>Nothing gets past the lock of the pool once it is left taken.\<close>

lemma locked_pool:
  assumes "PrlSemLock m"
  shows "createBufferQueue n m = Some (Inl s_lock_stuck, m)"
    "fst (destroyBufferQueue bq m) = Inl s_lock_stuck \<and> PrlSemLock (snd (destroyBufferQueue bq m))"
proof -
  show "createBufferQueue n m = Some (Inl s_lock_stuck, m)" using assms by (simp add: createBufferQueue_def)
  have "PrlSemLock (renew_sem i m')" if "PrlSemLock m'" for i and m' :: "'a shmem"
    using that by (simp add: renew_sem_def PGSemaphoreUnlock_def PGSemaphoreReset_def sem_simps)
  then show "fst (destroyBufferQueue bq m) = Inl s_lock_stuck \<and> PrlSemLock (snd (destroyBufferQueue bq m))"
    using assms by (simp add: destroyBufferQueue_def)
qed

text \<open>
  C33: with fewer than three free semaphores the creation of a queue fails with a fatal
  error raised while the lock of the free list is held: the lock stays taken in shared
  memory, and whoever creates or destroys a queue afterwards brings the server down with a
  stuck spin lock, which leaves the lock taken.
\<close>

theorem create_exhausted:
  assumes "pool_ok m fs" and "length fs < 3"
  shows "\<exists>m'. createBufferQueue n m =
      Some (Inl (FATAL ''sorry, too many semaphores used already in parallel execution''), m') \<and>
    PrlSemLock m' \<and> createBufferQueue k m' = Some (Inl (PANIC ''stuck spinlock detected''), m') \<and>
    fst (destroyBufferQueue bq m') = Inl (PANIC ''stuck spinlock detected'') \<and> PrlSemLock (snd (destroyBufferQueue bq m'))"
proof -
  define m0 where "m0 = m\<lparr>PrlSemLock := True\<rparr>"
  from assms have "free_chain (boxes m0) (freeSems m0) fs" "lock_pool m = Inr m0"
    by (auto simp: m0_def pool_ok_def)
  with take_sems_short [of m0 fs] assms(2) obtain p where new: "createBufferQueue n m =
      Some (Inl (FATAL ''sorry, too many semaphores used already in parallel execution''), m0\<lparr>freeSems := p\<rparr>)"
    by (auto simp: createBufferQueue_def)
  have "PrlSemLock (m0\<lparr>freeSems := p\<rparr>)" by (simp add: m0_def)
  with new locked_pool [OF this] show ?thesis by (auto simp: s_lock_stuck_def)
qed

theorem create_exhausted_witness:
  "\<exists>m'. createBufferQueue 10 \<lparr>boxes = [\<lparr>links_next = None, sem = 1\<rparr>], freeSems = Some 0, PrlSemLock = False,
       cells = (\<lambda>_. None :: nat BufferQueueCell option)\<rparr> =
      Some (Inl (FATAL ''sorry, too many semaphores used already in parallel execution''), m') \<and>
    PrlSemLock m' \<and> createBufferQueue 10 m' = Some (Inl (PANIC ''stuck spinlock detected''), m')"
  using create_exhausted [of "\<lparr>boxes = [\<lparr>links_next = None, sem = 1\<rparr>], freeSems = Some 0, PrlSemLock = False,
       cells = (\<lambda>_. None :: nat BufferQueueCell option)\<rparr>" "[0]" 10 10]
  by (auto simp: pool_ok_def sem_count_def)

end
