(* ===== verification/BufferQueue.thy ===== *)
theory BufferQueue
  imports SemPool
begin

text \<open>
  The bounded queue between a master and its workers (\<^verbatim>\<open>bufferQueueAdd\<close>,
  \<^verbatim>\<open>bufferQueueGet\<close>, \<^verbatim>\<open>bufferQueueSetStop\<close>, \<^verbatim>\<open>bufferQueueGetNoSem\<close> of
  \<^verbatim>\<open>backend/storage/lmgr/parallel.c\<close>), at the grain of its semaphore operations. A
  routine is a program counter and a step on shared memory; the code between taking and
  releasing the mutex is one step. Any number of processes run the routines in any
  interleaving. The invariant gives mutual exclusion, the order of the cells, the
  capacity, the ownership of every cell, and that no process ever finds the queue
  empty after it has taken an item.
\<close>

section \<open>The linked list\<close>

definition set_next :: "nat \<Rightarrow> nat option \<Rightarrow> (nat \<Rightarrow> 'a BufferQueueCell option) \<Rightarrow> nat \<Rightarrow> 'a BufferQueueCell option" where
  "set_next a p cs = cs(a := map_option (\<lambda>c. c\<lparr>cell_next := p\<rparr>) (cs a))"

definition bq_link :: "nat \<Rightarrow> BufferQueue \<Rightarrow> (nat \<Rightarrow> 'a BufferQueueCell option) \<Rightarrow>
    BufferQueue \<times> (nat \<Rightarrow> 'a BufferQueueCell option)" where
  "bq_link cell bq cs = (case tail bq of
       None \<Rightarrow> (bq\<lparr>head := Some cell, tail := Some cell\<rparr>, set_next cell None cs)
     | Some t \<Rightarrow>
         if head bq = tail bq
         then (bq\<lparr>tail := Some cell\<rparr>, set_next cell None (set_next (the (head bq)) (Some cell) cs))
         else (bq\<lparr>tail := Some cell\<rparr>, set_next cell None (set_next t (Some cell) cs)))"

text \<open>Taking the first cell off, in \<^verbatim>\<open>bufferQueueGet\<close>.\<close>

definition bq_unlink :: "nat \<Rightarrow> BufferQueue \<Rightarrow> (nat \<Rightarrow> 'a BufferQueueCell option) \<Rightarrow> BufferQueue" where
  "bq_unlink a bq cs =
     (let bq = bq\<lparr>head := cell_next (the (cs a))\<rparr>;
          bq = (if cell_next (the (cs a)) = None then bq\<lparr>tail := None\<rparr> else bq)
      in bq\<lparr>bq_size := bq_size bq - 1\<rparr>)"

definition bufferQueueGetNoSem :: "BufferQueue \<Rightarrow> (nat \<Rightarrow> 'a BufferQueueCell option) \<Rightarrow> nat option \<times> BufferQueue" where
  "bufferQueueGetNoSem bq cs = (case head bq of
       None \<Rightarrow> (None, bq)
     | Some a \<Rightarrow> (Some a, bq\<lparr>head := cell_next (the (cs a))\<rparr>))"

section \<open>The routines\<close>

datatype add_pc = AddSpaces | AddMutex | AddCell | AddPost bool | AddItems bool

datatype get_pc = TryMutex | TryLook | TryLeave bool
  | GetItems | GetMutex | GetCell | GetPost nat | GetSpaces nat | GetHolding

datatype stop_pc = StopMutex | StopSet | StopPost bool

text \<open>A process: outside the queue's routines, inside one, or just returned from one.\<close>

datatype thread = Idle
  | Adding nat bool add_pc | Added bool
  | Getting get_pc | Got "nat option"
  | Stopping bool stop_pc | Stopped bool

text \<open>The critical section of \<^verbatim>\<open>bufferQueueAdd\<close>.\<close>

definition add_cell :: "nat \<Rightarrow> bool \<Rightarrow> BufferQueue \<Rightarrow> 'a shmem \<Rightarrow> bool \<times> BufferQueue \<times> 'a shmem" where
  "add_cell cell stopOnLast bq m =
     (let bq = bq\<lparr>bq_size := bq_size bq + 1\<rparr>;
          (bq, cs) = bq_link cell bq (cells m);
          bq = (if stopOnLast \<and> cell_last (the (cs cell)) then bq\<lparr>stop := True\<rparr> else bq)
      in (stop bq, bq, m\<lparr>cells := cs\<rparr>))"

fun bufferQueueAdd :: "nat \<Rightarrow> bool \<Rightarrow> add_pc \<Rightarrow> BufferQueue \<Rightarrow> 'a shmem \<Rightarrow> (thread \<times> BufferQueue \<times> 'a shmem) option" where
  "bufferQueueAdd cell sol AddSpaces bq m =
     map_option (\<lambda>m. (Adding cell sol AddMutex, bq, m)) (PGSemaphoreLock (spaces bq) m)"
| "bufferQueueAdd cell sol AddMutex bq m =
     map_option (\<lambda>m. (Adding cell sol AddCell, bq, m)) (PGSemaphoreLock (mutex bq) m)"
| "bufferQueueAdd cell sol AddCell bq m =
     (case add_cell cell sol bq m of (result, bq, m) \<Rightarrow> Some (Adding cell sol (AddPost result), bq, m))"
| "bufferQueueAdd cell sol (AddPost result) bq m =
     Some (Adding cell sol (AddItems result), bq, PGSemaphoreUnlock (mutex bq) m)"
| "bufferQueueAdd cell sol (AddItems result) bq m =
     Some (Added result, bq, PGSemaphoreUnlock (items bq) m)"

text \<open>
  \<^verbatim>\<open>bufferQueueGet\<close>: with \<^verbatim>\<open>wait\<close> it starts at \<open>GetItems\<close>, without at
  \<open>TryMutex\<close>. \<open>GetHolding\<close> is the early return that finds the queue empty and does
  not release the mutex.
\<close>

fun bufferQueueGet :: "get_pc \<Rightarrow> BufferQueue \<Rightarrow> 'a shmem \<Rightarrow> (thread \<times> BufferQueue \<times> 'a shmem) option" where
  "bufferQueueGet TryMutex bq m =
     map_option (\<lambda>m. (Getting TryLook, bq, m)) (PGSemaphoreLock (mutex bq) m)"
| "bufferQueueGet TryLook bq m = Some (Getting (TryLeave (bq_size bq = 0)), bq, m)"
| "bufferQueueGet (TryLeave nothing) bq m =
     Some (if nothing then Got None else Getting GetItems, bq, PGSemaphoreUnlock (mutex bq) m)"
| "bufferQueueGet GetItems bq m =
     map_option (\<lambda>m. (Getting GetMutex, bq, m)) (PGSemaphoreLock (items bq) m)"
| "bufferQueueGet GetMutex bq m =
     map_option (\<lambda>m. (Getting GetCell, bq, m)) (PGSemaphoreLock (mutex bq) m)"
| "bufferQueueGet GetCell bq m = (case head bq of
       None \<Rightarrow> Some (Getting GetHolding, bq, m)
     | Some a \<Rightarrow> Some (Getting (GetPost a), bq_unlink a bq (cells m), m))"
| "bufferQueueGet (GetPost a) bq m =
     Some (Getting (GetSpaces a), bq, PGSemaphoreUnlock (mutex bq) m)"
| "bufferQueueGet (GetSpaces a) bq m = Some (Got (Some a), bq, PGSemaphoreUnlock (spaces bq) m)"
| "bufferQueueGet GetHolding bq m = Some (Got None, bq, m)"

fun bufferQueueSetStop :: "bool \<Rightarrow> stop_pc \<Rightarrow> BufferQueue \<Rightarrow> 'a shmem \<Rightarrow> (thread \<times> BufferQueue \<times> 'a shmem) option" where
  "bufferQueueSetStop newStop StopMutex bq m =
     map_option (\<lambda>m. (Stopping newStop StopSet, bq, m)) (PGSemaphoreLock (mutex bq) m)"
| "bufferQueueSetStop newStop StopSet bq m =
     Some (Stopping newStop (StopPost (stop bq)), bq\<lparr>stop := newStop\<rparr>, m)"
| "bufferQueueSetStop newStop (StopPost result) bq m =
     Some (Stopped result, bq, PGSemaphoreUnlock (mutex bq) m)"

section \<open>Interleaving\<close>

text \<open>
  Processes over one queue. \<open>sent\<close> and \<open>received\<close> record what has been linked in
  and taken off, in order; the end mark of a sender is \<open>None\<close>.
\<close>

record 'a queue_system =
  threads :: "thread list"
  bq :: BufferQueue
  mem :: "'a shmem"
  sent :: "'a option list"
  received :: "'a option list"

definition cell_item :: "(nat \<Rightarrow> 'a BufferQueueCell option) \<Rightarrow> nat \<Rightarrow> 'a option" where
  "cell_item cs a = (if cell_last (the (cs a)) then None else Some (ptr_value (the (cs a))))"

fun thread_step :: "thread \<Rightarrow> BufferQueue \<Rightarrow> 'a shmem \<Rightarrow> (thread \<times> BufferQueue \<times> 'a shmem) option" where
  "thread_step (Adding cell sol pc) q m = bufferQueueAdd cell sol pc q m"
| "thread_step (Getting pc) q m = bufferQueueGet pc q m"
| "thread_step (Stopping b pc) q m = bufferQueueSetStop b pc q m"
| "thread_step _ q m = None"

fun log_sent :: "thread \<Rightarrow> 'a shmem \<Rightarrow> 'a option list" where
  "log_sent (Adding cell sol AddCell) m = [cell_item (cells m) cell]"
| "log_sent _ m = []"

fun log_received :: "thread \<Rightarrow> BufferQueue \<Rightarrow> 'a shmem \<Rightarrow> 'a option list" where
  "log_received (Getting GetCell) q m = (case head q of None \<Rightarrow> [] | Some a \<Rightarrow> [cell_item (cells m) a])"
| "log_received _ q m = []"

text \<open>One step of process \<open>i\<close> inside a routine; \<open>None\<close> when it has to wait.\<close>

definition act :: "nat \<Rightarrow> 'a queue_system \<Rightarrow> 'a queue_system option" where
  "act i s =
     map_option (\<lambda>(t, q, m). \<lparr>threads = (threads s)[i := t], bq = q, mem = m,
         sent = sent s @ log_sent (threads s ! i) (mem s),
         received = received s @ log_received (threads s ! i) (bq s) (mem s)\<rparr>)
       (thread_step (threads s ! i) (bq s) (mem s))"

text \<open>
  A process outside the routines calls one: to add, it has allocated and filled a cell.
  A process that has received a cell reads it and frees it.
\<close>

inductive system_step :: "'a queue_system \<Rightarrow> 'a queue_system \<Rightarrow> bool" where
  call_add: "i < length (threads s) \<Longrightarrow> threads s ! i = Idle \<Longrightarrow> cells (mem s) a = None \<Longrightarrow>
     system_step s (s\<lparr>threads := (threads s)[i := Adding a sol AddSpaces],
                      mem := (mem s)\<lparr>cells := (cells (mem s))(a := Some c)\<rparr>\<rparr>)"
| call_get: "i < length (threads s) \<Longrightarrow> threads s ! i = Idle \<Longrightarrow>
     system_step s (s\<lparr>threads := (threads s)[i := Getting (if wt then GetItems else TryMutex)]\<rparr>)"
| call_stop: "i < length (threads s) \<Longrightarrow> threads s ! i = Idle \<Longrightarrow>
     system_step s (s\<lparr>threads := (threads s)[i := Stopping b StopMutex]\<rparr>)"
| acts: "i < length (threads s) \<Longrightarrow> act i s = Some s' \<Longrightarrow> system_step s s'"
| return_add: "i < length (threads s) \<Longrightarrow> threads s ! i = Added b \<Longrightarrow>
     system_step s (s\<lparr>threads := (threads s)[i := Idle]\<rparr>)"
| return_stop: "i < length (threads s) \<Longrightarrow> threads s ! i = Stopped b \<Longrightarrow>
     system_step s (s\<lparr>threads := (threads s)[i := Idle]\<rparr>)"
| return_none: "i < length (threads s) \<Longrightarrow> threads s ! i = Got None \<Longrightarrow>
     system_step s (s\<lparr>threads := (threads s)[i := Idle]\<rparr>)"
| return_cell: "i < length (threads s) \<Longrightarrow> threads s ! i = Got (Some a) \<Longrightarrow>
     system_step s (s\<lparr>threads := (threads s)[i := Idle],
                      mem := (mem s)\<lparr>cells := (cells (mem s))(a := None)\<rparr>\<rparr>)"

text \<open>The start: \<open>n\<close> idle processes and a queue just created.\<close>

definition start_system :: "nat \<Rightarrow> BufferQueue \<Rightarrow> 'a shmem \<Rightarrow> 'a queue_system" where
  "start_system n q m = \<lparr>threads = replicate n Idle, bq = q, mem = m, sent = [], received = []\<rparr>"

section \<open>Weights\<close>

text \<open>
  What a process holds: the mutex, a space it has taken and not yet filled or given
  back, an item it has taken and not removed or has added and not posted, and a cell.
\<close>

fun w_mutex :: "thread \<Rightarrow> int" where
  "w_mutex (Adding cell sol AddCell) = 1"
| "w_mutex (Adding cell sol (AddPost r)) = 1"
| "w_mutex (Getting TryLook) = 1"
| "w_mutex (Getting (TryLeave e)) = 1"
| "w_mutex (Getting GetCell) = 1"
| "w_mutex (Getting (GetPost a)) = 1"
| "w_mutex (Getting GetHolding) = 1"
| "w_mutex (Stopping b StopSet) = 1"
| "w_mutex (Stopping b (StopPost r)) = 1"
| "w_mutex _ = 0"

fun w_space :: "thread \<Rightarrow> int" where
  "w_space (Adding cell sol AddMutex) = 1"
| "w_space (Adding cell sol AddCell) = 1"
| "w_space (Getting (GetPost a)) = 1"
| "w_space (Getting (GetSpaces a)) = 1"
| "w_space _ = 0"

fun w_item :: "thread \<Rightarrow> int" where
  "w_item (Adding cell sol (AddPost r)) = 1"
| "w_item (Adding cell sol (AddItems r)) = 1"
| "w_item (Getting GetMutex) = 1"
| "w_item (Getting GetCell) = 1"
| "w_item _ = 0"

fun holds :: "thread \<Rightarrow> nat option" where
  "holds (Adding cell sol AddSpaces) = Some cell"
| "holds (Adding cell sol AddMutex) = Some cell"
| "holds (Adding cell sol AddCell) = Some cell"
| "holds (Getting (GetPost a)) = Some a"
| "holds (Getting (GetSpaces a)) = Some a"
| "holds (Got p) = p"
| "holds _ = None"

definition w_own :: "nat \<Rightarrow> thread \<Rightarrow> int" where
  "w_own a t = (if holds t = Some a then 1 else 0)"

definition wsum :: "('t \<Rightarrow> int) \<Rightarrow> 't list \<Rightarrow> int" where
  "wsum w ts = sum_list (map w ts)"

lemma wsum_update: "i < length ts \<Longrightarrow> wsum w (ts[i := t]) = wsum w ts - w (ts ! i) + w t"
proof (induction ts arbitrary: i)
  case (Cons u ts)
  then show ?case by (cases i) (simp_all add: wsum_def)
qed simp

lemma wsum_nonneg: "(\<And>t. 0 \<le> w t) \<Longrightarrow> 0 \<le> wsum w ts"
  by (induction ts) (simp_all add: wsum_def)

lemma wsum_member: "(\<And>t. 0 \<le> w t) \<Longrightarrow> i < length ts \<Longrightarrow> w (ts ! i) \<le> wsum w ts"
proof (induction ts arbitrary: i)
  case (Cons u ts)
  then show ?case using wsum_nonneg [of w ts] by (cases i) (auto simp: wsum_def add_increasing)
qed simp

lemma wsum_pos_ex: "0 < wsum w ts \<Longrightarrow> \<exists>t\<in>set ts. 0 < w t"
proof (induction ts)
  case (Cons u ts)
  then show ?case by (cases "0 < w u") (auto simp: wsum_def)
qed (simp add: wsum_def)

lemma wsum_zero: "(\<And>t. t \<in> set ts \<Longrightarrow> w t = 0) \<Longrightarrow> wsum w ts = 0"
  by (induction ts) (auto simp: wsum_def)

lemma w_nonneg [simp]: "0 \<le> w_mutex t" "0 \<le> w_space t" "0 \<le> w_item t" "0 \<le> w_own a t"
proof -
  show "0 \<le> w_mutex t" by (cases t rule: w_mutex.cases) simp_all
  show "0 \<le> w_space t" by (cases t rule: w_space.cases) simp_all
  show "0 \<le> w_item t" by (cases t rule: w_item.cases) simp_all
  show "0 \<le> w_own a t" by (simp add: w_own_def)
qed

section \<open>The invariant\<close>

fun chained :: "(nat \<Rightarrow> 'a BufferQueueCell option) \<Rightarrow> nat list \<Rightarrow> bool" where
  "chained cs [] = True"
| "chained cs [a] = (\<exists>c. cs a = Some c \<and> cell_next c = None)"
| "chained cs (a # b # xs) = ((\<exists>c. cs a = Some c \<and> cell_next c = Some b) \<and> chained cs (b # xs))"

definition queue_rep :: "BufferQueue \<Rightarrow> (nat \<Rightarrow> 'a BufferQueueCell option) \<Rightarrow> nat list \<Rightarrow> bool" where
  "queue_rep q cs xs \<longleftrightarrow> chained cs xs \<and> distinct xs \<and>
     head q = (if xs = [] then None else Some (hd xs)) \<and>
     tail q = (if xs = [] then None else Some (last xs)) \<and> bq_size q = int (length xs)"

definition sems_ok :: "thread list \<Rightarrow> BufferQueue \<Rightarrow> 'a shmem \<Rightarrow> int \<Rightarrow> bool" where
  "sems_ok ts q m n \<longleftrightarrow>
     distinct [items q, spaces q, mutex q] \<and> items q < length (boxes m) \<and>
     spaces q < length (boxes m) \<and> mutex q < length (boxes m) \<and>
     int (sem_count m (mutex q)) + wsum w_mutex ts = 1 \<and>
     int (sem_count m (spaces q)) + n + wsum w_space ts = init_size q \<and>
     int (sem_count m (items q)) + wsum w_item ts = n"

definition cells_ok :: "thread list \<Rightarrow> 'a shmem \<Rightarrow> nat list \<Rightarrow> bool" where
  "cells_ok ts m xs \<longleftrightarrow>
     (\<forall>a. (if a \<in> set xs then 1 else 0) + wsum (w_own a) ts = (if cells m a = None then 0 else 1))"

definition queue_inv :: "'a queue_system \<Rightarrow> nat list \<Rightarrow> bool" where
  "queue_inv s xs \<longleftrightarrow> queue_rep (bq s) (cells (mem s)) xs \<and> Getting GetHolding \<notin> set (threads s) \<and>
     sems_ok (threads s) (bq s) (mem s) (int (length xs)) \<and> cells_ok (threads s) (mem s) xs \<and>
     sent s = received s @ map (cell_item (cells (mem s))) xs"

definition mark :: "bool \<Rightarrow> int" where
  "mark b = (if b then 1 else 0)"

lemma cells_ok_update:
  assumes "cells_ok ts m xs" and "i < length ts"
    and "\<And>b. mark (b \<in> set ys) + w_own b t + mark (cells m b \<noteq> None) =
             mark (b \<in> set xs) + w_own b (ts ! i) + mark (cells m' b \<noteq> None)"
  shows "cells_ok (ts[i := t]) m' ys"
  unfolding cells_ok_def
proof
  fix b
  have "mark (b \<in> set xs) + wsum (w_own b) ts = mark (cells m b \<noteq> None)"
    using assms(1) by (simp add: cells_ok_def mark_def)
  with assms(3) [of b] have "mark (b \<in> set ys) + wsum (w_own b) (ts[i := t]) = mark (cells m' b \<noteq> None)"
    by (simp add: wsum_update [OF assms(2)])
  then show "(if b \<in> set ys then 1 else 0) + wsum (w_own b) (ts[i := t]) = (if cells m' b = None then 0 else 1)"
    by (simp add: mark_def split: if_splits)
qed

subsection \<open>The list operations\<close>

lemma chained_mem: "chained cs xs \<Longrightarrow> a \<in> set xs \<Longrightarrow> cs a \<noteq> None"
  by (induction cs xs rule: chained.induct) auto

lemma chained_frame: "chained cs xs \<Longrightarrow> (\<And>a. a \<in> set xs \<Longrightarrow> cs' a = cs a) \<Longrightarrow> chained cs' xs"
  by (induction cs xs rule: chained.induct) auto

lemma chained_snoc:
  "chained cs xs \<Longrightarrow> distinct xs \<Longrightarrow> a \<notin> set xs \<Longrightarrow> cs a = Some c \<Longrightarrow> xs \<noteq> [] \<Longrightarrow>
   chained (set_next a None (set_next (last xs) (Some a) cs)) (xs @ [a])"
proof (induction cs xs rule: chained.induct)
  case (2 cs b)
  then show ?case by (auto simp: set_next_def)
next
  case (3 cs b d xs)
  then have "last (d # xs) \<noteq> b" by (metis distinct.simps(2) last_in_set list.distinct(1))
  with 3 show ?case by (auto simp: set_next_def)
qed simp

lemma cell_item_set_next [simp]: "cell_item (set_next b p cs) a = cell_item cs a" if "cs a \<noteq> None"
  using that by (auto simp: cell_item_def set_next_def)

lemma set_next_None_iff [simp]: "set_next b p cs a = None \<longleftrightarrow> cs a = None"
  by (simp add: set_next_def)

lemma bq_link_rep:
  assumes rep: "queue_rep q cs xs" and new: "a \<notin> set xs" "cs a \<noteq> None"
    and link: "bq_link a (q\<lparr>bq_size := bq_size q + 1\<rparr>) cs = (q', cs')"
  shows "queue_rep q' cs' (xs @ [a])" and "\<And>b. cs' b = None \<longleftrightarrow> cs b = None"
    and "\<And>b. cs b \<noteq> None \<Longrightarrow> cell_item cs' b = cell_item cs b"
    and "q' = q\<lparr>head := head q', tail := tail q', bq_size := bq_size q'\<rparr>"
proof -
  from new obtain c where c: "cs a = Some c" by blast
  have all: "queue_rep q' cs' (xs @ [a]) \<and> (\<forall>b. cs' b = None \<longleftrightarrow> cs b = None) \<and>
      (\<forall>b. cs b \<noteq> None \<longrightarrow> cell_item cs' b = cell_item cs b) \<and>
      q' = q\<lparr>head := head q', tail := tail q', bq_size := bq_size q'\<rparr>"
  proof (cases "xs = []")
    case True
    then have "q' = q\<lparr>bq_size := bq_size q + 1, head := Some a, tail := Some a\<rparr>" "cs' = set_next a None cs"
      using rep link by (auto simp: queue_rep_def bq_link_def)
    moreover have "chained (set_next a None cs) [a]" using c by (simp add: set_next_def)
    ultimately show ?thesis using rep True by (simp add: queue_rep_def)
  next
    case False
    have hd: "head q = tail q \<Longrightarrow> hd xs = last xs" using rep False by (auto simp: queue_rep_def)
    have "q' = q\<lparr>bq_size := bq_size q + 1, tail := Some a\<rparr>"
      "cs' = set_next a None (set_next (last xs) (Some a) cs)"
      using rep False link hd by (auto simp: queue_rep_def bq_link_def split: if_splits)
    with rep False new chained_snoc [of cs xs a c] c show ?thesis
      by (auto simp: queue_rep_def)
  qed
  then show "queue_rep q' cs' (xs @ [a])" "\<And>b. cs' b = None \<longleftrightarrow> cs b = None"
    "\<And>b. cs b \<noteq> None \<Longrightarrow> cell_item cs' b = cell_item cs b"
    "q' = q\<lparr>head := head q', tail := tail q', bq_size := bq_size q'\<rparr>" by blast+
qed

lemma bq_unlink_rep:
  assumes rep: "queue_rep q cs (a # xs)"
  shows "queue_rep (bq_unlink a q cs) cs xs"
    and "bq_unlink a q cs = q\<lparr>head := head (bq_unlink a q cs), tail := tail (bq_unlink a q cs),
      bq_size := bq_size (bq_unlink a q cs)\<rparr>"
  using rep by (cases xs; auto simp: queue_rep_def bq_unlink_def Let_def)+

subsection \<open>Preservation\<close>

lemma lock_Some:
  "PGSemaphoreLock k m = Some m' \<longleftrightarrow> 0 < sem_count m k \<and> m' = set_sem k (sem_count m k - 1) m"
  by (auto simp: PGSemaphoreLock_def)

text \<open>A step that leaves the list alone and passes counts between semaphores and the process.\<close>

lemma queue_inv_frame:
  assumes inv: "queue_inv s xs" and i: "i < length (threads s)"
    and q: "q' = (bq s)\<lparr>stop := stop q'\<rparr>"
    and m: "cells m' = cells (mem s)" "length (boxes m') = length (boxes (mem s))"
    and mu: "int (sem_count m' (mutex (bq s))) + w_mutex t = int (sem_count (mem s) (mutex (bq s))) + w_mutex (threads s ! i)"
    and sp: "int (sem_count m' (spaces (bq s))) + w_space t = int (sem_count (mem s) (spaces (bq s))) + w_space (threads s ! i)"
    and it: "int (sem_count m' (items (bq s))) + w_item t = int (sem_count (mem s) (items (bq s))) + w_item (threads s ! i)"
    and own: "holds t = holds (threads s ! i)" and fine: "t \<noteq> Getting GetHolding"
  shows "queue_inv \<lparr>threads = (threads s)[i := t], bq = q', mem = m', sent = sent s, received = received s\<rparr> xs"
proof -
  have q': "head q' = head (bq s)" "tail q' = tail (bq s)" "bq_size q' = bq_size (bq s)"
    "items q' = items (bq s)" "spaces q' = spaces (bq s)" "mutex q' = mutex (bq s)" "init_size q' = init_size (bq s)"
    by (subst q, simp)+
  have "sems_ok ((threads s)[i := t]) q' m' (int (length xs))"
    using inv mu sp it i m by (simp add: queue_inv_def sems_ok_def q' wsum_update)
  moreover have "cells_ok ((threads s)[i := t]) m' xs"
    using inv own i m by (simp add: queue_inv_def cells_ok_def wsum_update w_own_def)
  moreover have "Getting GetHolding \<notin> set ((threads s)[i := t])"
    using inv fine set_update_subset_insert [of "threads s" i t] by (auto simp: queue_inv_def)
  ultimately show ?thesis using inv m by (simp add: queue_inv_def queue_rep_def q')
qed

lemma queue_inv_add_cell:
  assumes inv: "queue_inv s xs" and i: "i < length (threads s)" and t: "threads s ! i = Adding a sol AddCell"
    and add: "add_cell a sol (bq s) (mem s) = (r, q', m')"
  shows "queue_inv \<lparr>threads = (threads s)[i := Adding a sol (AddPost r)], bq = q', mem = m',
    sent = sent s @ [cell_item (cells (mem s)) a], received = received s\<rparr> (xs @ [a])"
proof -
  have rep: "queue_rep (bq s) (cells (mem s)) xs" and sems: "sems_ok (threads s) (bq s) (mem s) (int (length xs))"
    and cells: "cells_ok (threads s) (mem s) xs"
    and log: "sent s = received s @ map (cell_item (cells (mem s))) xs" using inv by (auto simp: queue_inv_def)
  have "1 \<le> wsum (w_own a) (threads s)" using wsum_member [of "w_own a" i "threads s"] i t by (simp add: w_own_def)
  with cells have a: "a \<notin> set xs" "cells (mem s) a \<noteq> None"
    unfolding cells_ok_def by (auto dest!: spec [of _ a] split: if_splits)
  obtain q1 cs where link: "bq_link a ((bq s)\<lparr>bq_size := bq_size (bq s) + 1\<rparr>) (cells (mem s)) = (q1, cs)" by fastforce
  note L = bq_link_rep [OF rep a link]
  have m': "m' = (mem s)\<lparr>cells := cs\<rparr>" and q': "q' = q1\<lparr>stop := stop q'\<rparr>"
    using add link by (auto simp: add_cell_def Let_def)
  have same: "items q' = items (bq s)" "spaces q' = spaces (bq s)" "mutex q' = mutex (bq s)" "init_size q' = init_size (bq s)"
    by (subst q', subst L(4), simp)+
  have list: "head q' = head q1" "tail q' = tail q1" "bq_size q' = bq_size q1" by (subst q', simp)+
  have "sems_ok ((threads s)[i := Adding a sol (AddPost r)]) q' m' (int (length (xs @ [a])))"
    using sems i t by (simp add: sems_ok_def same m' wsum_update sem_simps)
  moreover have "cells_ok ((threads s)[i := Adding a sol (AddPost r)]) m' (xs @ [a])"
    using cells i by (rule cells_ok_update) (use t a in \<open>auto simp: mark_def m' L(2) w_own_def\<close>)
  moreover have "map (cell_item cs) (xs @ [a]) = map (cell_item (cells (mem s))) (xs @ [a])"
    using rep a L(3) by (auto simp: queue_rep_def dest: chained_mem)
  moreover have "Getting GetHolding \<notin> set ((threads s)[i := Adding a sol (AddPost r)])"
    using inv set_update_subset_insert [of "threads s" i "Adding a sol (AddPost r)"] by (auto simp: queue_inv_def)
  ultimately show ?thesis using L(1) log by (simp add: queue_inv_def queue_rep_def list m')
qed

text \<open>A process that has taken an item finds a cell, and takes the first.\<close>

lemma queue_inv_get_cell:
  assumes inv: "queue_inv s xs" and i: "i < length (threads s)" and t: "threads s ! i = Getting GetCell"
  shows "\<exists>a ys. xs = a # ys \<and> head (bq s) = Some a \<and>
    queue_inv \<lparr>threads = (threads s)[i := Getting (GetPost a)], bq = bq_unlink a (bq s) (cells (mem s)), mem = mem s,
      sent = sent s, received = received s @ [cell_item (cells (mem s)) a]\<rparr> ys"
proof -
  have rep: "queue_rep (bq s) (cells (mem s)) xs" and sems: "sems_ok (threads s) (bq s) (mem s) (int (length xs))"
    and cells: "cells_ok (threads s) (mem s) xs" using inv by (auto simp: queue_inv_def)
  have "1 \<le> wsum w_item (threads s)" using wsum_member [of w_item i "threads s"] i t by simp
  with sems obtain a ys where xs: "xs = a # ys" by (cases xs) (auto simp: sems_ok_def)
  define q' where "q' = bq_unlink a (bq s) (cells (mem s))"
  note U = bq_unlink_rep [OF rep [unfolded xs], folded q'_def]
  have same: "items q' = items (bq s)" "spaces q' = spaces (bq s)" "mutex q' = mutex (bq s)" "init_size q' = init_size (bq s)"
    by (subst U(2), simp)+
  have "sems_ok ((threads s)[i := Getting (GetPost a)]) q' (mem s) (int (length ys))"
    using sems i t by (simp add: sems_ok_def same wsum_update xs)
  moreover have "cells_ok ((threads s)[i := Getting (GetPost a)]) (mem s) ys"
    using cells i by (rule cells_ok_update) (use t rep in \<open>auto simp: mark_def xs queue_rep_def w_own_def\<close>)
  moreover have "Getting GetHolding \<notin> set ((threads s)[i := Getting (GetPost a)])"
    using inv set_update_subset_insert [of "threads s" i "Getting (GetPost a)"] by (auto simp: queue_inv_def)
  ultimately show ?thesis using U(1) inv rep
    by (auto simp: xs queue_inv_def q'_def queue_rep_def)
qed

lemma thread_step_counts:
  assumes step: "thread_step t q m = Some (t', q', m')"
    and other: "\<forall>a sol. t \<noteq> Adding a sol AddCell" "t \<noteq> Getting GetCell" "t \<noteq> Getting GetHolding"
    and sems: "items q \<noteq> spaces q" "items q \<noteq> mutex q" "spaces q \<noteq> mutex q"
      "items q < length (boxes m)" "spaces q < length (boxes m)" "mutex q < length (boxes m)"
  shows "q' = q\<lparr>stop := stop q'\<rparr> \<and> cells m' = cells m \<and> length (boxes m') = length (boxes m) \<and>
    int (sem_count m' (mutex q)) + w_mutex t' = int (sem_count m (mutex q)) + w_mutex t \<and>
    int (sem_count m' (spaces q)) + w_space t' = int (sem_count m (spaces q)) + w_space t \<and>
    int (sem_count m' (items q)) + w_item t' = int (sem_count m (items q)) + w_item t \<and>
    holds t' = holds t \<and> t' \<noteq> Getting GetHolding"
proof (cases t)
  case (Adding a sol pc)
  with step other sems show ?thesis
    by (cases pc) (auto simp: lock_Some PGSemaphoreUnlock_def sem_simps of_nat_diff split: if_splits)
next
  case (Getting pc)
  with step other sems show ?thesis
    by (cases pc) (auto simp: lock_Some PGSemaphoreUnlock_def sem_simps of_nat_diff split: if_splits)
next
  case (Stopping b pc)
  with step other sems show ?thesis
    by (cases pc) (auto simp: lock_Some PGSemaphoreUnlock_def sem_simps of_nat_diff split: if_splits)
qed (use step in simp_all)

lemma act_inv:
  assumes inv: "queue_inv s xs" and i: "i < length (threads s)" and act: "act i s = Some s'"
  shows "\<exists>ys. queue_inv s' ys"
proof -
  have sems: "items (bq s) \<noteq> spaces (bq s)" "items (bq s) \<noteq> mutex (bq s)" "spaces (bq s) \<noteq> mutex (bq s)"
    "items (bq s) < length (boxes (mem s))" "spaces (bq s) < length (boxes (mem s))" "mutex (bq s) < length (boxes (mem s))"
    using inv by (auto simp: queue_inv_def sems_ok_def)
  obtain t q m where step: "thread_step (threads s ! i) (bq s) (mem s) = Some (t, q, m)"
    and s': "s' = \<lparr>threads = (threads s)[i := t], bq = q, mem = m,
         sent = sent s @ log_sent (threads s ! i) (mem s),
         received = received s @ log_received (threads s ! i) (bq s) (mem s)\<rparr>"
    using act by (auto simp: act_def)
  consider (add) a sol where "threads s ! i = Adding a sol AddCell" | (get) "threads s ! i = Getting GetCell"
    | (other) "log_sent (threads s ! i) (mem s) = []" "log_received (threads s ! i) (bq s) (mem s) = []"
        "\<forall>a sol. threads s ! i \<noteq> Adding a sol AddCell" "threads s ! i \<noteq> Getting GetCell"
    by (cases "(threads s ! i, mem s)" rule: log_sent.cases; cases "(threads s ! i, bq s, mem s)" rule: log_received.cases) auto
  then show ?thesis
  proof cases
    case add
    with step queue_inv_add_cell [OF inv i add] show ?thesis by (auto simp: s' split: prod.splits)
  next
    case get
    from queue_inv_get_cell [OF inv i get] step get show ?thesis by (auto simp: s')
  next
    case other
    have "threads s ! i \<noteq> Getting GetHolding" using inv nth_mem [OF i] by (auto simp: queue_inv_def)
    from thread_step_counts [OF step other(3,4) this sems]
    have "queue_inv \<lparr>threads = (threads s)[i := t], bq = q, mem = m, sent = sent s, received = received s\<rparr> xs"
      by (intro queue_inv_frame [OF inv i]) simp_all
    then show ?thesis using other by (auto simp: s')
  qed
qed

text \<open>A call or a return changes which cells exist, and who owns them.\<close>

lemma queue_inv_caller:
  assumes inv: "queue_inv s xs" and i: "i < length (threads s)"
    and t: "w_mutex t = 0" "w_space t = 0" "w_item t = 0" "t \<noteq> Getting GetHolding"
    and old: "w_mutex (threads s ! i) = 0" "w_space (threads s ! i) = 0" "w_item (threads s ! i) = 0"
    and cs: "\<And>b. b \<in> set xs \<Longrightarrow> cs b = cells (mem s) b"
    and own: "\<And>b. w_own b t + mark (cells (mem s) b \<noteq> None) = w_own b (threads s ! i) + mark (cs b \<noteq> None)"
  shows "queue_inv (s\<lparr>threads := (threads s)[i := t], mem := (mem s)\<lparr>cells := cs\<rparr>\<rparr>) xs"
proof -
  have "cells_ok ((threads s)[i := t]) ((mem s)\<lparr>cells := cs\<rparr>) xs"
    using inv i by (intro cells_ok_update [of "threads s" "mem s" xs i]) (use own in \<open>auto simp: queue_inv_def\<close>)
  moreover have "sems_ok ((threads s)[i := t]) (bq s) ((mem s)\<lparr>cells := cs\<rparr>) (int (length xs))"
    using inv i t old by (simp add: queue_inv_def sems_ok_def wsum_update sem_simps)
  moreover have "chained cs xs" using inv cs by (auto simp: queue_inv_def queue_rep_def intro: chained_frame)
  moreover have "map (cell_item cs) xs = map (cell_item (cells (mem s))) xs" using cs by (simp add: cell_item_def)
  moreover have "Getting GetHolding \<notin> set ((threads s)[i := t])"
    using inv t set_update_subset_insert [of "threads s" i t] by (auto simp: queue_inv_def)
  ultimately show ?thesis using inv by (simp add: queue_inv_def queue_rep_def)
qed

lemma owned_apart:
  assumes "queue_inv s xs" and "i < length (threads s)" and "holds (threads s ! i) = Some a"
  shows "a \<notin> set xs" and "cells (mem s) a \<noteq> None"
proof -
  have "1 \<le> wsum (w_own a) (threads s)"
    using wsum_member [of "w_own a" i "threads s"] assms(2,3) by (simp add: w_own_def)
  moreover have "(if a \<in> set xs then 1 else 0) + wsum (w_own a) (threads s) = (if cells (mem s) a = None then 0 else 1)"
    using assms(1) by (simp add: queue_inv_def cells_ok_def)
  ultimately show "a \<notin> set xs" "cells (mem s) a \<noteq> None" by (auto split: if_splits)
qed

lemma queue_inv_mem: "queue_inv s xs \<Longrightarrow> b \<in> set xs \<Longrightarrow> cells (mem s) b \<noteq> None"
  unfolding queue_inv_def queue_rep_def using chained_mem by blast

lemma step_inv: "system_step s s' \<Longrightarrow> queue_inv s xs \<Longrightarrow> \<exists>ys. queue_inv s' ys"
proof (induction rule: system_step.induct)
  case (call_add i s a c sol)
  then have "queue_inv (s\<lparr>threads := (threads s)[i := Adding a sol AddSpaces],
      mem := (mem s)\<lparr>cells := (cells (mem s))(a := Some c)\<rparr>\<rparr>) xs"
    by (intro queue_inv_caller) (auto simp: w_own_def mark_def dest: queue_inv_mem)
  then show ?case by blast
next
  case (call_get i s wt)
  then have "queue_inv (s\<lparr>threads := (threads s)[i := Getting (if wt then GetItems else TryMutex)],
      mem := (mem s)\<lparr>cells := cells (mem s)\<rparr>\<rparr>) xs"
    by (intro queue_inv_caller) (auto simp: w_own_def mark_def)
  then show ?case by auto
next
  case (call_stop i s b)
  then have "queue_inv (s\<lparr>threads := (threads s)[i := Stopping b StopMutex],
      mem := (mem s)\<lparr>cells := cells (mem s)\<rparr>\<rparr>) xs"
    by (intro queue_inv_caller) (auto simp: w_own_def mark_def)
  then show ?case by auto
next
  case (acts i s s')
  then show ?case by (intro act_inv)
next
  case (return_add i s b)
  then have "queue_inv (s\<lparr>threads := (threads s)[i := Idle], mem := (mem s)\<lparr>cells := cells (mem s)\<rparr>\<rparr>) xs"
    by (intro queue_inv_caller) (auto simp: w_own_def mark_def)
  then show ?case by auto
next
  case (return_stop i s b)
  then have "queue_inv (s\<lparr>threads := (threads s)[i := Idle], mem := (mem s)\<lparr>cells := cells (mem s)\<rparr>\<rparr>) xs"
    by (intro queue_inv_caller) (auto simp: w_own_def mark_def)
  then show ?case by auto
next
  case (return_none i s)
  then have "queue_inv (s\<lparr>threads := (threads s)[i := Idle], mem := (mem s)\<lparr>cells := cells (mem s)\<rparr>\<rparr>) xs"
    by (intro queue_inv_caller) (auto simp: w_own_def mark_def)
  then show ?case by auto
next
  case (return_cell i s a)
  with owned_apart [of s xs i a]
  have "queue_inv (s\<lparr>threads := (threads s)[i := Idle],
      mem := (mem s)\<lparr>cells := (cells (mem s))(a := None)\<rparr>\<rparr>) xs"
    by (intro queue_inv_caller) (auto simp: w_own_def mark_def)
  then show ?case by blast
qed

lemma start_inv:
  assumes "pool_ok m (sp # it # mu # fs)" and "1 \<le> n" and "cells m = (\<lambda>_. None)"
    and "createBufferQueue n m = Some (Inr q, m')"
  shows "queue_inv (start_system k q m') []" and "init_size q = n"
proof -
  have d: "distinct (sp # it # mu # fs)" "sp < length (boxes m)" "it < length (boxes m)" "mu < length (boxes m)"
      "sem_count m mu = 1"
    using assms(1) free_chain_bound [of "boxes m" "freeSems m" "sp # it # mu # fs"]
    by (auto simp: pool_ok_def simp del: free_chain.simps)
  have zero: "wsum w (replicate k Idle) = 0" if "w Idle = 0" for w :: "thread \<Rightarrow> int"
    using that by (intro wsum_zero) auto
  from createBufferQueue_ok [OF assms(1), of n] assms(4)
  have q: "q = \<lparr>head = None, tail = None, items = it, spaces = sp, mutex = mu, init_size = n,
      bq_size = 0, stop = False\<rparr>" and m': "cells m' = cells m" "length (boxes m') = length (boxes m)"
    "\<forall>i. sem_count m' i = (if i = sp then 1 + nat (n - 1) else if i = it then 0 else sem_count m i)" by auto
  show "queue_inv (start_system k q m') []"
    using d m' assms(2,3) by (auto simp: queue_inv_def start_system_def queue_rep_def q sems_ok_def cells_ok_def zero w_own_def)
  show "init_size q = n" by (simp add: q)
qed

definition reachable :: "'a queue_system \<Rightarrow> 'a queue_system \<Rightarrow> bool" where
  "reachable = system_step\<^sup>*\<^sup>*"

lemma reachable_inv: "reachable s0 s \<Longrightarrow> queue_inv s0 xs \<Longrightarrow> \<exists>ys. queue_inv s ys"
  unfolding reachable_def by (induction rule: rtranclp_induct) (auto dest: step_inv)

lemma act_init_size: "act i s = Some s' \<Longrightarrow> init_size (bq s') = init_size (bq s)"
proof -
  assume "act i s = Some s'"
  then obtain t q m where step: "thread_step (threads s ! i) (bq s) (mem s) = Some (t, q, m)" "bq s' = q"
    by (auto simp: act_def)
  have "init_size q = init_size (bq s)"
  proof (cases "threads s ! i")
    case (Adding a sol pc)
    with step(1) show ?thesis
      by (cases pc) (auto simp: add_cell_def bq_link_def Let_def split: option.splits if_splits)
  next
    case (Getting pc)
    with step(1) show ?thesis
      by (cases pc) (auto simp: bq_unlink_def Let_def split: option.splits if_splits)
  next
    case (Stopping b pc)
    with step(1) show ?thesis by (cases pc) auto
  qed (use step(1) in simp_all)
  with step(2) show ?thesis by simp
qed

lemma step_init_size: "system_step s s' \<Longrightarrow> init_size (bq s') = init_size (bq s)"
  by (induction rule: system_step.induct) (auto simp: act_init_size)

section \<open>The channel the queue implements\<close>

text \<open>
  What the users of a queue rely on: it is a sequence of at most \<open>cap\<close> values, and a
  step of any process leaves it alone, adds one value at the end, or takes the first.
\<close>

inductive fifo_step :: "nat \<Rightarrow> 'v list \<Rightarrow> 'v list \<Rightarrow> bool" where
  fifo_skip: "fifo_step cap vs vs"
| fifo_put: "length vs < cap \<Longrightarrow> fifo_step cap vs (vs @ [v])"
| fifo_take: "fifo_step cap (v # vs) vs"

inductive_cases fifo_stepE: "fifo_step cap vs ws"

locale bounded_channel =
  fixes good :: "'s \<Rightarrow> bool" and step :: "'s \<Rightarrow> 's \<Rightarrow> bool" and contents :: "'s \<Rightarrow> 'v list" and cap :: nat
  assumes step_good: "good s \<Longrightarrow> step s s' \<Longrightarrow> good s'"
    and step_fifo: "good s \<Longrightarrow> step s s' \<Longrightarrow> fifo_step cap (contents s) (contents s')"
    and within: "good s \<Longrightarrow> length (contents s) \<le> cap"
begin

text \<open>Over any run, what came out followed by what is left is what was there and what went in.\<close>

lemma run_order:
  assumes "step\<^sup>*\<^sup>* s s'" and "good s"
  shows "good s' \<and> (\<exists>put taken. contents s @ put = taken @ contents s')"
  using assms
proof (induction rule: rtranclp_induct)
  case base
  then show ?case by (auto intro: exI [of _ "[]"])
next
  case (step t u)
  then obtain put taken where t: "good t" "contents s @ put = taken @ contents t" by blast
  with step_fifo [OF t(1) step(2)] have "\<exists>put' taken'. contents s @ put' = taken' @ contents u"
  proof (cases rule: fifo_step.cases)
    case (fifo_put v)
    with t have "contents s @ (put @ [v]) = taken @ contents u" by simp
    then show ?thesis by blast
  next
    case (fifo_take v)
    with t have "contents s @ put = (taken @ [v]) @ contents u" by simp
    then show ?thesis by blast
  qed (use t in auto)
  then show ?case using step_good t step by blast
qed

end

text \<open>The contents of the queue, read off memory from its head.\<close>

fun walk :: "nat \<Rightarrow> (nat \<Rightarrow> 'a BufferQueueCell option) \<Rightarrow> nat option \<Rightarrow> nat list" where
  "walk (Suc n) cs (Some a) = a # walk n cs (cell_next (the (cs a)))"
| "walk _ cs _ = []"

definition queue_items :: "'a queue_system \<Rightarrow> 'a option list" where
  "queue_items s = map (cell_item (cells (mem s)))
     (walk (nat (bq_size (bq s))) (cells (mem s)) (head (bq s)))"

lemma walk_chained: "chained cs (a # xs) \<Longrightarrow> walk (length (a # xs)) cs (Some a) = a # xs"
proof (induction xs arbitrary: a)
  case (Cons b xs)
  then have "walk (length (b # xs)) cs (Some b) = b # xs" by simp
  with Cons.prems show ?case by auto
qed auto

lemma queue_items_rep: "queue_inv s xs \<Longrightarrow> queue_items s = map (cell_item (cells (mem s))) xs"
proof -
  assume inv: "queue_inv s xs"
  then have rep: "queue_rep (bq s) (cells (mem s)) xs" by (simp add: queue_inv_def)
  have "walk (length xs) (cells (mem s)) (head (bq s)) = xs"
    using rep walk_chained [of "cells (mem s)"] by (cases xs) (auto simp: queue_rep_def simp del: walk.simps(1))
  with rep show ?thesis by (simp add: queue_items_def queue_rep_def)
qed

definition queue_good :: "nat \<Rightarrow> 'a queue_system \<Rightarrow> bool" where
  "queue_good cap s \<longleftrightarrow> (\<exists>xs. queue_inv s xs) \<and> init_size (bq s) = int cap"

lemma queue_good_log:
  "queue_good cap s \<Longrightarrow> sent s = received s @ queue_items s \<and> length (queue_items s) \<le> cap \<and>
    bq_size (bq s) = int (length (queue_items s))"
proof -
  assume good: "queue_good cap s"
  then obtain xs where xs: "queue_inv s xs" "init_size (bq s) = int cap" by (auto simp: queue_good_def)
  have "int (length xs) \<le> int cap"
    using xs wsum_nonneg [of w_space "threads s"] by (simp add: queue_inv_def sems_ok_def)
  with xs(1) show ?thesis by (simp add: queue_items_rep) (simp add: queue_inv_def queue_rep_def)
qed

lemma log_cases:
  "(log_sent t m = [] \<and> log_received t q m = []) \<or> (\<exists>v. log_sent t m = [v] \<and> log_received t q m = []) \<or>
   (\<exists>v. log_sent t m = [] \<and> log_received t q m = [v])"
  by (cases "(t, m)" rule: log_sent.cases; cases "(t, q, m)" rule: log_received.cases)
    (auto split: option.splits)

lemma logs_fifo:
  assumes "sent s = received s @ vs" and "sent s' = received s' @ ws" and "length ws \<le> cap"
    and "sent s' = sent s @ log_sent t m" and "received s' = received s @ log_received t q m"
  shows "fifo_step cap vs ws"
  using log_cases [of t m q]
proof (elim disjE exE conjE)
  assume "log_sent t m = []" "log_received t q m = []"
  with assms have "ws = vs" by simp
  then show ?thesis by (simp add: fifo_skip)
next
  fix v assume "log_sent t m = [v]" "log_received t q m = []"
  with assms have ws: "ws = vs @ [v]" by simp
  show ?thesis unfolding ws by (rule fifo_put) (use assms(3) ws in simp)
next
  fix v assume "log_sent t m = []" "log_received t q m = [v]"
  with assms have "vs = v # ws" by simp
  then show ?thesis by (simp add: fifo_take)
qed

lemma step_logs: "system_step s s' \<Longrightarrow>
    \<exists>t q m. sent s' = sent s @ log_sent t m \<and> received s' = received s @ log_received t q m"
proof (induction rule: system_step.induct)
  case (acts i s s')
  then have "sent s' = sent s @ log_sent (threads s ! i) (mem s) \<and>
    received s' = received s @ log_received (threads s ! i) (bq s) (mem s)" by (auto simp: act_def)
  then show ?case by blast
qed (rule exI [of _ Idle], simp)+

interpretation shared_queue: bounded_channel "queue_good cap" system_step queue_items cap for cap
proof
  fix s s' :: "'a queue_system"
  assume good: "queue_good cap s" and step: "system_step s s'"
  then show good': "queue_good cap s'" by (auto simp: queue_good_def step_init_size dest: step_inv)
  from step_logs [OF step] queue_good_log [OF good] queue_good_log [OF good']
  show "fifo_step cap (queue_items s) (queue_items s')" by (auto intro: logs_fifo)
next
  fix s :: "'a queue_system"
  assume "queue_good cap s"
  then show "length (queue_items s) \<le> cap" by (simp add: queue_good_log)
qed

text \<open>
  A process inside a routine, and one that has to wait there.
\<close>

fun inside :: "thread \<Rightarrow> bool" where
  "inside (Adding a sol pc) = True"
| "inside (Getting pc) = True"
| "inside (Stopping b pc) = True"
| "inside _ = False"

definition waits :: "nat \<Rightarrow> 'a queue_system \<Rightarrow> bool" where
  "waits i s \<longleftrightarrow> inside (threads s ! i) \<and> act i s = None"

lemma act_None:
  "act i s = None \<Longrightarrow> inside (threads s ! i) \<Longrightarrow>
   (\<exists>a sol. threads s ! i = Adding a sol AddSpaces \<and> sem_count (mem s) (spaces (bq s)) = 0) \<or>
   (threads s ! i = Getting GetItems \<and> sem_count (mem s) (items (bq s)) = 0) \<or>
   (w_mutex (threads s ! i) = 0 \<and> sem_count (mem s) (mutex (bq s)) = 0)"
proof (cases "threads s ! i")
  case (Adding a sol pc)
  assume "act i s = None"
  with Adding show ?thesis by (cases pc) (auto simp: act_def PGSemaphoreLock_def split: if_splits prod.splits)
next
  case (Getting pc)
  assume "act i s = None"
  with Getting show ?thesis by (cases pc) (auto simp: act_def PGSemaphoreLock_def split: if_splits option.splits)
next
  case (Stopping b pc)
  assume "act i s = None"
  with Stopping show ?thesis by (cases pc) (auto simp: act_def PGSemaphoreLock_def split: if_splits)
qed auto

lemma critical_inside: "w_mutex t = 1 \<Longrightarrow> inside t"
  by (cases t rule: w_mutex.cases) auto

lemma mutex_free_when_all_wait:
  assumes inv: "queue_inv s xs"
    and stuck: "\<And>i. i < length (threads s) \<Longrightarrow> inside (threads s ! i) \<Longrightarrow> waits i s"
  shows "sem_count (mem s) (mutex (bq s)) = 1"
proof (rule ccontr)
  assume "sem_count (mem s) (mutex (bq s)) \<noteq> 1"
  moreover have sum: "int (sem_count (mem s) (mutex (bq s))) + wsum w_mutex (threads s) = 1"
    using inv by (simp add: queue_inv_def sems_ok_def)
  ultimately have "0 < wsum w_mutex (threads s)" using wsum_nonneg [of w_mutex "threads s", OF w_nonneg(1)] by linarith
  then obtain i where i: "i < length (threads s)" "0 < w_mutex (threads s ! i)"
    using wsum_pos_ex by (metis in_set_conv_nth)
  then have crit: "w_mutex (threads s ! i) = 1" by (cases "threads s ! i" rule: w_mutex.cases) auto
  with stuck i have "act i s = None" by (auto simp: waits_def critical_inside)
  from act_None [OF this critical_inside [OF crit]] crit show False by auto
qed

subsection \<open>Running a schedule\<close>

text \<open>A schedule as a list of moves, so that runs can be computed.\<close>

datatype 'a move = CallAdd nat nat bool "'a BufferQueueCell" | CallGet nat bool | CallStop nat bool | Act nat | Return nat

fun do_move :: "'a move \<Rightarrow> 'a queue_system \<Rightarrow> 'a queue_system option" where
  "do_move (CallAdd i a sol c) s =
     (if i < length (threads s) \<and> threads s ! i = Idle \<and> cells (mem s) a = None
      then Some (s\<lparr>threads := (threads s)[i := Adding a sol AddSpaces],
                   mem := (mem s)\<lparr>cells := (cells (mem s))(a := Some c)\<rparr>\<rparr>) else None)"
| "do_move (CallGet i wt) s =
     (if i < length (threads s) \<and> threads s ! i = Idle
      then Some (s\<lparr>threads := (threads s)[i := Getting (if wt then GetItems else TryMutex)]\<rparr>) else None)"
| "do_move (CallStop i b) s =
     (if i < length (threads s) \<and> threads s ! i = Idle
      then Some (s\<lparr>threads := (threads s)[i := Stopping b StopMutex]\<rparr>) else None)"
| "do_move (Act i) s = (if i < length (threads s) then act i s else None)"
| "do_move (Return i) s =
     (if i < length (threads s) then
        (case threads s ! i of
           Added b \<Rightarrow> Some (s\<lparr>threads := (threads s)[i := Idle]\<rparr>)
         | Stopped b \<Rightarrow> Some (s\<lparr>threads := (threads s)[i := Idle]\<rparr>)
         | Got None \<Rightarrow> Some (s\<lparr>threads := (threads s)[i := Idle]\<rparr>)
         | Got (Some a) \<Rightarrow> Some (s\<lparr>threads := (threads s)[i := Idle],
                      mem := (mem s)\<lparr>cells := (cells (mem s))(a := None)\<rparr>\<rparr>)
         | _ \<Rightarrow> None)
      else None)"

fun do_moves :: "'a move list \<Rightarrow> 'a queue_system \<Rightarrow> 'a queue_system option" where
  "do_moves [] s = Some s"
| "do_moves (mv # mvs) s = (case do_move mv s of None \<Rightarrow> None | Some s' \<Rightarrow> do_moves mvs s')"

lemma do_move_step: "do_move mv s = Some s' \<Longrightarrow> system_step s s'"
proof (cases mv)
  case (Return i)
  assume "do_move mv s = Some s'"
  with Return show ?thesis
    by (auto split: if_splits thread.splits option.splits intro: system_step.intros)
next
  case (CallGet i wt)
  assume "do_move mv s = Some s'"
  with CallGet call_get [of i s wt] show ?thesis by (simp split: if_splits)
qed (auto split: if_splits intro: system_step.intros)

lemma do_moves_reach: "do_moves mvs s = Some s' \<Longrightarrow> reachable s s'"
  unfolding reachable_def
  by (induction mvs arbitrary: s) (auto split: option.splits dest: do_move_step intro: converse_rtranclp_into_rtranclp)

text \<open>
  A queue of size one between two processes: process 0 adds one value and starts to add
  a second, for which there is no room; process 1 then takes the first value.
\<close>

definition demo_pool :: "nat shmem" where
  "demo_pool = \<lparr>boxes = [\<lparr>links_next = None, sem = 1\<rparr>, \<lparr>links_next = Some 0, sem = 1\<rparr>, \<lparr>links_next = Some 1, sem = 1\<rparr>],
     freeSems = Some 2, PrlSemLock = False, cells = (\<lambda>_. None)\<rparr>"

definition demo_start :: "nat queue_system" where
  "demo_start = (case createBufferQueue 1 demo_pool of Some (Inr q, m) \<Rightarrow> start_system 2 q m)"

definition demo_cell :: "nat \<Rightarrow> nat BufferQueueCell" where
  "demo_cell v = \<lparr>ptr_value = v, cell_next = None, cell_last = False\<rparr>"

definition demo_full :: "nat queue_system" where
  "demo_full = the (do_moves [CallAdd 0 7 False (demo_cell 42), Act 0, Act 0, Act 0, Act 0, Act 0, Return 0,
     CallAdd 0 8 False (demo_cell 43)] demo_start)"

definition demo_taken :: "nat queue_system" where
  "demo_taken = the (do_moves [CallGet 1 True, Act 1, Act 1, Act 1] demo_full)"

lemmas demo_eval = demo_full_def demo_start_def demo_pool_def demo_cell_def createBufferQueue_def
  unlock_pool_simp take_sems_def take_sem_def PGSemaphoreLock_def PGSemaphoreUnlock_def
  sem_count_def set_sem_def start_system_def act_def add_cell_def bq_link_def set_next_def bq_unlink_def
  cell_item_def numeral_2_eq_2 PGSemaphoreReset_def

lemma demo_full_val: "do_moves [CallAdd 0 7 False (demo_cell 42), Act 0, Act 0, Act 0, Act 0, Act 0, Return 0,
     CallAdd 0 8 False (demo_cell 43)] demo_start = Some demo_full"
  by (simp add: demo_eval)

lemma demo_taken_val: "do_moves [CallGet 1 True, Act 1, Act 1, Act 1] demo_full = Some demo_taken"
  by (simp add: demo_eval demo_taken_def)

text \<open>The runs the properties are about: any number of processes over a new queue.\<close>

definition queue_run :: "nat \<Rightarrow> 'a queue_system \<Rightarrow> bool" where
  "queue_run cap s \<longleftrightarrow> (\<exists>m fs q m' k. pool_ok m fs \<and> 3 \<le> length fs \<and> cells m = (\<lambda>_. None) \<and>
     createBufferQueue (int cap) m = Some (Inr q, m') \<and> reachable (start_system k q m') s)"

lemma queue_run_good: "queue_run cap s \<Longrightarrow> 1 \<le> cap \<Longrightarrow> queue_good cap s"
proof -
  assume "queue_run cap s" and cap: "1 \<le> cap"
  then obtain m q m' k and fs where run: "pool_ok m fs" "3 \<le> length fs" "cells m = (\<lambda>_. None)"
    "createBufferQueue (int cap) m = Some (Inr q, m')" "reachable (start_system k q m') s"
    unfolding queue_run_def by blast
  obtain sp it mu gs where fs: "fs = sp # it # mu # gs"
    using run(2) by (auto simp: numeral_eq_Suc Suc_le_length_iff)
  note start = start_inv [OF run(1) [unfolded fs] _ run(3,4)]
  have "queue_good cap (start_system k q m')"
    using start cap by (auto simp: queue_good_def start_system_def)
  then show ?thesis using shared_queue.run_order run(5) by (auto simp: reachable_def)
qed

lemma demo_full_run: "queue_run 1 demo_full"
proof -
  have "pool_ok demo_pool [2, 1, 0]" by (simp add: pool_ok_def demo_pool_def sem_count_def)
  moreover have "createBufferQueue 1 demo_pool \<noteq> None" "\<forall>e m. createBufferQueue 1 demo_pool \<noteq> Some (Inl e, m)"
    by (simp_all add: demo_eval)
  then obtain q m where q: "createBufferQueue (int 1) demo_pool = Some (Inr q, m)"
    by (metis of_nat_1 option.exhaust prod.exhaust sum.exhaust)
  moreover have "reachable (start_system 2 q m) demo_full"
    using do_moves_reach [OF demo_full_val] q by (simp add: demo_start_def)
  ultimately show ?thesis
    unfolding queue_run_def by (intro exI [of _ demo_pool] exI [of _ "[2, 1, 0]"] exI conjI) (auto simp: demo_pool_def)
qed

text \<open>Process 1 is in the critical section of taking the value.\<close>

definition demo_cs :: "nat queue_system" where
  "demo_cs = the (do_moves [CallGet 1 True, Act 1, Act 1] demo_full)"

lemma demo_cs_run: "queue_run 1 demo_cs"
proof -
  have "do_moves [CallGet 1 True, Act 1, Act 1] demo_full = Some demo_cs" by (simp add: demo_eval demo_cs_def)
  from do_moves_reach [OF this] demo_full_run show ?thesis
    unfolding queue_run_def reachable_def by (meson rtranclp_trans)
qed

lemma demo_full_call: "system_step demo_full (demo_full\<lparr>threads := (threads demo_full)[1 := Getting GetItems]\<rparr>)"
  using call_get [of 1 demo_full True] by (simp add: demo_eval)

lemma demo_logs: "sent demo_taken = [Some 42]" "received demo_taken = [Some 42]" "sent demo_full = [Some 42]"
  "received demo_full = []"
  by (simp_all add: demo_eval demo_taken_def)

lemma demo_stuck: "i < length (threads demo_full) \<Longrightarrow> inside (threads demo_full ! i) \<Longrightarrow> waits i demo_full"
  by (cases i) (simp_all add: demo_eval waits_def)

section \<open>Properties\<close>

text \<open>
  C5: Whatever the processes do and however they are interleaved, every step of one of
  them is a step of a bounded first-in first-out channel on the values linked from the
  queue's head: nothing, a value added at the end while there is room, or the first value
  taken.
\<close>

theorem queue_refines_channel:
  assumes "queue_run cap s" and "1 \<le> cap" and "system_step s s'"
  shows "fifo_step cap (queue_items s) (queue_items s')"
  by (rule shared_queue.step_fifo [OF queue_run_good [OF assms(1,2)] assms(3)])

theorem queue_refines_channel_witness:
  "fifo_step 1 (queue_items demo_full) (queue_items (demo_full\<lparr>threads := (threads demo_full)[1 := Getting GetItems]\<rparr>))"
  by (rule queue_refines_channel [OF demo_full_run _ demo_full_call]) simp

text \<open>
  C15: What has been received, followed by what the queue still holds, is what has been
  sent, in the order of sending; the queue never holds more than the size it was created
  with, and its size field counts its cells.
\<close>

theorem queue_order:
  assumes "queue_run cap s" and "1 \<le> cap"
  shows "sent s = received s @ queue_items s \<and> length (queue_items s) \<le> cap \<and>
    bq_size (bq s) = int (length (queue_items s))"
  by (rule queue_good_log [OF queue_run_good [OF assms]])

theorem queue_order_witness:
  "sent demo_taken = [Some 42] \<and> received demo_taken = [Some 42] \<and> sent demo_full = [Some 42] \<and>
   received demo_full = [] \<and> queue_items demo_full = [Some 42] \<and> bq_size (bq demo_full) = 1"
proof -
  have "sent demo_full = received demo_full @ queue_items demo_full"
    "bq_size (bq demo_full) = int (length (queue_items demo_full))"
    using queue_order [OF demo_full_run] by simp_all
  moreover from this(1) have "queue_items demo_full = [Some 42]" by (simp add: demo_logs)
  ultimately show ?thesis by (simp add: demo_logs)
qed

text \<open>
  C16: No two processes are between taking and releasing the mutex at the same time, and no
  process takes the early return of \<^verbatim>\<open>bufferQueueGet\<close> that would leave the mutex
  taken.
\<close>

theorem queue_exclusion:
  assumes "queue_run cap s" and "1 \<le> cap"
  shows "(\<forall>i j. i < length (threads s) \<and> j < length (threads s) \<and> w_mutex (threads s ! i) = 1 \<and>
      w_mutex (threads s ! j) = 1 \<longrightarrow> i = j) \<and> Getting GetHolding \<notin> set (threads s)"
proof -
  obtain xs where inv: "queue_inv s xs" using queue_run_good [OF assms] by (auto simp: queue_good_def)
  then have one: "wsum w_mutex (threads s) \<le> 1" by (simp add: queue_inv_def sems_ok_def)
  have "i = j" if ij: "i < length (threads s)" "j < length (threads s)" "w_mutex (threads s ! i) = 1"
    "w_mutex (threads s ! j) = 1" for i j
  proof (rule ccontr)
    assume "i \<noteq> j"
    define ts where "ts = (threads s)[i := Idle]"
    have "wsum w_mutex ts = wsum w_mutex (threads s) - 1" using ij by (simp add: ts_def wsum_update)
    moreover have "1 \<le> wsum w_mutex ts"
      using wsum_member [of w_mutex j ts] ij \<open>i \<noteq> j\<close> by (simp add: ts_def)
    ultimately show False using one by simp
  qed
  with inv show ?thesis by (auto simp: queue_inv_def)
qed

theorem queue_exclusion_witness:
  "w_mutex (threads demo_cs ! 1) = 1 \<and> w_mutex (threads demo_cs ! 0) \<noteq> 1 \<and>
   Getting GetHolding \<notin> set (threads demo_cs)"
  using queue_exclusion [OF demo_cs_run] by (simp add: demo_eval demo_cs_def)

text \<open>
  C12: The queue never deadlocks: when every process inside a routine has to wait, either
  all of them wait for room and the queue is full, or all of them wait for a value and the
  queue is empty. So a process that adds and one that takes never block each other.
\<close>

theorem queue_progress:
  assumes "queue_run cap s" and "1 \<le> cap"
    and stuck: "\<And>i. i < length (threads s) \<Longrightarrow> inside (threads s ! i) \<Longrightarrow> waits i s"
  shows "(\<forall>t\<in>set (threads s). inside t \<longrightarrow> (\<exists>a sol. t = Adding a sol AddSpaces)) \<and> length (queue_items s) = cap \<or>
    (\<forall>t\<in>set (threads s). inside t \<longrightarrow> t = Getting GetItems) \<and> queue_items s = [] \<or>
    (\<forall>t\<in>set (threads s). \<not> inside t)"
proof -
  obtain xs where inv: "queue_inv s xs" and cap: "init_size (bq s) = int cap"
    using queue_run_good [OF assms(1,2)] by (auto simp: queue_good_def)
  have mu: "sem_count (mem s) (mutex (bq s)) = 1" by (rule mutex_free_when_all_wait [OF inv stuck])
  have at: "(\<exists>a sol. t = Adding a sol AddSpaces) \<and> sem_count (mem s) (spaces (bq s)) = 0 \<or>
      t = Getting GetItems \<and> sem_count (mem s) (items (bq s)) = 0"
    if t: "t \<in> set (threads s)" "inside t" for t
  proof -
    from t obtain i where "i < length (threads s)" "t = threads s ! i" by (metis in_set_conv_nth)
    with act_None [of i s] stuck [of i] t mu show ?thesis by (auto simp: waits_def)
  qed
  have "w_space t = 0 \<and> w_item t = 0" if "t \<in> set (threads s)" for t
    using at [OF that] by (cases "inside t"; cases t) auto
  then have "wsum w_space (threads s) = 0" "wsum w_item (threads s) = 0" by (auto intro: wsum_zero)
  with inv cap have sp: "int (sem_count (mem s) (spaces (bq s))) + int (length xs) = int cap"
    and it: "sem_count (mem s) (items (bq s)) = length xs" by (simp_all add: queue_inv_def sems_ok_def)
  have len: "length (queue_items s) = length xs" by (simp add: queue_items_rep [OF inv])
  show ?thesis
  proof (cases "sem_count (mem s) (items (bq s)) = 0")
    case True
    with sp it assms(2) have "sem_count (mem s) (spaces (bq s)) \<noteq> 0" by simp
    then have "t = Getting GetItems" if "t \<in> set (threads s)" "inside t" for t using at [OF that] by simp
    moreover have "queue_items s = []" using True it len by simp
    ultimately show ?thesis by blast
  next
    case False
    then have at': "(\<exists>a sol. t = Adding a sol AddSpaces) \<and> sem_count (mem s) (spaces (bq s)) = 0"
      if "t \<in> set (threads s)" "inside t" for t using at [OF that] by simp
    show ?thesis
    proof (cases "\<exists>t\<in>set (threads s). inside t")
      case True
      then obtain t where "t \<in> set (threads s)" "inside t" by (rule bexE)
      from at' [OF this] sp len have "length (queue_items s) = cap" by simp
      moreover have "\<forall>t\<in>set (threads s). inside t \<longrightarrow> (\<exists>a sol. t = Adding a sol AddSpaces)"
        using at' by simp
      ultimately show ?thesis by simp
    qed blast
  qed
qed

theorem queue_progress_witness:
  "threads demo_full = [Adding 8 False AddSpaces, Idle] \<and> length (queue_items demo_full) = 1"
proof -
  have t: "threads demo_full = [Adding 8 False AddSpaces, Idle]" by (simp add: demo_eval)
  have "(\<forall>t\<in>set (threads demo_full). inside t \<longrightarrow> (\<exists>a sol. t = Adding a sol AddSpaces)) \<and> length (queue_items demo_full) = 1 \<or>
    (\<forall>t\<in>set (threads demo_full). inside t \<longrightarrow> t = Getting GetItems) \<and> queue_items demo_full = [] \<or>
    (\<forall>t\<in>set (threads demo_full). \<not> inside t)"
    by (rule queue_progress [OF demo_full_run order_refl]) (rule demo_stuck)
  then show ?thesis by (simp add: t)
qed

end
