(* ===== verification/ParallelSort.thy ===== *)
theory ParallelSort
  imports MemorySort Workers BufferQueue
begin

text \<open>
  A parallel sort as the processes run it: the master's side in
  \<^verbatim>\<open>ExecSort\<close> and \<^verbatim>\<open>ExecEndSort\<close> (\<^verbatim>\<open>backend/executor/nodeSort.c\<close>) with the
  routines of \<^verbatim>\<open>tuplesort.c\<close> that deal tuples out and merge what comes back, and the
  worker's side in \<^verbatim>\<open>slaveBackendMain\<close> and \<^verbatim>\<open>doSort\<close>
  (\<^verbatim>\<open>backend/postmaster/slaveworker.c\<close>). A process is a program counter; a step runs to
  the next point at which it touches memory that others see. The buffer queues are the
  bounded channels that theory \<open>BufferQueue\<close> proves them to be; they are created from and
  given back to the pool of semaphores of theory \<open>SemPool\<close>, which this sort alone uses while
  it runs. The lists of workers and of work are the sequences that theory \<open>SharedLists\<close>
  shows the shared lists to be.
\<close>

section \<open>The job\<close>

text \<open>
  What is fixed while a sort runs: its surroundings, the lookup of ordering operators,
  sort keys, \<^verbatim>\<open>work_mem\<close> in the master and in the workers, the limit if there is one, the scan direction, and the
  settings \<^verbatim>\<open>parallel_shared_queue_size\<close> and \<^verbatim>\<open>prl_sort_dop\<close>.
\<close>

record 'd sort_job =
  job_env :: "'d sort_env"
  job_ops :: "int \<Rightarrow> (('d \<Rightarrow> 'd \<Rightarrow> int option) \<times> bool) option"
  job_keys :: "(int \<times> int \<times> bool) list"
  job_work_mem :: int
  job_slave_mem :: int
  job_random :: bool
  job_bound :: "int option"
  job_forward :: bool
  job_queue_size :: nat
  job_dop :: nat
  job_number :: int

definition slave_env :: "'d sort_job \<Rightarrow> 'd sort_env" where
  "slave_env job = (job_env job)\<lparr>is_slave := True\<rparr>"

definition sort_begin :: "'d sort_job \<Rightarrow> 'd sort_env \<Rightarrow> pg_error + 'd Tuplesortstate" where
  "sort_begin job env =
     bindE (tuplesort_begin_heap env (job_ops job) (job_keys job)
         (if is_slave env then job_slave_mem job else job_work_mem job) (job_random job)) (\<lambda>state.
       case job_bound job of None \<Rightarrow> Inr state | Some n \<Rightarrow> tuplesort_set_bound state n)"

section \<open>Channels\<close>

text \<open>A queue as its users see it: its cells, of which \<open>None\<close> is the last, and its stop flag.\<close>

record 'd channel =
  ch_cells :: "'d sort_tuple option list"
  ch_stop :: bool

definition channel_room :: "'d sort_job \<Rightarrow> 'd channel \<Rightarrow> bool" where
  "channel_room job q \<longleftrightarrow> length (ch_cells q) < job_queue_size job"

definition channel_add :: "'d sort_tuple option \<Rightarrow> bool \<Rightarrow> 'd channel \<Rightarrow> bool \<times> 'd channel" where
  "channel_add cell stopOnLast q =
     (let stp = ch_stop q \<or> (stopOnLast \<and> cell = None)
      in (stp, \<lparr>ch_cells = ch_cells q @ [cell], ch_stop = stp\<rparr>))"

section \<open>The worker\<close>

text \<open>
  Where a worker is: starting, waiting for work, in \<^verbatim>\<open>doSort\<close> (receiving, sorting,
  waiting for the acknowledgement, fetching the next tuple, adding it to the queue), at
  the end of a job, about to die, gone, or thrown out by an error. The sort state is the
  local variable of \<^verbatim>\<open>doSort\<close>.
\<close>

datatype 'd worker_pc = WInit | WWait
  | WReceive "'d Tuplesortstate" | WPerform "'d Tuplesortstate" | WAck "'d Tuplesortstate"
  | WFetch "'d Tuplesortstate" | WAdd "'d sort_tuple option" "'d Tuplesortstate"
  | WEnd | WDead | WExit | WError pg_error

fun doSort :: "'d sort_job \<Rightarrow> Worker \<Rightarrow> 'd channel \<Rightarrow> 'd worker_pc \<Rightarrow> (Worker \<times> 'd channel \<times> 'd worker_pc) option" where
  "doSort job w q (WReceive state) = (case ch_cells q of
       [] \<Rightarrow> None
     | None # cs \<Rightarrow> Some (w, q\<lparr>ch_cells := cs\<rparr>, WPerform state)
     | Some stup # cs \<Rightarrow> (case tuplesort_puttupleslot_prl (slave_env job) stup state of
           Inl e \<Rightarrow> Some (w, q\<lparr>ch_cells := cs\<rparr>, WError e)
         | Inr state \<Rightarrow> Some (w, q\<lparr>ch_cells := cs\<rparr>, WReceive state)))"
| "doSort job w q (WPerform state) = (case tuplesort_performsort (slave_env job) state of
       None \<Rightarrow> None
     | Some (Inl e) \<Rightarrow> Some (w, q, WError e)
     | Some (Inr state) \<Rightarrow> Some (w\<lparr>worker_state := PRL_WORKER_STATE_FINISHED\<rparr>, q, WAck state))"
| "doSort job w q (WAck state) = (case waitForState PRL_WORKER_STATE_FINISHED_ACK w of
       None \<Rightarrow> None
     | Some (Inl e) \<Rightarrow> Some (w, q, WError e)
     | Some (Inr _) \<Rightarrow> Some (w, q, WFetch state))"
| "doSort job w q (WFetch state) =
     (case prl_tuplesort_getsorttuple (slave_env job) state (job_forward job) (fresh_slot (slave_env job)) of
        Inl e \<Rightarrow> Some (w, q, WError e)
      | Inr (cell, state) \<Rightarrow> Some (w, q, WAdd cell state))"
| "doSort job w q (WAdd cell state) =
     (if channel_room job q
      then (case channel_add cell True q of (stopped, q) \<Rightarrow>
              Some (w, q, if cell = None \<or> stopped then WEnd else WFetch state))
      else None)"
| "doSort job w q _ = None"

text \<open>
  The main loop of a worker; an error jumps out of it. Jobs of other types than sorting
  and ending do not occur in a sort.
\<close>

fun slaveBackendMain :: "'d sort_job \<Rightarrow> int \<Rightarrow> Worker \<Rightarrow> 'd channel \<Rightarrow> 'd worker_pc \<Rightarrow>
    (Worker \<times> 'd channel \<times> 'd worker_pc) option" where
  "slaveBackendMain job MyProcPid w q WInit =
     Some (w\<lparr>workerPid := MyProcPid, valid := True, worker_state := PRL_WORKER_STATE_INITIAL\<rparr>, q, WWait)"
| "slaveBackendMain job MyProcPid w q WWait = (case waitForState PRL_WORKER_STATE_READY w of
       None \<Rightarrow> None
     | Some (Inl e) \<Rightarrow> Some (w, q, WError e)
     | Some (Inr _) \<Rightarrow>
         (case workType (work w) of
            PRL_WORK_TYPE_SORT \<Rightarrow> (case sort_begin job (slave_env job) of
                Inl e \<Rightarrow> Some (w, q, WError e)
              | Inr state \<Rightarrow> Some (w, q, WReceive state))
          | PRL_WORK_TYPE_END \<Rightarrow> Some (w, q, WDead)
          | _ \<Rightarrow> Some (w, q, WEnd)))"
| "slaveBackendMain job MyProcPid w q WEnd = Some (w\<lparr>worker_state := PRL_WORKER_STATE_END\<rparr>, q, WWait)"
| "slaveBackendMain job MyProcPid w q WDead = Some (w\<lparr>worker_state := PRL_WORKER_STATE_DEAD\<rparr>, q, WExit)"
| "slaveBackendMain job MyProcPid w q WExit = None"
| "slaveBackendMain job MyProcPid w q (WError e) =
     Some (w\<lparr>worker_state := PRL_WORKER_STATE_CANCELED\<rparr>, q, WExit)"
| "slaveBackendMain job MyProcPid w q pc = doSort job w q pc"

section \<open>The master's routines\<close>

text \<open>
  Dealing a tuple out: the worker whose turn it is, the cell to add to its queue, and the
  state.
\<close>

definition distributeToWorker ::
  "'d sort_env \<Rightarrow> 'd Tuplesortstate \<Rightarrow> MinimalTuple \<Rightarrow> nat \<times> 'd sort_tuple option \<times> 'd Tuplesortstate" where
  "distributeToWorker env state slot =
     (let now = (lastWorker state + 1) mod workersCnt state
      in case tuplesort_prl_puttupleslot env slot state of
           (state, stup) \<Rightarrow> (workers state ! nat now, Some stup, state\<lparr>lastWorker := now\<rparr>))"

text \<open>A tuple that came back, copied into the sort with its leading key computed anew.\<close>

definition received_tuple :: "'d sort_env \<Rightarrow> 'd Tuplesortstate \<Rightarrow> 'd sort_tuple \<Rightarrow> 'd sort_tuple" where
  "received_tuple env state stup =
     computeDatum1 env state ((fresh_slot env)\<lparr>isnull1 := isnull1 stup, tuple := tuple stup\<rparr>)"

text \<open>The body of the loop of \<^verbatim>\<open>prepareForMerge\<close> for worker \<open>cw\<close>, and what follows it.\<close>

definition prepare_worker ::
  "'d sort_env \<Rightarrow> nat \<Rightarrow> 'd sort_tuple option \<Rightarrow> 'd Tuplesortstate \<Rightarrow> pg_error + 'd Tuplesortstate" where
  "prepare_worker env cw cell state = (case cell of
       None \<Rightarrow> Inr (state\<lparr>workersFinished := (workersFinished state)[cw := True]\<rparr>)
     | Some stup \<Rightarrow> tuplesort_heap_insert env state (received_tuple env state stup) (int cw) False)"

definition prepare_end :: "'d Tuplesortstate \<Rightarrow> 'd Tuplesortstate" where
  "prepare_end state = (if memtupcount state = 0 then state\<lparr>isParallelEnded := True\<rparr> else state)"

text \<open>
  The next tuple of the merge. \<open>cell\<close> is what the queue of the worker that the tuple
  came from delivers; the queue is only asked when that worker has not finished.
\<close>

definition merge_source :: "'d Tuplesortstate \<Rightarrow> nat" where
  "merge_source state = nat (tupindex (memtuples state ! 0))"

definition refill ::
  "'d sort_env \<Rightarrow> nat \<Rightarrow> 'd sort_tuple option \<Rightarrow> 'd Tuplesortstate \<Rightarrow> pg_error + 'd Tuplesortstate" where
  "refill env src cell state = (case cell of
       None \<Rightarrow> (let state = state\<lparr>workersFinished := (workersFinished state)[src := True]\<rparr>
                in Inr (if memtupcount state = 0 then state\<lparr>isParallelEnded := True\<rparr> else state))
     | Some stup \<Rightarrow> tuplesort_heap_insert env state (received_tuple env state stup) (int src) False)"

definition tuplesort_gettupleslot_from_worker ::
  "'d sort_env \<Rightarrow> 'd Tuplesortstate \<Rightarrow> 'd sort_tuple option \<Rightarrow> pg_error + MinimalTuple option \<times> 'd Tuplesortstate" where
  "tuplesort_gettupleslot_from_worker env state cell =
     (if isParallelEnded state then Inr (None, state)
      else let stup = memtuples state ! 0; src = merge_source state;
               state = tuplesort_heap_siftup env state False
           in bindE (if \<not> workersFinished state ! src then refill env src cell state else Inr state)
                (\<lambda>state. Inr (Some (tuple stup), state)))"

section \<open>The master\<close>

datatype master_pc = MWaitInitial | MReady | MLoad | MLast nat | MWaitFinished | MAck | MPrepare nat
  | MFetch | MDone | MError pg_error
  | EStop nat | EClear nat | EWaitEnd | EEnd nat | EWaitDead | ERelease nat | EOver | EError pg_error

text \<open>
  The whole system: the master and its sort state, what the outer plan will still
  deliver, the slots returned so far, the master's list of workers, the postmaster's list of
  work, the pool of semaphores, and for every worker its queue (\<open>None\<close> when it has been freed),
  the contents of the queue, its record and where it is. The counts of the semaphores of a
  queue in use are part of its channel.
\<close>

record 'd sort_system =
  master :: master_pc
  msort :: "'d Tuplesortstate"
  outer :: "MinimalTuple list"
  slots :: "MinimalTuple list"
  workersList :: "nat list"
  prlJobsList :: "nat list"
  sems :: "unit shmem"
  queues :: "BufferQueue option list"
  wtab :: "Worker list"
  channels :: "'d channel list"
  wprocs :: "'d worker_pc list"

text \<open>The work definition, the worker and the queue that \<^verbatim>\<open>ExecSort\<close> prepares.\<close>

definition new_worker :: "'d sort_job \<Rightarrow> Worker" where
  "new_worker job = \<lparr>valid = False, workerPid = 0,
     work = \<lparr>is_new = True, hasWork = True, workType = PRL_WORK_TYPE_SORT, jobId = job_number job\<rparr>,
     worker_state = PRL_WORKER_STATE_NONE\<rparr>"

text \<open>
  The queues of all workers, created one after the other. A queue that cannot be created ends
  the process.
\<close>

primrec create_queues :: "nat \<Rightarrow> int \<Rightarrow> 'a shmem \<Rightarrow> ((pg_error + BufferQueue list) \<times> 'a shmem) option" where
  "create_queues 0 buffer_size m = Some (Inr [], m)"
| "create_queues (Suc n) buffer_size m = (case createBufferQueue buffer_size m of
       None \<Rightarrow> None
     | Some (Inl e, m) \<Rightarrow> Some (Inl e, m)
     | Some (Inr q, m) \<Rightarrow> (case create_queues n buffer_size m of
           None \<Rightarrow> None
         | Some (Inl e, m) \<Rightarrow> Some (Inl e, m)
         | Some (Inr qs, m) \<Rightarrow> Some (Inr (q # qs), m)))"

definition ExecSort_start ::
  "'d sort_job \<Rightarrow> unit shmem \<Rightarrow> MinimalTuple list \<Rightarrow> (pg_error + 'd sort_system) option" where
  "ExecSort_start job m ts = (case sort_begin job (job_env job) of
       Inl e \<Rightarrow> Some (Inl e)
     | Inr state \<Rightarrow>
         (let state = tuplesort_set_workersId
               (tuplesort_set_prl_level (tuplesort_set_parallel state True) (int (job_dop job))) (job_number job)
          in case create_queues (job_dop job) (int (job_queue_size job)) m of
               None \<Rightarrow> None
             | Some (Inl e, m) \<Rightarrow> Some (Inl e)
             | Some (Inr qs, m) \<Rightarrow> Some (Inr \<lparr>master = MWaitInitial, msort = state, outer = ts, slots = [],
                  workersList = [0..<job_dop job], prlJobsList = [0..<job_dop job], sems = m, queues = map Some qs,
                  wtab = replicate (job_dop job) (new_worker job),
                  channels = replicate (job_dop job) \<lparr>ch_cells = [], ch_stop = False\<rparr>,
                  wprocs = replicate (job_dop job) WInit\<rparr>)))"

text \<open>The other branch of \<^verbatim>\<open>ExecSort\<close>, for a sort without workers.\<close>

definition ExecSort_local :: "'d sort_job \<Rightarrow> MinimalTuple list \<Rightarrow> (pg_error + 'd Tuplesortstate) option" where
  "ExecSort_local job ts =
     (case bindE (sort_begin job (job_env job)) (\<lambda>state.
             foldE (tuplesort_puttupleslot (job_env job)) ts (tuplesort_set_parallel state False)) of
        Inl e \<Rightarrow> Some (Inl e)
      | Inr state \<Rightarrow> tuplesort_performsort (job_env job) state)"

definition all_ready :: "'d sort_job \<Rightarrow> PRL_WORKER_STATE \<Rightarrow> nat \<Rightarrow> 'd sort_system \<Rightarrow> bool" where
  "all_ready job st cnt s \<longleftrightarrow> ready_count (job_number job) st (workersList s) (wtab s) = cnt"

definition transition :: "'d sort_job \<Rightarrow> PRL_WORKER_STATE \<Rightarrow> PRL_WORKER_STATE \<Rightarrow> 'd sort_system \<Rightarrow> 'd sort_system" where
  "transition job old new s =
     s\<lparr>wtab := snd (stateTransition (job_number job) old new (workersList s) (wtab s))\<rparr>"

definition add_to :: "'d sort_job \<Rightarrow> nat \<Rightarrow> 'd sort_tuple option \<Rightarrow> 'd sort_system \<Rightarrow> 'd sort_system option" where
  "add_to job i cell s =
     (if channel_room job (channels s ! i)
      then Some (s\<lparr>channels := (channels s)[i := snd (channel_add cell False (channels s ! i))]\<rparr>)
      else None)"

definition get_from :: "nat \<Rightarrow> 'd sort_system \<Rightarrow> ('d sort_tuple option \<times> 'd sort_system) option" where
  "get_from i s = (case ch_cells (channels s ! i) of
       [] \<Rightarrow> None
     | cell # cs \<Rightarrow> Some (cell, s\<lparr>channels := (channels s)[i := (channels s ! i)\<lparr>ch_cells := cs\<rparr>]\<rparr>))"

definition master_result :: "master_pc \<Rightarrow> 'd sort_system \<Rightarrow> pg_error + 'd Tuplesortstate \<Rightarrow> 'd sort_system" where
  "master_result pc s r = (case r of Inl e \<Rightarrow> s\<lparr>master := MError e\<rparr> | Inr state \<Rightarrow> s\<lparr>master := pc, msort := state\<rparr>)"

text \<open>\<^verbatim>\<open>ExecSort\<close>: the parallel branch, from waiting for the workers on.\<close>

fun ExecSort :: "'d sort_job \<Rightarrow> master_pc \<Rightarrow> 'd sort_system \<Rightarrow> 'd sort_system option" where
  "ExecSort job MWaitInitial s =
     (if all_ready job PRL_WORKER_STATE_INITIAL (job_dop job) s
      then Some (master_result MReady s (registerWorkers (msort s) (job_dop job) (workersList s) (wtab s)))
      else None)"
| "ExecSort job MReady s =
     Some ((transition job PRL_WORKER_STATE_INITIAL PRL_WORKER_STATE_READY s)\<lparr>master := MLoad\<rparr>)"
| "ExecSort job MLoad s = (case outer s of
       [] \<Rightarrow> Some (s\<lparr>master := MLast 0\<rparr>)
     | slot # rest \<Rightarrow> (case distributeToWorker (job_env job) (msort s) slot of (i, cell, state) \<Rightarrow>
         map_option (\<lambda>s. s\<lparr>msort := state, outer := rest\<rparr>) (add_to job i cell s)))"
| "ExecSort job (MLast i) s =
     (if int i < workersCnt (msort s)
      then map_option (\<lambda>s. s\<lparr>master := MLast (i + 1)\<rparr>) (add_to job (workers (msort s) ! i) None s)
      else Some (s\<lparr>master := MWaitFinished\<rparr>))"
| "ExecSort job MWaitFinished s =
     (if all_ready job PRL_WORKER_STATE_FINISHED (job_dop job) s then Some (s\<lparr>master := MAck\<rparr>) else None)"
| "ExecSort job MAck s =
     Some ((transition job PRL_WORKER_STATE_FINISHED PRL_WORKER_STATE_FINISHED_ACK s)\<lparr>master := MPrepare 0\<rparr>)"
| "ExecSort job (MPrepare cw) s =
     (if int cw < workersCnt (msort s)
      then map_option (\<lambda>(cell, s). master_result (MPrepare (cw + 1)) s (prepare_worker (job_env job) cw cell (msort s)))
             (get_from (workers (msort s) ! cw) s)
      else Some (s\<lparr>master := MFetch, msort := prepare_end (msort s)\<rparr>))"
| "ExecSort job MFetch s =
     (if isParallelEnded (msort s) then Some (s\<lparr>master := MDone\<rparr>)
      else map_option (\<lambda>(cell, s'). case tuplesort_gettupleslot_from_worker (job_env job) (msort s) cell of
               Inl e \<Rightarrow> s'\<lparr>master := MError e\<rparr>
             | Inr (slot, state) \<Rightarrow> s'\<lparr>msort := state, slots := slots s @ (case slot of None \<Rightarrow> [] | Some t \<Rightarrow> [t])\<rparr>)
           (if workersFinished (msort s) ! merge_source (msort s) then Some (None, s)
            else get_from (workers (msort s) ! merge_source (msort s)) s))"
| "ExecSort job _ s = None"

text \<open>
  \<^verbatim>\<open>ExecEndSort\<close>: stopping the workers, possibly before they have sent everything. For every
  worker that has not ended, the stop flag of its queue is set, and if it was not set before,
  one cell is taken out without waiting, so that a worker that waits for room can go on; both
  happen while the master holds the lock of the worker. When all have ended, their queues are
  destroyed and they are told to die.
\<close>

definition set_stop :: "'d channel \<Rightarrow> bool \<times> 'd channel" where
  "set_stop q = (ch_stop q, q\<lparr>ch_stop := True\<rparr>)"

definition get_no_wait :: "'d channel \<Rightarrow> 'd sort_tuple option option \<times> 'd channel" where
  "get_no_wait q = (case ch_cells q of [] \<Rightarrow> (None, q) | cell # cs \<Rightarrow> (Some cell, q\<lparr>ch_cells := cs\<rparr>))"

definition of_job :: "'d sort_job \<Rightarrow> Worker \<Rightarrow> bool" where
  "of_job job w \<longleftrightarrow> valid w \<and> jobId (work w) = job_number job"

definition end_worker :: "Worker \<Rightarrow> Worker" where
  "end_worker w = w\<lparr>worker_state := PRL_WORKER_STATE_READY, work := (work w)\<lparr>workType := PRL_WORK_TYPE_END\<rparr>\<rparr>"

text \<open>
  The last loop drains the queue of each worker, removes its work from the list of the postmaster
  and the worker from the list that the loop walks, and goes on from there. The queue has been
  freed by then: to look at its head is to read freed memory. Had it not been freed, the
  list cell at which the loop stands would be freed next, and read to find the following one.
\<close>

definition release_worker :: "nat \<Rightarrow> 'd sort_system \<Rightarrow> 'd sort_system" where
  "release_worker i s = (case queues s ! i of
       None \<Rightarrow> s\<lparr>master := EError wild\<rparr>
     | Some _ \<Rightarrow> s\<lparr>channels := (channels s)[i := (channels s ! i)\<lparr>ch_cells := []\<rparr>],
           prlJobsList := remove1 i (prlJobsList s), workersList := remove1 i (workersList s), master := EError wild\<rparr>)"

fun ExecEndSort :: "'d sort_job \<Rightarrow> master_pc \<Rightarrow> 'd sort_system \<Rightarrow> 'd sort_system option" where
  "ExecEndSort job (EStop k) s =
     (if k < length (workersList s)
      then (let i = workersList s ! k; w = wtab s ! i
            in if of_job job w \<and> worker_state w \<noteq> PRL_WORKER_STATE_END
               then (case set_stop (channels s ! i) of (lastValue, q) \<Rightarrow>
                 Some (s\<lparr>channels := (channels s)[i := q], master := (if lastValue then EStop (k + 1) else EClear k)\<rparr>))
               else Some (s\<lparr>master := EStop (k + 1)\<rparr>))
      else Some (s\<lparr>master := EWaitEnd\<rparr>))"
| "ExecEndSort job (EClear k) s =
     (let i = workersList s ! k
      in Some (s\<lparr>channels := (channels s)[i := snd (get_no_wait (channels s ! i))], master := EStop (k + 1)\<rparr>))"
| "ExecEndSort job EWaitEnd s =
     (if all_ready job PRL_WORKER_STATE_END (nat (workersCnt (msort s))) s then Some (s\<lparr>master := EEnd 0\<rparr>) else None)"
| "ExecEndSort job (EEnd k) s =
     (if k < length (workersList s)
      then (let i = workersList s ! k
            in if of_job job (wtab s ! i)
               then (case queues s ! i of
                   None \<Rightarrow> Some (s\<lparr>master := EError wild\<rparr>)
                 | Some old \<Rightarrow> (case destroyBufferQueue old (sems s) of
                     (Inl e, m) \<Rightarrow> Some (s\<lparr>sems := m, master := EError e\<rparr>)
                   | (Inr _, m) \<Rightarrow> Some (s\<lparr>sems := m, queues := (queues s)[i := None],
                       wtab := (wtab s)[i := end_worker (wtab s ! i)], master := EEnd (k + 1)\<rparr>)))
               else Some (s\<lparr>master := EEnd (k + 1)\<rparr>))
      else Some (s\<lparr>master := EWaitDead\<rparr>))"
| "ExecEndSort job EWaitDead s =
     (if all_ready job PRL_WORKER_STATE_DEAD (nat (workersCnt (msort s))) s then Some (s\<lparr>master := ERelease 0\<rparr>) else None)"
| "ExecEndSort job (ERelease k) s =
     (if k < length (workersList s)
      then (let i = workersList s ! k
            in Some (if of_job job (wtab s ! i) then release_worker i s else s\<lparr>master := ERelease (k + 1)\<rparr>))
      else Some (s\<lparr>master := EOver\<rparr>))"
| "ExecEndSort job _ s = None"

section \<open>Runs\<close>

definition master_step :: "'d sort_job \<Rightarrow> 'd sort_system \<Rightarrow> 'd sort_system option" where
  "master_step job s = (case ExecSort job (master s) s of Some s' \<Rightarrow> Some s' | None \<Rightarrow> ExecEndSort job (master s) s)"

text \<open>
  The locks of workers are released within the step that takes them, except that the master
  keeps the lock of a worker between setting the stop flag and taking a cell: a worker
  whose next step needs its lock waits.
\<close>

definition master_holds :: "nat \<Rightarrow> 'd sort_system \<Rightarrow> bool" where
  "master_holds i s = (case master s of EClear k \<Rightarrow> workersList s ! k = i | _ \<Rightarrow> False)"

fun needs_lock :: "'d worker_pc \<Rightarrow> bool" where
  "needs_lock (WReceive _) = False"
| "needs_lock (WFetch _) = False"
| "needs_lock (WAdd _ _) = False"
| "needs_lock _ = True"

definition worker_step :: "'d sort_job \<Rightarrow> int \<Rightarrow> nat \<Rightarrow> 'd sort_system \<Rightarrow> 'd sort_system option" where
  "worker_step job pid i s =
     (if master_holds i s \<and> needs_lock (wprocs s ! i) then None
      else map_option (\<lambda>(w, q, pc). s\<lparr>wtab := (wtab s)[i := w], channels := (channels s)[i := q], wprocs := (wprocs s)[i := pc]\<rparr>)
        (slaveBackendMain job pid (wtab s ! i) (channels s ! i) (wprocs s ! i)))"

text \<open>
  The executor may end the plan as soon as tuples can be fetched: at the end of the
  result, or before, when it has enough.
\<close>

inductive sort_step :: "'d sort_job \<Rightarrow> 'd sort_system \<Rightarrow> 'd sort_system \<Rightarrow> bool" for job where
  step_master: "master_step job s = Some s' \<Longrightarrow> sort_step job s s'"
| step_worker: "i < length (wprocs s) \<Longrightarrow> worker_step job pid i s = Some s' \<Longrightarrow> sort_step job s s'"
| step_end: "master s = MFetch \<or> master s = MDone \<Longrightarrow> sort_step job s (s\<lparr>master := EStop 0\<rparr>)"

end
