(* ===== verification/ParallelWorker.thy ===== *)
theory ParallelWorker
  imports ParallelSort
begin

text \<open>
  The worker's side of a parallel sort: what a worker does from its start to its end,
  stage by stage, given what the master has sent it. Every stage has a rank that each of
  the worker's steps lowers.
\<close>

section \<open>What a worker delivers\<close>

text \<open>The tuples a finished sort hands out one after the other, up to the end.\<close>

primrec delivers :: "'d sort_env \<Rightarrow> bool \<Rightarrow> MinimalTuple list \<Rightarrow> 'd Tuplesortstate \<Rightarrow> bool" where
  "delivers env fwd [] s \<longleftrightarrow> (\<exists>s'. prl_tuplesort_getsorttuple env s fwd (fresh_slot env) = Inr (None, s'))"
| "delivers env fwd (x # xs) s \<longleftrightarrow>
     (\<exists>p s'. prl_tuplesort_getsorttuple env s fwd (fresh_slot env) = Inr (Some p, s') \<and> tuple p = x \<and>
        delivers env fwd xs s')"

lemma getsorttuple_mem:
  "status s = TSS_SORTEDINMEM \<Longrightarrow> prl_tuplesort_getsorttuple env s fwd p =
     bindE (gettuple_mem env s fwd) (\<lambda>(x, _, s). Inr (map_option (\<lambda>x. p\<lparr>tuple := tuple x, isnull1 := isnull1 x\<rparr>) x, s))"
  by (simp add: prl_tuplesort_getsorttuple_def tuplesort_gettuple_common_def)

text \<open>A sort in memory delivers its result.\<close>

lemma delivers_rest:
  assumes "status s = TSS_SORTEDINMEM" "memtupcount s \<le> length (memtuples s)" "is_slave env"
    and "current s = int c" "c \<le> memtupcount s"
  shows "delivers env True (drop c (sorted_result s)) s"
  using assms
proof (induction "memtupcount s - c" arbitrary: s c)
  case 0
  then have "drop c (sorted_result s) = []" by (simp add: sorted_result_def)
  with 0 show ?case by (simp add: getsorttuple_mem gettuple_mem_def Let_def)
next
  case (Suc n)
  let ?s = "s\<lparr>current := int (Suc c)\<rparr>"
  have c: "c < memtupcount s" using Suc by simp
  have "delivers env True (drop (Suc c) (sorted_result ?s)) ?s"
    by (rule Suc.hyps(1)) (use Suc.prems Suc.hyps(2) c in auto)
  moreover have "sorted_result ?s = sorted_result s" by (simp add: sorted_result_def)
  moreover have "drop c (sorted_result s) = tuple (memtuples s ! c) # drop (Suc c) (sorted_result s)"
    using c Suc.prems(2) by (simp add: sorted_result_def flip: Cons_nth_drop_Suc)
  ultimately show ?case using Suc.prems c by (simp add: getsorttuple_mem gettuple_mem_def add.commute)
qed

lemma delivers_result:
  "status s = TSS_SORTEDINMEM \<Longrightarrow> memtupcount s \<le> length (memtuples s) \<Longrightarrow> is_slave env \<Longrightarrow> current s = 0 \<Longrightarrow>
   delivers env True (sorted_result s) s"
  using delivers_rest [of s env 0] by simp

text \<open>
  The path of a tuple through the queue gives the sort the tuple that a local sort would
  have been given.
\<close>

lemma puttupleslot_prl_tuple: "tuplesort_puttupleslot_prl env p = tuplesort_puttupleslot env (tuple p)"
  by (auto simp: fun_eq_iff tuplesort_puttupleslot_prl_def tuplesort_puttupleslot_def copytup_heap_def
      computeDatum1_def Let_def split: prod.splits)

section \<open>A worker's data\<close>

text \<open>
  What a worker is given in all and what it will deliver: it starts its sort in
  \<open>s0\<close>, takes in \<open>share\<close> and delivers \<open>out\<close>.
\<close>

definition worker_data ::
  "'d sort_job \<Rightarrow> 'd Tuplesortstate \<Rightarrow> MinimalTuple list \<Rightarrow> MinimalTuple list \<Rightarrow> bool" where
  "worker_data job s0 share out \<longleftrightarrow> sort_begin job (slave_env job) = Inr s0 \<and>
     (\<exists>s1 s2. foldE (tuplesort_puttupleslot (slave_env job)) share s0 = Inr s1 \<and>
        tuplesort_performsort (slave_env job) s1 = Some (Inr s2) \<and>
        delivers (slave_env job) (job_forward job) out s2)"

definition all_cells :: "MinimalTuple list \<Rightarrow> MinimalTuple option list" where
  "all_cells share = map Some share @ [None]"

definition cell_vals :: "'d channel \<Rightarrow> MinimalTuple option list" where
  "cell_vals q = map (map_option tuple) (ch_cells q)"

definition sort_worker :: "'d sort_job \<Rightarrow> Worker \<Rightarrow> bool" where
  "sort_worker job w \<longleftrightarrow> valid w \<and> jobId (work w) = job_number job \<and> workType (work w) = PRL_WORK_TYPE_SORT"

lemma all_cells_prefix:
  assumes "all_cells share = (map Some rs @ c # cs) @ rest"
  shows "(c = None \<and> share = rs \<and> cs = [] \<and> rest = []) \<or>
    (\<exists>t us. c = Some t \<and> share = rs @ t # us \<and> all_cells us = cs @ rest)"
  using assms
proof (induction rs arbitrary: share)
  case Nil
  then show ?case by (cases share) (auto simp: all_cells_def)
next
  case (Cons r rs)
  then obtain us where us: "share = r # us" by (cases share) (auto simp: all_cells_def)
  with Cons.prems have "all_cells us = (map Some rs @ c # cs) @ rest" by (simp add: all_cells_def)
  from Cons.IH [OF this] us show ?case by auto
qed

section \<open>Stages\<close>

text \<open>While the master deals out: \<open>given\<close> has been sent to the worker.\<close>

fun receiving ::
  "'d sort_job \<Rightarrow> 'd Tuplesortstate \<Rightarrow> MinimalTuple list \<Rightarrow> MinimalTuple list \<Rightarrow> MinimalTuple option list \<Rightarrow>
   Worker \<Rightarrow> 'd channel \<Rightarrow> 'd worker_pc \<Rightarrow> nat \<Rightarrow> bool" where
  "receiving job s0 share out given w q WWait r \<longleftrightarrow> worker_state w = PRL_WORKER_STATE_READY \<and>
     cell_vals q = given \<and> r = 2 * length out + length share + 9"
| "receiving job s0 share out given w q (WReceive s) r \<longleftrightarrow> worker_state w = PRL_WORKER_STATE_READY \<and>
     (\<exists>rs. given = map Some rs @ cell_vals q \<and> foldE (tuplesort_puttupleslot (slave_env job)) rs s0 = Inr s \<and>
        length rs \<le> length share \<and> r = 2 * length out + 8 + length share - length rs)"
| "receiving job s0 share out given w q (WPerform s) r \<longleftrightarrow> worker_state w = PRL_WORKER_STATE_READY \<and>
     given = all_cells share \<and> ch_cells q = [] \<and>
     foldE (tuplesort_puttupleslot (slave_env job)) share s0 = Inr s \<and> r = 2 * length out + 7"
| "receiving job s0 share out given w q (WAck s) r \<longleftrightarrow> worker_state w = PRL_WORKER_STATE_FINISHED \<and>
     given = all_cells share \<and> ch_cells q = [] \<and>
     delivers (slave_env job) (job_forward job) out s \<and> r = 2 * length out + 6"
| "receiving job s0 share out given w q _ r \<longleftrightarrow> False"

text \<open>While the master merges: \<open>R\<close> is what will still come out of the queue.\<close>

fun sending ::
  "'d sort_job \<Rightarrow> MinimalTuple option list \<Rightarrow> Worker \<Rightarrow> 'd channel \<Rightarrow> 'd worker_pc \<Rightarrow> nat \<Rightarrow> bool" where
  "sending job R w q (WAck s) r \<longleftrightarrow> worker_state w = PRL_WORKER_STATE_FINISHED_ACK \<and>
     (\<exists>xs. delivers (slave_env job) (job_forward job) xs s \<and> R = cell_vals q @ all_cells xs \<and> r = 2 * length xs + 6)"
| "sending job R w q (WFetch s) r \<longleftrightarrow> worker_state w = PRL_WORKER_STATE_FINISHED_ACK \<and>
     (\<exists>xs. delivers (slave_env job) (job_forward job) xs s \<and> R = cell_vals q @ all_cells xs \<and> r = 2 * length xs + 5)"
| "sending job R w q (WAdd None s) r \<longleftrightarrow> worker_state w = PRL_WORKER_STATE_FINISHED_ACK \<and>
     R = cell_vals q @ [None] \<and> r = 4"
| "sending job R w q (WAdd (Some p) s) r \<longleftrightarrow> worker_state w = PRL_WORKER_STATE_FINISHED_ACK \<and>
     (\<exists>xs. delivers (slave_env job) (job_forward job) xs s \<and>
        R = cell_vals q @ Some (tuple p) # all_cells xs \<and> r = 2 * length xs + 6)"
| "sending job R w q WEnd r \<longleftrightarrow> worker_state w = PRL_WORKER_STATE_FINISHED_ACK \<and> R = cell_vals q \<and> r = 3"
| "sending job R w q WWait r \<longleftrightarrow> worker_state w = PRL_WORKER_STATE_END \<and> R = cell_vals q \<and> r = 2"
| "sending job R w q _ r \<longleftrightarrow> False"

text \<open>A worker that has nothing more to send.\<close>

definition sent_all :: "Worker \<Rightarrow> 'd worker_pc \<Rightarrow> bool" where
  "sent_all w pc \<longleftrightarrow> pc = WEnd \<or> worker_state w = PRL_WORKER_STATE_END"

text \<open>After the order to end.\<close>

fun ending :: "Worker \<Rightarrow> 'd worker_pc \<Rightarrow> nat \<Rightarrow> bool" where
  "ending w WWait r \<longleftrightarrow> worker_state w = PRL_WORKER_STATE_READY \<and> workType (work w) = PRL_WORK_TYPE_END \<and> r = 2"
| "ending w WDead r \<longleftrightarrow> worker_state w = PRL_WORKER_STATE_READY \<and> r = 1"
| "ending w WExit r \<longleftrightarrow> worker_state w = PRL_WORKER_STATE_DEAD \<and> r = 0"
| "ending w _ r \<longleftrightarrow> False"

section \<open>Steps of a worker in each stage\<close>

lemma foldE_snoc: "foldE f (xs @ [x]) s = bindE (foldE f xs s) (f x)"
proof (cases "foldE f xs s")
  case (Inr s1)
  then show ?thesis by (cases "f x s1") (simp_all add: foldE_append)
qed (simp add: foldE_append)

lemma foldE_prefix: "foldE f (xs @ ys) s = Inr s' \<Longrightarrow> \<exists>s1. foldE f xs s = Inr s1"
  by (auto simp: foldE_append bindE_Inr_iff)

lemma cell_vals_simps [simp]:
  "cell_vals (q\<lparr>ch_cells := c # cs\<rparr>) = map_option tuple c # map (map_option tuple) cs"
  "cell_vals \<lparr>ch_cells = ch_cells q @ [c], ch_stop = b\<rparr> = cell_vals q @ [map_option tuple c]"
  "cell_vals (q\<lparr>ch_stop := b\<rparr>) = cell_vals q"
  by (simp_all add: cell_vals_def)

lemma cell_vals_Cons: "ch_cells q = c # cs \<Longrightarrow> cell_vals q = map_option tuple c # cell_vals (q\<lparr>ch_cells := cs\<rparr>)"
  by (simp add: cell_vals_def)

lemma cell_vals_Nil [simp]: "cell_vals q = [] \<longleftrightarrow> ch_cells q = []"
  by (simp add: cell_vals_def)

text \<open>Taking a cell out of the queue.\<close>

lemma receive_cell:
  assumes data: "worker_data job s0 share out" and given: "all_cells share = given @ rest"
    and inv: "receiving job s0 share out given w q (WReceive s) r"
    and q: "ch_cells q = c # cs"
  shows "\<exists>pc' r'. doSort job w q (WReceive s) = Some (w, q\<lparr>ch_cells := cs\<rparr>, pc') \<and> r' < r \<and>
    receiving job s0 share out given w (q\<lparr>ch_cells := cs\<rparr>) pc' r'"
proof -
  obtain rs where rs: "given = map Some rs @ cell_vals q" "foldE (tuplesort_puttupleslot (slave_env job)) rs s0 = Inr s"
    "length rs \<le> length share" "r = 2 * length out + 8 + length share - length rs"
    "worker_state w = PRL_WORKER_STATE_READY" using inv by auto
  let ?q = "q\<lparr>ch_cells := cs\<rparr>"
  have "all_cells share = (map Some rs @ map_option tuple c # cell_vals ?q) @ rest"
    using given rs(1) cell_vals_Cons [OF q] by simp
  from all_cells_prefix [OF this] show ?thesis
  proof (elim disjE exE conjE)
    assume "map_option tuple c = None" "share = rs" "cell_vals ?q = []"
    with rs q given show ?thesis
      by (intro exI [of _ "WPerform s"] exI [of _ "2 * length out + 7"]) (auto simp: all_cells_def cell_vals_Cons)
  next
    fix t us assume t: "map_option tuple c = Some t" "share = rs @ t # us"
    then obtain p where p: "c = Some p" "tuple p = t" by auto
    from data t obtain s1 where "foldE (tuplesort_puttupleslot (slave_env job)) ((rs @ [t]) @ us) s0 = Inr s1"
      by (auto simp: worker_data_def)
    from foldE_prefix [OF this] obtain s' where
      s': "foldE (tuplesort_puttupleslot (slave_env job)) (rs @ [t]) s0 = Inr s'" by (rule exE)
    with rs(2) have "tuplesort_puttupleslot (slave_env job) t s = Inr s'" by (simp add: foldE_snoc)
    with q p have "doSort job w q (WReceive s) = Some (w, ?q, WReceive s')" by (simp add: puttupleslot_prl_tuple)
    moreover have "receiving job s0 share out given w ?q (WReceive s') (2 * length out + 8 + length share - length (rs @ [t]))"
      unfolding receiving.simps
      by (intro conjI exI [of _ "rs @ [t]"]) (use rs s' t cell_vals_Cons [OF q] in auto)
    moreover have "2 * length out + 8 + length share - length (rs @ [t]) < r" using rs(4) t(2) by simp
    ultimately show ?thesis by blast
  qed
qed

lemma receiving_step:
  assumes data: "worker_data job s0 share out" and given: "all_cells share = given @ rest"
    and w: "sort_worker job w" and inv: "receiving job s0 share out given w q pc r"
    and step: "slaveBackendMain job pid w q pc = Some (w', q', pc')"
  shows "sort_worker job w' \<and> ch_stop q' = ch_stop q \<and> (\<exists>r'<r. receiving job s0 share out given w' q' pc' r')"
proof (cases pc)
  case WWait
  with data w inv step show ?thesis
    by (auto simp: waitForState_def sort_worker_def worker_data_def intro!: exI [of _ "2 * length out + 8 + length share"])
next
  case (WReceive s)
  with step obtain c cs where q: "ch_cells q = c # cs" by (cases "ch_cells q") auto
  from receive_cell [OF data given inv [unfolded WReceive] q] step w WReceive show ?thesis by auto
next
  case (WPerform s)
  with data inv step w show ?thesis by (auto simp: worker_data_def sort_worker_def)
next
  case (WAck s)
  with inv step show ?thesis by (simp add: waitForState_def)
qed (use inv in simp_all)

text \<open>A worker that is not waiting for the acknowledgement can go on.\<close>

lemma receiving_enabled:
  assumes data: "worker_data job s0 share out" and given: "all_cells share = given @ rest"
    and w: "sort_worker job w" and inv: "receiving job s0 share out given w q pc r"
    and go: "ch_cells q \<noteq> [] \<or> (given = all_cells share \<and> worker_state w \<noteq> PRL_WORKER_STATE_FINISHED)"
  shows "slaveBackendMain job pid w q pc \<noteq> None"
proof (cases pc)
  case WWait
  with data w inv show ?thesis by (auto simp: waitForState_def sort_worker_def worker_data_def)
next
  case (WReceive s)
  have "ch_cells q \<noteq> []"
  proof
    assume "ch_cells q = []"
    with go inv WReceive obtain rs where "all_cells share = map Some rs" by (auto simp: cell_vals_def)
    then have "last (all_cells share) \<noteq> None" by (metis all_cells_def last_map last_snoc map_is_Nil_conv option.distinct(1) snoc_eq_iff_butlast)
    then show False by (simp add: all_cells_def)
  qed
  then obtain c cs where "ch_cells q = c # cs" by (cases "ch_cells q") auto
  from receive_cell [OF data given inv [unfolded WReceive] this] WReceive show ?thesis by auto
next
  case (WPerform s)
  with data inv show ?thesis by (auto simp: worker_data_def)
next
  case (WAck s)
  with inv go show ?thesis by simp
qed (use inv in simp_all)

definition sends_on ::
  "'d sort_job \<Rightarrow> MinimalTuple option list \<Rightarrow> nat \<Rightarrow> Worker \<Rightarrow> 'd channel \<Rightarrow> 'd worker_pc \<Rightarrow>
   Worker \<Rightarrow> 'd channel \<Rightarrow> 'd worker_pc \<Rightarrow> bool" where
  "sends_on job R r w q pc w' q' pc' \<longleftrightarrow> sort_worker job w' \<and>
    (\<exists>R' r'. r' < r \<and> sending job R' w' q' pc' r' \<and> (\<not> ch_stop q \<or> sent_all w pc \<longrightarrow> R' = R)) \<and>
    (ch_stop q' \<longrightarrow> ch_stop q \<or> sent_all w' pc') \<and> (sent_all w pc \<longrightarrow> sent_all w' pc') \<and> (ch_stop q \<longrightarrow> ch_stop q') \<and>
    (ch_stop q \<and> channel_room job q \<longrightarrow> channel_room job q' \<or> sent_all w' pc')"

lemma sends_onI:
  assumes "sort_worker job w'" "r' < r" "sending job R' w' q' pc' r'" "\<not> ch_stop q \<or> sent_all w pc \<longrightarrow> R' = R"
    and "ch_stop q' \<longrightarrow> ch_stop q \<or> sent_all w' pc'" "sent_all w pc \<longrightarrow> sent_all w' pc'" "ch_stop q \<longrightarrow> ch_stop q'"
    and "ch_stop q \<and> channel_room job q \<longrightarrow> channel_room job q' \<or> sent_all w' pc'"
  shows "sends_on job R r w q pc w' q' pc'"
  unfolding sends_on_def using assms by blast

lemma sending_step:
  assumes w: "sort_worker job w" and inv: "sending job R w q pc r"
    and step: "slaveBackendMain job pid w q pc = Some (w', q', pc')"
  shows "sends_on job R r w q pc w' q' pc'"
proof (cases pc)
  case (WAck s)
  with inv obtain xs where xs: "delivers (slave_env job) (job_forward job) xs s" "R = cell_vals q @ all_cells xs"
    "r = 2 * length xs + 6" "worker_state w = PRL_WORKER_STATE_FINISHED_ACK" by auto
  with step WAck have new: "w' = w" "q' = q" "pc' = WFetch s" by (auto simp: waitForState_def)
  show ?thesis
    by (rule sends_onI [where R' = R and r' = "2 * length xs + 5"]) (use xs new w WAck in \<open>auto simp: sent_all_def\<close>)
next
  case (WFetch s)
  with inv obtain xs where xs: "delivers (slave_env job) (job_forward job) xs s" "R = cell_vals q @ all_cells xs"
    "r = 2 * length xs + 5" "worker_state w = PRL_WORKER_STATE_FINISHED_ACK" by auto
  show ?thesis
  proof (cases xs)
    case Nil
    show ?thesis
      by (rule sends_onI [where R' = R and r' = 4])
        (use Nil xs w step WFetch in \<open>auto simp: all_cells_def sent_all_def\<close>)
  next
    case (Cons x ys)
    show ?thesis
      by (rule sends_onI [where R' = R and r' = "2 * length ys + 6"])
        (use Cons xs w step WFetch in \<open>auto simp: all_cells_def sent_all_def\<close>)
  qed
next
  case (WAdd c s)
  with step have q': "channel_add c True q = (ch_stop q', q')" and new: "w' = w"
    and pc': "pc' = (if c = None \<or> ch_stop q' then WEnd else WFetch s)"
    by (auto simp: channel_add_def Let_def split: if_splits)
  have vals: "cell_vals q' = cell_vals q @ [map_option tuple c]" and stop: "ch_stop q' \<longleftrightarrow> ch_stop q \<or> c = None"
    using q' by (auto simp: channel_add_def Let_def cell_vals_def)
  have st: "worker_state w = PRL_WORKER_STATE_FINISHED_ACK" using inv WAdd by (cases c) auto
  show ?thesis
  proof (cases "ch_stop q'")
    case True
    have "3 < r" using inv WAdd by (cases c) auto
    moreover have "\<not> ch_stop q \<longrightarrow> cell_vals q' = R" using inv WAdd stop True vals by auto
    ultimately show ?thesis
      by (intro sends_onI [where R' = "cell_vals q'" and r' = 3])
        (use True w new pc' stop st WAdd in \<open>auto simp: sent_all_def\<close>)
  next
    case False
    then obtain p where p: "c = Some p" "\<not> ch_stop q" using stop by auto
    with WAdd inv obtain xs where xs: "delivers (slave_env job) (job_forward job) xs s"
      "R = cell_vals q @ Some (tuple p) # all_cells xs" "r = 2 * length xs + 6" by auto
    show ?thesis
      by (rule sends_onI [where R' = R and r' = "2 * length xs + 5"])
        (use False p xs w new pc' vals st WAdd in \<open>auto simp: sent_all_def\<close>)
  qed
next
  case WEnd
  show ?thesis
    by (rule sends_onI [where R' = R and r' = 2]) (use WEnd w inv step in \<open>auto simp: sent_all_def sort_worker_def cell_vals_def\<close>)
next
  case WWait
  with inv step show ?thesis by (auto simp: waitForState_def)
qed (use inv in simp_all)

lemma sending_enabled:
  assumes inv: "sending job R w q pc r" and room: "channel_room job q"
    and go: "worker_state w \<noteq> PRL_WORKER_STATE_END"
  shows "slaveBackendMain job pid w q pc \<noteq> None"
proof (cases pc)
  case (WFetch s)
  with inv obtain xs where "delivers (slave_env job) (job_forward job) xs s" by auto
  with WFetch show ?thesis by (cases xs) auto
next
  case (WAdd c s)
  with room show ?thesis by (simp split: prod.splits)
qed (use inv go in \<open>auto simp: waitForState_def\<close>)

lemma ending_step:
  assumes "ending w pc r" and "slaveBackendMain job pid w q pc = Some (w', q', pc')"
  shows "\<exists>r'<r. ending w' pc' r' \<and> valid w' = valid w \<and> jobId (work w') = jobId (work w)"
  using assms by (cases pc) (auto simp: waitForState_def)

lemma ending_enabled:
  "ending w pc r \<Longrightarrow> worker_state w \<noteq> PRL_WORKER_STATE_DEAD \<Longrightarrow> slaveBackendMain job pid w q pc \<noteq> None"
  by (cases pc) (auto simp: waitForState_def)

end
