(* ===== verification/ParallelMerge.thy ===== *)
theory ParallelMerge
  imports ParallelWorker
begin

text \<open>
  The master's side of the data: dealing the input out in turn, and merging the streams
  that come back. The merge rests on the contract of the sort's priority queue and the
  invariant of merging in theory \<open>TupleQueue\<close>.
\<close>

section \<open>Dealing out\<close>

text \<open>The tuples that go to worker \<open>i\<close> of \<open>n\<close>.\<close>

definition share :: "nat \<Rightarrow> nat \<Rightarrow> 'a list \<Rightarrow> 'a list" where
  "share n i ts = map ((!) ts) (filter (\<lambda>j. j mod n = i) [0..<length ts])"

lemma share_Nil [simp]: "share n i [] = []"
  by (simp add: share_def)

lemma share_snoc: "share n i (ts @ [t]) = share n i ts @ (if length ts mod n = i then [t] else [])"
proof -
  have "map ((!) (ts @ [t])) (filter (\<lambda>j. j mod n = i) [0..<length ts]) = share n i ts"
    by (auto simp: share_def nth_append)
  then show ?thesis by (simp add: share_def)
qed

lemma share_append: "\<exists>us. share n i (ts @ vs) = share n i ts @ us"
proof (induction vs rule: rev_induct)
  case (snoc v vs)
  then obtain us where "share n i (ts @ vs) = share n i ts @ us" by blast
  then show ?case using share_snoc [of n i "ts @ vs" v] by auto
qed simp

text \<open>Every tuple goes to exactly one worker.\<close>

lemma mset_shares: "0 < n \<Longrightarrow> (\<Sum>i<n. mset (share n i ts)) = mset ts"
proof (induction ts rule: rev_induct)
  case (snoc t ts)
  have "(\<Sum>i<n. mset (share n i (ts @ [t]))) =
      (\<Sum>i<n. mset (share n i ts) + (if length ts mod n = i then {#t#} else {#}))"
    by (rule sum.cong) (auto simp: share_snoc)
  then show ?case using snoc by (simp add: sum.distrib sum.delta')
qed simp

section \<open>Merging\<close>

text \<open>The tuple a master puts into its heap for tuple \<open>x\<close> from worker \<open>i\<close>.\<close>

definition heap_tuple :: "'d sort_env \<Rightarrow> 'd ScanKey list \<Rightarrow> nat \<Rightarrow> MinimalTuple \<Rightarrow> 'd sort_tuple" where
  "heap_tuple env ks i x = (case heap_getattr_in env x (sk_attno (ks ! 0)) of
     (d, null) \<Rightarrow> \<lparr>tuple = x, datum1 = d, isnull1 = null, tupindex = int i\<rparr>)"

lemma heap_tuple_simps [simp]:
  "tuple (heap_tuple env ks i x) = x" "tupindex (heap_tuple env ks i x) = int i" "datum1_ok env ks (heap_tuple env ks i x)"
  by (simp_all add: heap_tuple_def datum1_ok_def split: prod.splits)

lemma heap_tuple_image [simp]: "image_mset tuple (image_mset (heap_tuple env ks i) M) = M"
  by (simp add: multiset.map_comp o_def)

lemma received_heap_tuple:
  "(received_tuple env state p)\<lparr>tupindex := int i\<rparr> = heap_tuple env (scanKeys state) i (tuple p)"
  by (simp add: received_tuple_def computeDatum1_def heap_tuple_def split: prod.splits)

definition source :: "'d sort_tuple \<Rightarrow> nat" where
  "source x = nat (tupindex x)"

lemma source_heap_tuple [simp]: "source (heap_tuple env ks i x) = i"
  by (simp add: source_def)

text \<open>
  The merge after the first \<open>cw\<close> workers have been asked: \<open>R i\<close> is what will still
  come from worker \<open>i\<close>, \<open>outs i\<close> all it delivers, \<open>out\<close> what has been returned.
\<close>

definition stream_ok ::
  "'d sort_env \<Rightarrow> 'd ScanKey list \<Rightarrow> 'd Tuplesortstate \<Rightarrow> (nat \<Rightarrow> MinimalTuple option list) \<Rightarrow>
   (nat \<Rightarrow> 'd sort_tuple list) \<Rightarrow> nat \<Rightarrow> bool" where
  "stream_ok env ks s R S i \<longleftrightarrow>
     (if workersFinished s ! i then R i = [] \<and> S i = []
      else \<exists>xs. R i = all_cells xs \<and> S i = map (heap_tuple env ks i) xs)"

definition master_frame :: "'d ScanKey list \<Rightarrow> nat \<Rightarrow> 'd Tuplesortstate \<Rightarrow> bool" where
  "master_frame ks n s \<longleftrightarrow> scanKeys s = ks \<and> n \<le> memtupsize s \<and> length (workersFinished s) = n \<and>
     workersCnt s = int n \<and> workers s = [0..<n]"

definition merging ::
  "'d sort_env \<Rightarrow> 'd ScanKey list \<Rightarrow> nat \<Rightarrow> (nat \<Rightarrow> MinimalTuple list) \<Rightarrow> nat \<Rightarrow>
   (nat \<Rightarrow> MinimalTuple option list) \<Rightarrow> 'd Tuplesortstate \<Rightarrow> 'd sort_tuple list \<Rightarrow> (nat \<Rightarrow> 'd sort_tuple list) \<Rightarrow> bool" where
  "merging env ks n outs cw R s out S \<longleftrightarrow> heap_state env False s \<and> master_frame ks n s \<and> cw \<le> n \<and>
     merge_inv (tuplecmp (heap_getattr_in env) ks) source out (heap_elems s) S \<and>
     (\<forall>i<cw. stream_ok env ks s R S i) \<and>
     (\<forall>i. cw \<le> i \<longrightarrow> S i = [] \<and> (i < n \<longrightarrow> \<not> workersFinished s ! i \<and> R i = all_cells (outs i))) \<and>
     image_mset source (heap_elems s) = mset_set {i. i < cw \<and> \<not> workersFinished s ! i} \<and>
     (\<forall>h\<in>#heap_elems s + mset out. datum1_ok env ks h) \<and>
     image_mset tuple (mset out + heap_elems s + (\<Sum>i<cw. mset (S i))) = (\<Sum>i<cw. mset (outs i))"

lemma master_frame_insert:
  "s' = s\<lparr>memtuples := memtuples s', memtupcount := k\<rparr> \<Longrightarrow> master_frame ks n s' = master_frame ks n s \<and>
     workersFinished s' = workersFinished s \<and> isParallelEnded s' = isParallelEnded s"
proof -
  assume s': "s' = s\<lparr>memtuples := memtuples s', memtupcount := k\<rparr>"
  define m where "m = memtuples s'"
  have "s' = s\<lparr>memtuples := m, memtupcount := k\<rparr>" unfolding m_def by (rule s')
  then show ?thesis by (simp add: master_frame_def)
qed

lemma heap_state_finished [simp]:
  "heap_state env c (s\<lparr>workersFinished := f\<rparr>) = heap_state env c s"
  "heap_elems (s\<lparr>workersFinished := f\<rparr>) = heap_elems s"
  "heap_state env c (s\<lparr>isParallelEnded := b\<rparr>) = heap_state env c s"
  "heap_elems (s\<lparr>isParallelEnded := b\<rparr>) = heap_elems s"
  by (simp_all add: heap_state_def array_ok_def COMPARETUP_def heap_elems_def)

lemma merging_ended [simp]:
  "merging env ks n outs cw R (s\<lparr>isParallelEnded := b\<rparr>) out S = merging env ks n outs cw R s out S"
  by (simp add: merging_def master_frame_def stream_ok_def)

lemma merging_count:
  assumes "merging env ks n outs cw R s out S"
  shows "memtupcount s \<le> cw"
proof -
  have a: "array_ok s" and e: "image_mset source (heap_elems s) = mset_set {i. i < cw \<and> \<not> workersFinished s ! i}"
    using assms by (simp_all add: merging_def heap_state_def)
  have "memtupcount s = card {i. i < cw \<and> \<not> workersFinished s ! i}"
    using arg_cong [OF e, of size] heap_elems_size [OF a] by simp
  also have "\<dots> \<le> card {..<cw}" by (rule card_mono) auto
  finally show ?thesis by simp
qed

lemma merging_cmp: "merging env ks n outs cw R s out S \<Longrightarrow> sort_comparator (tuplecmp (heap_getattr_in env) ks)"
  using array_ok_comparator [of s env] by (simp add: merging_def heap_state_def master_frame_def COMPARETUP_def)

lemma merging_keys: "merging env ks n outs cw R s out S \<Longrightarrow> good_keys ks \<and> ks \<noteq> []"
  by (auto simp: merging_def heap_state_def master_frame_def array_ok_def)

text \<open>A stream of tuples in the order of the keys is one in the order of the heap.\<close>

lemma sorted_heap_tuples:
  assumes "good_keys ks" "ks \<noteq> []" "sorted_wrt (\<lambda>a b. key_order env ks a b \<le> 0) xs"
  shows "sorted_wrt (\<lambda>a b. tuplecmp (heap_getattr_in env) ks a b \<le> 0) (map (heap_tuple env ks i) xs)"
  using assms by (simp add: sorted_wrt_map tuplecmp_key_order)

lemma merge_inv_start:
  assumes "merge_inv cmp src [] H S" and "S i = []" and "sorted_wrt (\<lambda>a b. cmp a b \<le> 0) (x # xs)" and "src x = i"
  shows "merge_inv cmp src [] (add_mset x H) (S(i := xs))"
proof -
  have "\<exists>h\<in>#add_mset x H. src h = j \<and> cmp h (hd ((S(i := xs)) j)) \<le> 0" if j: "(S(i := xs)) j \<noteq> []" for j
  proof (cases "j = i")
    case True
    with j assms(3,4) show ?thesis by (cases xs) auto
  next
    case False
    with j assms(1) show ?thesis by (auto simp: merge_inv_def)
  qed
  with assms(1,3) show ?thesis by (auto simp: merge_inv_def)
qed

lemma sources_insert:
  "\<not> workersFinished s ! cw \<Longrightarrow>
   mset_set {i. i < Suc cw \<and> \<not> workersFinished s ! i} = add_mset cw (mset_set {i. i < cw \<and> \<not> workersFinished s ! i})"
proof -
  assume "\<not> workersFinished s ! cw"
  then have "{i. i < Suc cw \<and> \<not> workersFinished s ! i} = insert cw {i. i < cw \<and> \<not> workersFinished s ! i}" by (auto simp: less_Suc_eq)
  then show ?thesis by simp
qed

lemma prepare_merging:
  assumes inv: "merging env ks n outs cw R s [] S" and cw: "cw < n"
    and sorted: "sorted_wrt (\<lambda>a b. key_order env ks a b \<le> 0) (outs cw)"
    and cell: "R cw = map_option tuple cell # rest"
  shows "\<exists>s' S'. prepare_worker env cw cell s = Inr s' \<and> isParallelEnded s' = isParallelEnded s \<and>
    merging env ks n outs (Suc cw) (R(cw := rest)) s' [] S'"
proof -
  note i = inv [unfolded merging_def]
  have fin: "\<not> workersFinished s ! cw" "S cw = []" "R cw = all_cells (outs cw)" using i cw by auto
  show ?thesis
  proof (cases cell)
    case None
    with fin cell have out: "outs cw = []" "rest = []" by (cases "outs cw"; auto simp: all_cells_def)+
    let ?s = "s\<lparr>workersFinished := (workersFinished s)[cw := True]\<rparr>"
    have f: "(workersFinished s)[cw := True] ! j = (if j = cw then True else workersFinished s ! j)" for j
      using i cw by (auto simp: master_frame_def nth_list_update)
    have "{j. j < Suc cw \<and> \<not> (workersFinished s)[cw := True] ! j} = {j. j < cw \<and> \<not> workersFinished s ! j}"
      by (auto simp: f less_Suc_eq)
    then have "merging env ks n outs (Suc cw) (R(cw := rest)) ?s [] S"
      using i cw out fin
      by (auto simp: merging_def master_frame_def stream_ok_def f less_Suc_eq simp del: mset_set_eq_iff)
    then show ?thesis using None by (auto simp: prepare_worker_def)
  next
    case (Some p)
    with fin cell obtain xs where out: "outs cw = tuple p # xs" "rest = all_cells xs"
      by (cases "outs cw") (auto simp: all_cells_def)
    have "memtupcount s < memtupsize s" using merging_count [OF inv] cw i by (simp add: master_frame_def)
    from heap_insert_state [OF _ this, of env False "received_tuple env s p" "int cw"] i
    obtain s' where s': "tuplesort_heap_insert env s (received_tuple env s p) (int cw) False = Inr s'"
      "heap_state env False s'" "heap_elems s' = add_mset (heap_tuple env ks cw (tuple p)) (heap_elems s)"
      "s' = s\<lparr>memtuples := memtuples s', memtupcount := memtupcount s + 1\<rparr>"
      by (auto simp: received_heap_tuple master_frame_def)
    note fr = master_frame_insert [OF s'(4)]
    have m: "merge_inv (tuplecmp (heap_getattr_in env) ks) source [] (heap_elems s') (S(cw := map (heap_tuple env ks cw) xs))"
      unfolding s'(3) using i sorted_heap_tuples [of ks env "outs cw" cw] merging_keys [OF inv] sorted out fin
      by (intro merge_inv_start) auto
    have "merging env ks n outs (Suc cw) (R(cw := rest)) s' [] (S(cw := map (heap_tuple env ks cw) xs))"
      unfolding merging_def
      using i m fr s'(2,3) cw out fin sources_insert [of s cw]
      by (auto simp: stream_ok_def less_Suc_eq add.assoc [symmetric])
    then show ?thesis using Some s'(1) fr by (auto simp: prepare_worker_def)
  qed
qed

text \<open>
  One tuple of the merge: the root of the heap comes from a worker that has not finished;
  it is returned, and the next cell of that worker takes its place.
\<close>

lemma merge_root:
  assumes inv: "merging env ks n outs n R s out S" and some: "memtupcount s \<noteq> 0"
  shows "merge_source s < n" and "\<not> workersFinished s ! merge_source s" and "memtuples s ! 0 \<in># heap_elems s"
    and "R (merge_source s) \<noteq> []"
proof -
  note i = inv [unfolded merging_def]
  have len: "length (memtuples s) = memtupsize s" "memtupcount s \<le> memtupsize s"
    using i by (auto simp: heap_state_def array_ok_def)
  then show root: "memtuples s ! 0 \<in># heap_elems s"
    using some nth_mem [of 0 "take (memtupcount s) (memtuples s)"] by (simp add: heap_elems_def)
  have "finite {i. i < n \<and> \<not> workersFinished s ! i}" by simp
  moreover have "merge_source s \<in># image_mset source (heap_elems s)"
    using root by (auto simp: merge_source_def source_def)
  ultimately have m: "merge_source s < n" "\<not> workersFinished s ! merge_source s" using i by auto
  then show "merge_source s < n" "\<not> workersFinished s ! merge_source s" by blast+
  have "stream_ok env ks s R S (merge_source s)" using i m(1) by blast
  with m(2) show "R (merge_source s) \<noteq> []" by (auto simp: stream_ok_def all_cells_def)
qed

lemma fetch_merging:
  assumes inv: "merging env ks n outs n R s out S" and some: "memtupcount s \<noteq> 0" and go: "\<not> isParallelEnded s"
    and cell: "R (merge_source s) = map_option tuple cell # rest"
  shows "\<exists>s' S'. tuplesort_gettupleslot_from_worker env s cell = Inr (Some (tuple (memtuples s ! 0)), s') \<and>
    (isParallelEnded s' \<longleftrightarrow> memtupcount s' = 0) \<and>
    merging env ks n outs n (R(merge_source s := rest)) s' (out @ [memtuples s ! 0]) S'"
proof -
  note i = inv [unfolded merging_def]
  let ?m = "memtuples s ! 0" and ?k = "merge_source s" and ?cmp = "tuplecmp (heap_getattr_in env) ks"
  let ?s = "tuplesort_heap_siftup env s False"
  note root = merge_root [OF inv some]
  have src: "source ?m = ?k" by (simp add: merge_source_def source_def)
  have hs: "heap_state env False s" and pos: "0 < memtupcount s" using i some by auto
  note sift = heap_siftup_state [OF hs pos]
  have elems: "heap_elems s = add_mset ?m (heap_elems ?s)" using sift(2) by simp
  have least: "?cmp ?m h \<le> 0" if "h \<in># heap_elems ?s" for h
    using heap_state_root_least [OF hs, of h] that elems i by (simp add: COMPARETUP_def master_frame_def)
  have mi: "merge_inv ?cmp source out (add_mset ?m (heap_elems ?s)) S" using i elems by simp
  note cmp = merging_cmp [OF inv]
  have fin: "\<not> workersFinished ?s ! ?k" using root by simp
  have "stream_ok env ks s R S ?k" using i root(1) by blast
  then obtain xs where xs: "R ?k = all_cells xs" "S ?k = map (heap_tuple env ks ?k) xs"
    using root(2) by (auto simp: stream_ok_def)
  have fr: "master_frame ks n ?s = master_frame ks n s" by (simp add: master_frame_def)
  have srcs: "image_mset source (heap_elems ?s) = mset_set {j. j < n \<and> \<not> workersFinished s ! j} - {#?k#}"
  proof -
    have "mset_set {j. j < n \<and> \<not> workersFinished s ! j} = image_mset source (heap_elems s)" using i by simp
    then have "mset_set {j. j < n \<and> \<not> workersFinished s ! j} = add_mset ?k (image_mset source (heap_elems ?s))"
      by (simp add: elems src)
    then show ?thesis by simp
  qed
  show ?thesis
  proof (cases xs)
    case Nil
    with xs cell have c: "cell = None" "rest = []" by (auto simp: all_cells_def)
    let ?f = "?s\<lparr>workersFinished := (workersFinished s)[?k := True]\<rparr>"
    let ?s' = "if memtupcount ?f = 0 then ?f\<lparr>isParallelEnded := True\<rparr> else ?f"
    have res: "tuplesort_gettupleslot_from_worker env s cell = Inr (Some (tuple ?m), ?s')"
      using go fin c by (simp add: tuplesort_gettupleslot_from_worker_def refill_def Let_def)
    have f: "(workersFinished s)[?k := True] ! j = (if j = ?k then True else workersFinished s ! j)" for j
      using i root(1) by (auto simp: master_frame_def nth_list_update)
    have set: "{j. j < n \<and> \<not> (workersFinished s)[?k := True] ! j} = {j. j < n \<and> \<not> workersFinished s ! j} - {?k}"
      by (auto simp: f)
    have "merge_inv ?cmp source (out @ [?m]) (heap_elems ?s) S"
      using sort_comparator.merge_inv_last [OF cmp mi least] xs Nil src by simp
    then have "merging env ks n outs n (R(?k := rest)) ?f (out @ [?m]) S"
      using i sift(1) fr srcs root(1,2) set xs Nil c elems
      by (auto simp: merging_def stream_ok_def f master_frame_def mset_set_Diff)
    then have "merging env ks n outs n (R(?k := rest)) ?s' (out @ [?m]) S" by simp
    then show ?thesis using res go by (intro exI [of _ ?s'] exI [of _ S]) simp
  next
    case (Cons x ys)
    with xs cell obtain p where c: "cell = Some p" "tuple p = x" "rest = all_cells ys" by (auto simp: all_cells_def)
    have "memtupcount ?s < memtupsize ?s" using pos hs by (auto simp: heap_state_def array_ok_def)
    from heap_insert_state [OF sift(1) this, of "received_tuple env ?s p" "int ?k"]
    obtain s' where s': "tuplesort_heap_insert env ?s (received_tuple env ?s p) (int ?k) False = Inr s'"
      "heap_state env False s'" "heap_elems s' = add_mset (heap_tuple env ks ?k x) (heap_elems ?s)"
      "s' = ?s\<lparr>memtuples := memtuples s', memtupcount := memtupcount ?s + 1\<rparr>"
      using c i by (auto simp: received_heap_tuple master_frame_def)
    note fr' = master_frame_insert [OF s'(4)]
    have "heap_elems s' \<noteq> {#}" by (simp add: s'(3))
    then have cnt: "memtupcount s' \<noteq> 0" by (auto simp: heap_elems_def)
    have res: "tuplesort_gettupleslot_from_worker env s cell = Inr (Some (tuple ?m), s')"
      using go fin c s'(1) by (simp add: tuplesort_gettupleslot_from_worker_def refill_def Let_def)
    have "merge_inv ?cmp source (out @ [?m]) (heap_elems s') (S(?k := map (heap_tuple env ks ?k) ys))"
      using sort_comparator.merge_inv_next [OF cmp mi least, of "heap_tuple env ks ?k x" "map (heap_tuple env ks ?k) ys"]
        xs Cons src s'(3) by simp
    then have "merging env ks n outs n (R(?k := rest)) s' (out @ [?m]) (S(?k := map (heap_tuple env ks ?k) ys))"
      using i s'(2,3) fr fr' srcs root(1,2) xs Cons c elems
      by (auto simp: merging_def stream_ok_def sum.remove [of _ ?k])
    then show ?thesis using res go fr' cnt by auto
  qed
qed

end
