(* ===== verification/ParallelRun.thy ===== *)
theory ParallelRun
  imports ParallelMerge
begin

text \<open>
  Runs of the whole parallel sort under any interleaving of master and workers: an
  invariant for every place the master can be at, with a rank that every step of any
  process lowers, and the proof that some process can always go on.
\<close>

section \<open>Stages of all workers\<close>

type_synonym 'd stage = "nat \<Rightarrow> Worker \<Rightarrow> 'd channel \<Rightarrow> 'd worker_pc \<Rightarrow> nat \<Rightarrow> bool"

definition all_workers :: "'d stage \<Rightarrow> nat \<Rightarrow> 'd sort_system \<Rightarrow> (nat \<Rightarrow> nat) \<Rightarrow> bool" where
  "all_workers P n s r \<longleftrightarrow> (\<forall>i<n. P i (wtab s ! i) (channels s ! i) (wprocs s ! i) (r i))"

definition system_ok :: "'d sort_job \<Rightarrow> 'd sort_system \<Rightarrow> bool" where
  "system_ok job s \<longleftrightarrow> length (wtab s) = job_dop job \<and> length (channels s) = job_dop job \<and>
     length (wprocs s) = job_dop job \<and> (\<forall>q\<in>set (channels s). length (ch_cells q) \<le> job_queue_size job)"

definition starting :: "'d sort_job \<Rightarrow> MinimalTuple list \<Rightarrow> (nat \<Rightarrow> MinimalTuple list) \<Rightarrow> 'd stage" where
  "starting job ts outs i w q pc r \<longleftrightarrow> jobId (work w) = job_number job \<and> workType (work w) = PRL_WORK_TYPE_SORT \<and>
     ch_cells q = [] \<and> \<not> ch_stop q \<and>
     (pc = WInit \<and> \<not> valid w \<and> r = 2 * length (outs i) + length (share (job_dop job) i ts) + 10 \<or>
      pc = WWait \<and> valid w \<and> worker_state w = PRL_WORKER_STATE_INITIAL \<and>
        r = 2 * length (outs i) + length (share (job_dop job) i ts) + 9)"

definition loading :: "'d sort_job \<Rightarrow> 'd Tuplesortstate \<Rightarrow> MinimalTuple list \<Rightarrow> (nat \<Rightarrow> MinimalTuple list) \<Rightarrow>
    (nat \<Rightarrow> MinimalTuple option list) \<Rightarrow> 'd stage" where
  "loading job s0 ts outs given i w q pc r \<longleftrightarrow> sort_worker job w \<and> \<not> ch_stop q \<and>
     (\<exists>rest. all_cells (share (job_dop job) i ts) = given i @ rest) \<and>
     receiving job s0 (share (job_dop job) i ts) (outs i) (given i) w q pc r"

definition returning :: "'d sort_job \<Rightarrow> (nat \<Rightarrow> MinimalTuple option list) \<Rightarrow> 'd stage" where
  "returning job R i w q pc r \<longleftrightarrow> sort_worker job w \<and> sending job (R i) w q pc r \<and> (ch_stop q \<longrightarrow> sent_all w pc)"

text \<open>The first \<open>k\<close> workers have been told to stop.\<close>

definition stopping :: "'d sort_job \<Rightarrow> nat \<Rightarrow> 'd stage" where
  "stopping job k i w q pc r \<longleftrightarrow> sort_worker job w \<and> (\<exists>R. sending job R w q pc r) \<and>
     (if i < k then sent_all w pc \<or> (ch_stop q \<and> channel_room job q) else ch_stop q \<longrightarrow> sent_all w pc)"

text \<open>The stop flag of worker \<open>k\<close> has just been set, and was not set before.\<close>

definition clearing :: "'d sort_job \<Rightarrow> nat \<Rightarrow> 'd stage" where
  "clearing job k i w q pc r \<longleftrightarrow> sort_worker job w \<and> (\<exists>R. sending job R w q pc r) \<and>
     (if i < k then sent_all w pc \<or> (ch_stop q \<and> channel_room job q)
      else if i = k then ch_stop q else ch_stop q \<longrightarrow> sent_all w pc)"

definition dying :: "'d sort_job \<Rightarrow> 'd stage" where
  "dying job i w q pc r \<longleftrightarrow> of_job job w \<and> ending w pc r"

text \<open>All workers have ended their work, and the first \<open>k\<close> have been told to die.\<close>

definition shutting :: "'d sort_job \<Rightarrow> nat \<Rightarrow> 'd stage" where
  "shutting job k i w q pc r \<longleftrightarrow>
     (if i < k then dying job i w q pc r
      else sort_worker job w \<and> worker_state w = PRL_WORKER_STATE_END \<and> pc = WWait \<and> r = 2)"

section \<open>Worker steps\<close>

definition closed :: "'d sort_job \<Rightarrow> nat \<Rightarrow> 'd stage \<Rightarrow> bool" where
  "closed job n P \<longleftrightarrow> (\<forall>i w q pc r pid w' q' pc'. i < n \<longrightarrow> P i w q pc r \<longrightarrow>
     slaveBackendMain job pid w q pc = Some (w', q', pc') \<longrightarrow> (\<exists>r'<r. P i w' q' pc' r'))"

lemma worker_step_frame:
  assumes "worker_step job pid i s = Some s'"
  shows "master s' = master s \<and> msort s' = msort s \<and> outer s' = outer s \<and> slots s' = slots s \<and>
    workersList s' = workersList s \<and> prlJobsList s' = prlJobsList s \<and> sems s' = sems s \<and> queues s' = queues s"
  using assms by (auto simp: worker_step_def split: if_splits)

lemma worker_step_stage:
  assumes closed: "closed job n P" and ok: "system_ok job s" and n: "n = job_dop job"
    and all: "all_workers P n s r" and i: "i < n" and step: "worker_step job pid i s = Some s'"
  shows "\<exists>r'. all_workers P n s' r' \<and> sum r' {..<n} < sum r {..<n}"
proof -
  from step obtain w q pc where wqp: "slaveBackendMain job pid (wtab s ! i) (channels s ! i) (wprocs s ! i) = Some (w, q, pc)"
    and s': "s' = s\<lparr>wtab := (wtab s)[i := w], channels := (channels s)[i := q], wprocs := (wprocs s)[i := pc]\<rparr>"
    by (auto simp: worker_step_def split: if_splits)
  from all i have "P i (wtab s ! i) (channels s ! i) (wprocs s ! i) (r i)" by (simp add: all_workers_def)
  with closed i wqp obtain k where k: "k < r i" "P i w q pc k" unfolding closed_def by blast
  have "sum (r(i := k)) {..<n} < sum r {..<n}"
    by (rule sum_strict_mono_ex1) (use i k in auto)
  moreover have "all_workers P n s' (r(i := k))"
    using all ok k i n by (auto simp: all_workers_def s' system_ok_def nth_list_update)
  ultimately show ?thesis by blast
qed

text \<open>No queue holds more than its size.\<close>

lemma doSort_capacity:
  "doSort job w q pc = Some (w', q', pc') \<Longrightarrow> length (ch_cells q) \<le> job_queue_size job \<Longrightarrow>
   length (ch_cells q') \<le> job_queue_size job"
  by (cases "(job, w, q, pc)" rule: doSort.cases)
    (auto simp: channel_add_def channel_room_def Let_def split: list.splits option.splits sum.splits if_splits)

lemma slave_capacity:
  assumes "slaveBackendMain job pid w q pc = Some (w', q', pc')" and "length (ch_cells q) \<le> job_queue_size job"
  shows "length (ch_cells q') \<le> job_queue_size job"
proof (cases "doSort job w q pc = Some (w', q', pc')")
  case True
  then show ?thesis using assms(2) by (rule doSort_capacity)
next
  case False
  with assms show ?thesis
    by (cases pc) (auto split: option.splits sum.splits PRL_WORK_TYPE.splits)
qed

lemma worker_step_ok:
  assumes "system_ok job s" and "i < job_dop job" and "worker_step job pid i s = Some s'"
  shows "system_ok job s'"
proof -
  from assms(3) obtain w q pc where wqp: "slaveBackendMain job pid (wtab s ! i) (channels s ! i) (wprocs s ! i) = Some (w, q, pc)"
    and s': "s' = s\<lparr>wtab := (wtab s)[i := w], channels := (channels s)[i := q], wprocs := (wprocs s)[i := pc]\<rparr>"
    by (auto simp: worker_step_def split: if_splits)
  have "length (ch_cells q) \<le> job_queue_size job"
    using slave_capacity [OF wqp] assms(1,2) by (simp add: system_ok_def)
  with assms(1) show ?thesis
    using set_update_subset_insert [of "channels s" i q] by (auto simp: system_ok_def s')
qed

lemma closed_starting: "closed job n (starting job ts outs)"
  unfolding closed_def
proof (intro allI impI)
  fix i w q pc r pid w' q' pc'
  assume "starting job ts outs i w q pc r" "slaveBackendMain job pid w q pc = Some (w', q', pc')"
  then show "\<exists>r'<r. starting job ts outs i w' q' pc' r'"
    by (auto simp: starting_def waitForState_def)
qed

lemma closed_loading:
  assumes "\<And>i. i < n \<Longrightarrow> worker_data job s0 (share (job_dop job) i ts) (outs i)"
  shows "closed job n (loading job s0 ts outs given)"
  unfolding closed_def
proof (intro allI impI)
  fix i w q pc r pid w' q' pc'
  assume i: "i < n" and l: "loading job s0 ts outs given i w q pc r"
    and step: "slaveBackendMain job pid w q pc = Some (w', q', pc')"
  from l obtain rest where rest: "all_cells (share (job_dop job) i ts) = given i @ rest" by (auto simp: loading_def)
  from receiving_step [OF assms [OF i] rest _ _ step] l rest show "\<exists>r'<r. loading job s0 ts outs given i w' q' pc' r'"
    by (auto simp: loading_def)
qed

lemma closed_returning: "closed job n (returning job R)"
  unfolding closed_def
proof (intro allI impI)
  fix i w q pc r pid w' q' pc'
  assume l: "returning job R i w q pc r" and step: "slaveBackendMain job pid w q pc = Some (w', q', pc')"
  then have "sends_on job (R i) r w q pc w' q' pc'" by (intro sending_step) (auto simp: returning_def)
  with l show "\<exists>r'<r. returning job R i w' q' pc' r'" unfolding sends_on_def returning_def by blast
qed

lemma closed_stopping: "closed job n (stopping job k)"
  unfolding closed_def
proof (intro allI impI)
  fix i w q pc r pid w' q' pc'
  assume l: "stopping job k i w q pc r" and step: "slaveBackendMain job pid w q pc = Some (w', q', pc')"
  then obtain R where "sort_worker job w" "sending job R w q pc r" by (auto simp: stopping_def)
  from sending_step [OF this step] l show "\<exists>r'<r. stopping job k i w' q' pc' r'"
    unfolding sends_on_def stopping_def by (cases "i < k") auto
qed

lemma closed_clearing: "closed job n (clearing job k)"
  unfolding closed_def
proof (intro allI impI)
  fix i w q pc r pid w' q' pc'
  assume l: "clearing job k i w q pc r" and step: "slaveBackendMain job pid w q pc = Some (w', q', pc')"
  then obtain R where "sort_worker job w" "sending job R w q pc r" by (auto simp: clearing_def)
  from sending_step [OF this step] l show "\<exists>r'<r. clearing job k i w' q' pc' r'"
    unfolding sends_on_def clearing_def by (cases "i < k"; cases "i = k") auto
qed

lemma closed_dying: "closed job n (dying job)"
  unfolding closed_def
proof (intro allI impI)
  fix i w q pc r pid w' q' pc'
  assume "dying job i w q pc r" "slaveBackendMain job pid w q pc = Some (w', q', pc')"
  with ending_step [of w pc r job pid q w' q' pc'] show "\<exists>r'<r. dying job i w' q' pc' r'"
    by (auto simp: dying_def of_job_def)
qed

lemma closed_shutting: "closed job n (shutting job k)"
  using closed_dying [of job n] by (auto simp: closed_def shutting_def waitForState_def)

section \<open>The job\<close>

text \<open>
  What a run relies on: at least one and at most 1024 workers (the size of a new heap), a
  queue that holds at least one cell, and for every worker that its share of the input
  is sorted without an error into \<open>outs i\<close>.
\<close>

definition job_runs ::
  "'d sort_job \<Rightarrow> MinimalTuple list \<Rightarrow> 'd Tuplesortstate \<Rightarrow> 'd ScanKey list \<Rightarrow> (nat \<Rightarrow> MinimalTuple list) \<Rightarrow> bool" where
  "job_runs job ts s0 ks outs \<longleftrightarrow> 1 \<le> job_dop job \<and> job_dop job \<le> 1024 \<and> 1 \<le> job_queue_size job \<and>
     (\<forall>i<job_dop job. worker_data job s0 (share (job_dop job) i ts) (outs i) \<and>
        sorted_wrt (\<lambda>a b. key_order (job_env job) ks a b \<le> 0) (outs i))"

definition master_fresh :: "'d sort_job \<Rightarrow> 'd ScanKey list \<Rightarrow> 'd Tuplesortstate \<Rightarrow> bool" where
  "master_fresh job ks s \<longleftrightarrow> array_ok s \<and> scanKeys s = ks \<and> memtupsize s = 1024 \<and> memtupcount s = 0 \<and>
     \<not> isParallelEnded s"

definition master_registered :: "'d sort_job \<Rightarrow> 'd ScanKey list \<Rightarrow> 'd Tuplesortstate \<Rightarrow> bool" where
  "master_registered job ks s \<longleftrightarrow> master_fresh job ks s \<and> workersCnt s = int (job_dop job) \<and>
     workers s = [0..<job_dop job] \<and> workersFinished s = replicate (job_dop job) False"

section \<open>The invariant\<close>

definition dealt :: "'d sort_job \<Rightarrow> MinimalTuple list \<Rightarrow> nat \<Rightarrow> (nat \<Rightarrow> bool) \<Rightarrow> nat \<Rightarrow> MinimalTuple option list" where
  "dealt job ts k ended i = map Some (share (job_dop job) i (take k ts)) @ (if ended i then [None] else [])"

definition total_out :: "'d sort_job \<Rightarrow> (nat \<Rightarrow> MinimalTuple list) \<Rightarrow> nat" where
  "total_out job outs = (\<Sum>i<job_dop job. length (outs i))"

fun master_rank :: "nat \<Rightarrow> nat \<Rightarrow> nat \<Rightarrow> 'd sort_system \<Rightarrow> master_pc \<Rightarrow> nat" where
  "master_rank n F L s MWaitInitial = 15 + 5 * n + F + L"
| "master_rank n F L s MReady = 14 + 5 * n + F + L"
| "master_rank n F L s MLoad = 13 + 5 * n + F + length (outer s)"
| "master_rank n F L s (MLast i) = 12 + 4 * n + F + (n - i)"
| "master_rank n F L s MWaitFinished = 11 + 4 * n + F"
| "master_rank n F L s MAck = 10 + 4 * n + F"
| "master_rank n F L s (MPrepare cw) = 9 + 3 * n + F + (n - cw)"
| "master_rank n F L s MFetch = 8 + 3 * n + (F - length (slots s))"
| "master_rank n F L s MDone = 7 + 3 * n"
| "master_rank n F L s (EStop k) = 6 + n + 2 * (n - k)"
| "master_rank n F L s (EClear k) = 5 + n + 2 * (n - k)"
| "master_rank n F L s EWaitEnd = 5 + n"
| "master_rank n F L s (EEnd k) = 4 + (n - k)"
| "master_rank n F L s EWaitDead = 3"
| "master_rank n F L s (ERelease k) = 2"
| "master_rank n F L s _ = 0"

text \<open>Merging, with what the workers will still send.\<close>

definition merge_stage ::
  "'d sort_job \<Rightarrow> 'd ScanKey list \<Rightarrow> (nat \<Rightarrow> MinimalTuple list) \<Rightarrow> nat \<Rightarrow> 'd sort_system \<Rightarrow> (nat \<Rightarrow> nat) \<Rightarrow> bool" where
  "merge_stage job ks outs cw s r \<longleftrightarrow>
     (\<exists>R out S. all_workers (returning job R) (job_dop job) s r \<and> slots s = map tuple out \<and>
        merging (job_env job) ks (job_dop job) outs cw R (msort s) out S)"

fun phase ::
  "'d sort_job \<Rightarrow> MinimalTuple list \<Rightarrow> 'd Tuplesortstate \<Rightarrow> 'd ScanKey list \<Rightarrow> (nat \<Rightarrow> MinimalTuple list) \<Rightarrow>
   'd sort_system \<Rightarrow> (nat \<Rightarrow> nat) \<Rightarrow> master_pc \<Rightarrow> bool" where
  "phase job ts s0 ks outs s r MWaitInitial \<longleftrightarrow> all_workers (starting job ts outs) (job_dop job) s r \<and>
     master_fresh job ks (msort s) \<and> workersId (msort s) = job_number job \<and> outer s = ts \<and> slots s = []"
| "phase job ts s0 ks outs s r MReady \<longleftrightarrow> all_workers (starting job ts outs) (job_dop job) s r \<and>
     (\<forall>i<job_dop job. wprocs s ! i = WWait) \<and>
     master_registered job ks (msort s) \<and> lastWorker (msort s) = -1 \<and> outer s = ts \<and> slots s = []"
| "phase job ts s0 ks outs s r MLoad \<longleftrightarrow>
     (\<exists>k\<le>length ts. outer s = drop k ts \<and> (lastWorker (msort s) + 1) mod int (job_dop job) = int (k mod job_dop job) \<and>
        all_workers (loading job s0 ts outs (dealt job ts k (\<lambda>_. False))) (job_dop job) s r) \<and>
     master_registered job ks (msort s) \<and> slots s = []"
| "phase job ts s0 ks outs s r (MLast j) \<longleftrightarrow> j \<le> job_dop job \<and>
     all_workers (loading job s0 ts outs (dealt job ts (length ts) (\<lambda>i. i < j))) (job_dop job) s r \<and>
     master_registered job ks (msort s) \<and> slots s = []"
| "phase job ts s0 ks outs s r MWaitFinished \<longleftrightarrow>
     all_workers (loading job s0 ts outs (dealt job ts (length ts) (\<lambda>_. True))) (job_dop job) s r \<and>
     master_registered job ks (msort s) \<and> slots s = []"
| "phase job ts s0 ks outs s r MAck \<longleftrightarrow>
     all_workers (loading job s0 ts outs (dealt job ts (length ts) (\<lambda>_. True))) (job_dop job) s r \<and>
     (\<forall>i<job_dop job. worker_state (wtab s ! i) = PRL_WORKER_STATE_FINISHED) \<and>
     master_registered job ks (msort s) \<and> slots s = []"
| "phase job ts s0 ks outs s r (MPrepare cw) \<longleftrightarrow> merge_stage job ks outs cw s r \<and> slots s = [] \<and> \<not> isParallelEnded (msort s)"
| "phase job ts s0 ks outs s r MFetch \<longleftrightarrow> merge_stage job ks outs (job_dop job) s r \<and>
     (isParallelEnded (msort s) \<longleftrightarrow> memtupcount (msort s) = 0)"
| "phase job ts s0 ks outs s r MDone \<longleftrightarrow> merge_stage job ks outs (job_dop job) s r \<and> memtupcount (msort s) = 0"
| "phase job ts s0 ks outs s r (EStop k) \<longleftrightarrow> k \<le> job_dop job \<and> all_workers (stopping job k) (job_dop job) s r \<and>
     workersCnt (msort s) = int (job_dop job)"
| "phase job ts s0 ks outs s r (EClear k) \<longleftrightarrow> k < job_dop job \<and> all_workers (clearing job k) (job_dop job) s r \<and>
     workersCnt (msort s) = int (job_dop job)"
| "phase job ts s0 ks outs s r EWaitEnd \<longleftrightarrow> all_workers (stopping job (job_dop job)) (job_dop job) s r \<and>
     workersCnt (msort s) = int (job_dop job)"
| "phase job ts s0 ks outs s r (EEnd k) \<longleftrightarrow> k \<le> job_dop job \<and> all_workers (shutting job k) (job_dop job) s r \<and>
     workersCnt (msort s) = int (job_dop job)"
| "phase job ts s0 ks outs s r EWaitDead \<longleftrightarrow> all_workers (dying job) (job_dop job) s r \<and>
     workersCnt (msort s) = int (job_dop job)"
| "phase job ts s0 ks outs s r (ERelease k) \<longleftrightarrow> k = 0 \<and> all_workers (dying job) (job_dop job) s r \<and>
     (\<forall>i<job_dop job. worker_state (wtab s ! i) = PRL_WORKER_STATE_DEAD)"
| "phase job ts s0 ks outs s r (EError e) \<longleftrightarrow> e = wild \<and> all_workers (dying job) (job_dop job) s r \<and>
     (\<forall>i<job_dop job. worker_state (wtab s ! i) = PRL_WORKER_STATE_DEAD)"
| "phase job ts s0 ks outs s r EOver \<longleftrightarrow> False"
| "phase job ts s0 ks outs s r (MError e) \<longleftrightarrow> False"

text \<open>
  The lists and the pool: no worker has been removed from a list, the lock of the pool is
  free, and the queues are freed in the order of the workers.
\<close>

fun freed_queues :: "nat \<Rightarrow> master_pc \<Rightarrow> nat" where
  "freed_queues n (EEnd k) = k"
| "freed_queues n EWaitDead = n"
| "freed_queues n (ERelease k) = n"
| "freed_queues n (EError e) = n"
| "freed_queues n _ = 0"

definition shared_ok :: "'d sort_job \<Rightarrow> 'd sort_system \<Rightarrow> bool" where
  "shared_ok job s \<longleftrightarrow> workersList s = [0..<job_dop job] \<and> prlJobsList s = [0..<job_dop job] \<and> \<not> PrlSemLock (sems s) \<and>
     length (queues s) = job_dop job \<and>
     (\<forall>i<job_dop job. queues s ! i = None \<longleftrightarrow> i < freed_queues (job_dop job) (master s))"

definition run_inv ::
  "'d sort_job \<Rightarrow> MinimalTuple list \<Rightarrow> 'd Tuplesortstate \<Rightarrow> 'd ScanKey list \<Rightarrow> (nat \<Rightarrow> MinimalTuple list) \<Rightarrow>
   'd sort_system \<Rightarrow> nat \<Rightarrow> bool" where
  "run_inv job ts s0 ks outs s k \<longleftrightarrow> system_ok job s \<and> shared_ok job s \<and>
     (\<exists>r. phase job ts s0 ks outs s r (master s) \<and>
        k = master_rank (job_dop job) (total_out job outs) (length ts) s (master s) + sum r {..<job_dop job})"

section \<open>Worker steps keep the invariant\<close>

lemma dead_no_step:
  assumes "dying job i (wtab s ! i) (channels s ! i) (wprocs s ! i) r" "worker_state (wtab s ! i) = PRL_WORKER_STATE_DEAD"
  shows "worker_step job pid i s \<noteq> Some s'"
proof -
  have "wprocs s ! i = WExit" using assms by (cases "wprocs s ! i") (auto simp: dying_def)
  then show ?thesis by (simp add: worker_step_def)
qed

lemma phase_worker:
  assumes runs: "job_runs job ts s0 ks outs" and ok: "system_ok job s"
    and ph: "phase job ts s0 ks outs s r (master s)"
    and i: "i < job_dop job" and step: "worker_step job pid i s = Some s'"
  shows "\<exists>r'. phase job ts s0 ks outs s' r' (master s) \<and> sum r' {..<job_dop job} < sum r {..<job_dop job}"
proof -
  let ?n = "job_dop job"
  note fr = worker_step_frame [OF step]
  have data: "\<And>i. i < ?n \<Longrightarrow> worker_data job s0 (share ?n i ts) (outs i)" using runs by (simp add: job_runs_def)
  note st = worker_step_stage [OF _ ok refl _ i step]
  show ?thesis
  proof (cases "master s")
    case MWaitInitial
    with ph st [OF closed_starting] fr show ?thesis by auto
  next
    case MReady
    then have "wprocs s ! i = WWait" "worker_state (wtab s ! i) = PRL_WORKER_STATE_INITIAL"
      using ph i by (auto simp: all_workers_def starting_def)
    with step show ?thesis by (simp add: worker_step_def waitForState_def split: if_splits)
  next
    case MLoad
    with ph st [OF closed_loading [OF data]] fr show ?thesis by fastforce
  next
    case (MLast j)
    with ph st [OF closed_loading [OF data]] fr show ?thesis by fastforce
  next
    case MWaitFinished
    with ph st [OF closed_loading [OF data]] fr show ?thesis by fastforce
  next
    case MAck
    then have "worker_state (wtab s ! i) = PRL_WORKER_STATE_FINISHED"
      "loading job s0 ts outs (dealt job ts (length ts) (\<lambda>_. True)) i (wtab s ! i) (channels s ! i) (wprocs s ! i) (r i)"
      using ph i by (auto simp: all_workers_def)
    then have "\<exists>st. wprocs s ! i = WAck st" by (cases "wprocs s ! i") (auto simp: loading_def)
    with step \<open>worker_state (wtab s ! i) = _\<close> show ?thesis by (auto simp: worker_step_def waitForState_def split: if_splits)
  next
    case (MPrepare cw)
    with ph st [OF closed_returning] fr show ?thesis by (fastforce simp: merge_stage_def)
  next
    case MFetch
    with ph st [OF closed_returning] fr show ?thesis by (fastforce simp: merge_stage_def)
  next
    case MDone
    with ph st [OF closed_returning] fr show ?thesis by (fastforce simp: merge_stage_def)
  next
    case (EStop k)
    with ph st [OF closed_stopping] fr show ?thesis by auto
  next
    case EWaitEnd
    with ph st [OF closed_stopping] fr show ?thesis by auto
  next
    case (EClear k)
    with ph st [OF closed_clearing] fr show ?thesis by auto
  next
    case (EEnd k)
    with ph st [OF closed_shutting] fr show ?thesis by auto
  next
    case EWaitDead
    with ph st [OF closed_dying] fr show ?thesis by auto
  next
    case (ERelease k)
    then have "worker_state (wtab s ! i) = PRL_WORKER_STATE_DEAD" "dying job i (wtab s ! i) (channels s ! i) (wprocs s ! i) (r i)"
      using ph i by (auto simp: all_workers_def)
    with step dead_no_step show ?thesis by blast
  next
    case (EError e)
    then have "worker_state (wtab s ! i) = PRL_WORKER_STATE_DEAD" "dying job i (wtab s ! i) (channels s ! i) (wprocs s ! i) (r i)"
      using ph i by (auto simp: all_workers_def)
    with step dead_no_step show ?thesis by blast
  qed (use ph in auto)
qed

lemma run_inv_worker:
  assumes runs: "job_runs job ts s0 ks outs" and inv: "run_inv job ts s0 ks outs s k"
    and i: "i < length (wprocs s)" and step: "worker_step job pid i s = Some s'"
  shows "\<exists>k'<k. run_inv job ts s0 ks outs s' k'"
proof -
  from inv obtain r where r: "system_ok job s" "phase job ts s0 ks outs s r (master s)"
    "k = master_rank (job_dop job) (total_out job outs) (length ts) s (master s) + sum r {..<job_dop job}"
    by (auto simp: run_inv_def)
  then have i': "i < job_dop job" using i by (simp add: system_ok_def)
  note fr = worker_step_frame [OF step]
  from phase_worker [OF runs r(1,2) i' step] obtain r' where r': "phase job ts s0 ks outs s' r' (master s)"
    "sum r' {..<job_dop job} < sum r {..<job_dop job}" by blast
  have ok: "system_ok job s'" by (rule worker_step_ok [OF r(1) i' step])
  have rank: "master_rank (job_dop job) (total_out job outs) (length ts) s' (master s) =
      master_rank (job_dop job) (total_out job outs) (length ts) s (master s)"
    using fr by (cases "master s") auto
  have "shared_ok job s'" using inv fr by (simp add: run_inv_def shared_ok_def)
  then show ?thesis
    by (intro exI [of _ "master_rank (job_dop job) (total_out job outs) (length ts) s (master s) + sum r' {..<job_dop job}"])
      (use inv r r' ok rank fr in \<open>auto simp: run_inv_def\<close>)
qed

section \<open>Master steps keep the invariant\<close>

subsection \<open>Polling and moving all workers\<close>

lemma all_ready_iff:
  "workersList s = [0..<job_dop job] \<Longrightarrow> all_ready job st (job_dop job) s \<longleftrightarrow>
   (\<forall>i<job_dop job. worker_matches (job_number job) st (wtab s ! i))"
proof -
  assume l: "workersList s = [0..<job_dop job]"
  have "length (filter P [0..<n]) = n \<longleftrightarrow> (\<forall>i<n. P i)" for P and n :: nat
  proof
    assume len: "length (filter P [0..<n]) = n"
    show "\<forall>i<n. P i"
    proof (rule ccontr)
      assume "\<not> (\<forall>i<n. P i)"
      then obtain i where "i < n" "\<not> P i" by blast
      with length_filter_less [of i "[0..<n]" P] len show False by simp
    qed
  qed (simp add: filter_id_conv)
  then show ?thesis by (simp add: all_ready_def ready_count_def l)
qed

lemma transition_all:
  assumes ok: "system_ok job s" and l: "workersList s = [0..<job_dop job]"
    and m: "\<And>i. i < job_dop job \<Longrightarrow> worker_matches (job_number job) old (wtab s ! i)"
  shows "transition job old new s = s\<lparr>wtab := map (\<lambda>w. w\<lparr>worker_state := new\<rparr>) (wtab s)\<rparr>"
proof -
  obtain c tab where c: "stateTransition (job_number job) old new (workersList s) (wtab s) = (c, tab)" by fastforce
  have sub: "distinct (workersList s)" "set (workersList s) \<subseteq> {..<length (wtab s)}" "length (wtab s) = job_dop job"
    using l ok by (auto simp: system_ok_def)
  from stateTransition_table [OF sub(1,2) c] l sub(3) m
  have "length tab = length (wtab s)" "\<forall>i<length (wtab s). tab ! i = (wtab s ! i)\<lparr>worker_state := new\<rparr>"
    by (auto simp: system_ok_def)
  then have "tab = map (\<lambda>w. w\<lparr>worker_state := new\<rparr>) (wtab s)" by (auto intro: nth_equalityI)
  with c show ?thesis by (simp add: transition_def)
qed

subsection \<open>Starting\<close>

lemma registerWorkers_all:
  assumes "\<And>i. i < n \<Longrightarrow> worker_matches (workersId s) PRL_WORKER_STATE_INITIAL (tab ! i)"
  shows "registerWorkers s n [0..<n] tab =
    Inr (s\<lparr>lastWorker := -1, workers := [0..<n], workersCnt := int n, workersFinished := replicate n False\<rparr>)"
proof -
  have "filter (\<lambda>i. worker_matches (workersId s) PRL_WORKER_STATE_INITIAL (tab ! i)) [0..<n] = [0..<n]"
    using assms by (simp add: filter_id_conv)
  then show ?thesis by (simp add: registerWorkers_def)
qed

lemma step_MWaitInitial:
  assumes ph: "phase job ts s0 ks outs s r MWaitInitial" and l: "workersList s = [0..<job_dop job]"
    and step: "ExecSort job MWaitInitial s = Some s'"
  shows "master s' = MReady \<and> workersList s' = [0..<job_dop job] \<and> channels s' = channels s \<and> wtab s' = wtab s \<and>
    wprocs s' = wprocs s \<and> phase job ts s0 ks outs s' r MReady"
proof -
  from step have "all_ready job PRL_WORKER_STATE_INITIAL (job_dop job) s" by (simp split: if_splits)
  with l have m: "\<And>i. i < job_dop job \<Longrightarrow> worker_matches (job_number job) PRL_WORKER_STATE_INITIAL (wtab s ! i)"
    by (simp add: all_ready_iff)
  then have pcs: "wprocs s ! i = WWait" if "i < job_dop job" for i
    using ph that m [OF that] by (auto simp: all_workers_def starting_def worker_matches_def)
  have "registerWorkers (msort s) (job_dop job) (workersList s) (wtab s) =
      Inr ((msort s)\<lparr>lastWorker := -1, workers := [0..<job_dop job], workersCnt := int (job_dop job),
         workersFinished := replicate (job_dop job) False\<rparr>)"
    unfolding l by (rule registerWorkers_all) (use ph m in simp)
  with step ph pcs l show ?thesis
    by (auto simp: master_result_def all_workers_def master_registered_def master_fresh_def array_ok_def split: if_splits)
qed

lemma step_MReady:
  assumes ph: "phase job ts s0 ks outs s r MReady" and l: "workersList s = [0..<job_dop job]"
    and ok: "system_ok job s" and step: "ExecSort job MReady s = Some s'"
  shows "master s' = MLoad \<and> workersList s' = [0..<job_dop job] \<and> channels s' = channels s \<and>
    length (wtab s') = length (wtab s) \<and> wprocs s' = wprocs s \<and> outer s' = ts \<and> phase job ts s0 ks outs s' r MLoad"
proof -
  have w: "starting job ts outs i (wtab s ! i) (channels s ! i) (wprocs s ! i) (r i)" "wprocs s ! i = WWait"
    if "i < job_dop job" for i using ph that by (auto simp: all_workers_def)
  then have "transition job PRL_WORKER_STATE_INITIAL PRL_WORKER_STATE_READY s =
      s\<lparr>wtab := map (\<lambda>w. w\<lparr>worker_state := PRL_WORKER_STATE_READY\<rparr>) (wtab s)\<rparr>"
    by (intro transition_all [OF ok l]) (auto simp: starting_def worker_matches_def)
  then have s': "s' = s\<lparr>wtab := map (\<lambda>w. w\<lparr>worker_state := PRL_WORKER_STATE_READY\<rparr>) (wtab s), master := MLoad\<rparr>"
    using step by simp
  have "loading job s0 ts outs (dealt job ts 0 (\<lambda>_. False)) i ((wtab s ! i)\<lparr>worker_state := PRL_WORKER_STATE_READY\<rparr>)
      (channels s ! i) WWait (r i)" if "i < job_dop job" for i
    using w [OF that] by (auto simp: starting_def loading_def dealt_def sort_worker_def cell_vals_def)
  then have "all_workers (loading job s0 ts outs (dealt job ts 0 (\<lambda>_. False))) (job_dop job) s' r"
    using w ok by (simp add: all_workers_def s' system_ok_def)
  with ph l show ?thesis
    by (auto simp: s' master_registered_def master_fresh_def intro!: exI [of _ 0])
qed

subsection \<open>Dealing out\<close>

text \<open>One more cell for a worker that is being loaded.\<close>

lemma receiving_give:
  assumes inv: "receiving job s0 us out given w q pc r" and more: "all_cells us = (given @ [map_option tuple cell]) @ rest"
  shows "receiving job s0 us out (given @ [map_option tuple cell]) w (snd (channel_add cell False q)) pc r"
proof -
  have vals: "cell_vals (snd (channel_add cell False q)) = cell_vals q @ [map_option tuple cell]"
    by (simp add: channel_add_def Let_def cell_vals_def)
  have "given \<noteq> all_cells us" using more by auto
  with inv vals show ?thesis by (cases pc) auto
qed

lemma dealt_next:
  assumes "k < length ts"
  shows "dealt job ts (Suc k) (\<lambda>_. False) i =
    dealt job ts k (\<lambda>_. False) i @ (if k mod job_dop job = i then [Some (ts ! k)] else [])"
  using assms by (simp add: dealt_def take_Suc_conv_app_nth share_snoc min.absorb2)

lemma dealt_prefix: "\<exists>rest. all_cells (share (job_dop job) i ts) = dealt job ts k (\<lambda>_. False) i @ rest"
proof -
  obtain us where "share (job_dop job) i (take k ts @ drop k ts) = share (job_dop job) i (take k ts) @ us"
    using share_append by blast
  then show ?thesis by (simp add: all_cells_def dealt_def)
qed

text \<open>Adding a cell to one queue, seen from all workers.\<close>

lemma loading_give:
  assumes all: "all_workers (loading job s0 ts outs given) n s r" and j: "j < n" and n: "n = job_dop job"
    and ok: "system_ok job s" and add: "add_to job j cell s = Some s'"
    and g: "given' j = given j @ [map_option tuple cell]" "\<And>i. i < n \<Longrightarrow> i \<noteq> j \<Longrightarrow> given' i = given i"
    and pre: "\<exists>rest. all_cells (share (job_dop job) j ts) = given' j @ rest"
  shows "all_workers (loading job s0 ts outs given') n s' r \<and> system_ok job s' \<and>
    s' = s\<lparr>channels := (channels s)[j := snd (channel_add cell False (channels s ! j))]\<rparr>"
proof -
  let ?q = "snd (channel_add cell False (channels s ! j))"
  have s': "s' = s\<lparr>channels := (channels s)[j := ?q]\<rparr>" and room: "channel_room job (channels s ! j)"
    using add by (auto simp: add_to_def split: if_splits)
  have len: "length (ch_cells ?q) \<le> job_queue_size job"
    using room by (simp add: channel_add_def channel_room_def Let_def)
  have stop: "ch_stop ?q = ch_stop (channels s ! j)" by (simp add: channel_add_def Let_def)
  have jj: "loading job s0 ts outs given j (wtab s ! j) (channels s ! j) (wprocs s ! j) (r j)"
    using all j by (simp add: all_workers_def)
  from pre g(1) obtain rest where "all_cells (share (job_dop job) j ts) = (given j @ [map_option tuple cell]) @ rest" by auto
  from receiving_give [OF _ this] jj pre stop g(1)
  have "loading job s0 ts outs given' j (wtab s ! j) ?q (wprocs s ! j) (r j)" by (auto simp: loading_def)
  moreover have "loading job s0 ts outs given' i (wtab s ! i) (channels s ! i) (wprocs s ! i) (r i)" if "i < n" "i \<noteq> j" for i
    using all that g(2) by (simp add: all_workers_def loading_def)
  ultimately have "all_workers (loading job s0 ts outs given') n s' r"
    using ok j n by (auto simp: all_workers_def s' system_ok_def nth_list_update)
  moreover have "system_ok job s'"
    using ok len set_update_subset_insert [of "channels s" j ?q] by (auto simp: system_ok_def s')
  ultimately show ?thesis using s' by blast
qed

lemma step_MLoad:
  assumes ph: "phase job ts s0 ks outs s r MLoad" and l: "workersList s = [0..<job_dop job]" and m: "master s = MLoad"
    and ok: "system_ok job s" and dop: "1 \<le> job_dop job" and step: "ExecSort job MLoad s = Some s'"
  shows "system_ok job s' \<and> workersList s' = [0..<job_dop job] \<and>
    (master s' = MLast 0 \<and> phase job ts s0 ks outs s' r (MLast 0) \<or>
     master s' = MLoad \<and> length (outer s') < length (outer s) \<and> phase job ts s0 ks outs s' r MLoad)"
proof -
  from ph obtain k where k: "k \<le> length ts" "outer s = drop k ts"
    "(lastWorker (msort s) + 1) mod int (job_dop job) = int (k mod job_dop job)"
    "all_workers (loading job s0 ts outs (dealt job ts k (\<lambda>_. False))) (job_dop job) s r"
    "master_registered job ks (msort s)" "slots s = []" by auto
  show ?thesis
  proof (cases "outer s")
    case Nil
    with k have "k = length ts" by simp
    with Nil k step ok l show ?thesis by (auto simp: system_ok_def all_workers_def)
  next
    case (Cons t rest)
    then have kl: "k < length ts" "t = ts ! k" "rest = drop (Suc k) ts"
      using k by (metis drop_all linorder_not_less list.distinct(1), metis Cons_nth_drop_Suc drop_all k(2) linorder_not_less list.distinct(1) list.inject,
        metis Cons_nth_drop_Suc drop_all k(2) linorder_not_less list.distinct(1) list.inject)
    let ?j = "k mod job_dop job"
    have j: "?j < job_dop job" using dop by simp
    let ?a = "availMem (msort s) - chunk_space (job_env job) t"
    define state where "state = (msort s)\<lparr>availMem := ?a\<rparr>"
    obtain stup where put: "tuplesort_prl_puttupleslot (job_env job) t (msort s) = (state, stup)" and st: "tuple stup = t"
      by (cases "heap_getattr_in (job_env job) t (sk_attno (scanKeys (msort s) ! 0))")
        (simp add: tuplesort_prl_puttupleslot_def copytup_heap_def Let_def state_def)
    have w: "workers state ! nat ((lastWorker (msort s) + 1) mod workersCnt (msort s)) = ?j"
      "master_registered job ks (state\<lparr>lastWorker := int ?j\<rparr>)"
      using k(3,5) j by (auto simp: state_def master_registered_def master_fresh_def array_ok_def)
    have d: "distributeToWorker (job_env job) (msort s) t = (?j, Some stup, state\<lparr>lastWorker := int ?j\<rparr>)"
      using w put k(3,5) by (simp add: distributeToWorker_def Let_def master_registered_def)
    with step Cons obtain s1 where add: "add_to job ?j (Some stup) s = Some s1"
      and s': "s' = s1\<lparr>msort := state\<lparr>lastWorker := int ?j\<rparr>, outer := rest\<rparr>" by auto
    let ?g = "dealt job ts (Suc k) (\<lambda>_. False)"
    have "all_workers (loading job s0 ts outs ?g) (job_dop job) s1 r \<and> system_ok job s1 \<and>
        s1 = s\<lparr>channels := (channels s)[?j := snd (channel_add (Some stup) False (channels s ! ?j))]\<rparr>"
      by (rule loading_give [OF k(4) j refl ok add])
        (use dealt_next [OF kl(1), of job] st kl(2) dealt_prefix [of job ?j ts "Suc k"] in simp_all)
    then have all: "all_workers (loading job s0 ts outs ?g) (job_dop job) s1 r"
      "system_ok job s1" "workersList s1 = workersList s" "slots s1 = slots s" "master s1 = master s" by auto
    have nxt: "(int ?j + 1) mod int (job_dop job) = int (Suc k mod job_dop job)"
      by (simp add: zmod_int add.commute mod_add_left_eq mod_add_right_eq)
    have "phase job ts s0 ks outs s' r MLoad"
      using all kl w(2) nxt k(6) by (auto simp: s' all_workers_def intro!: exI [of _ "Suc k"])
    with all Cons l m show ?thesis by (simp add: s' system_ok_def)
  qed
qed

lemma step_MLast:
  assumes ph: "phase job ts s0 ks outs s r (MLast j)" and l: "workersList s = [0..<job_dop job]"
    and ok: "system_ok job s" and step: "ExecSort job (MLast j) s = Some s'"
  shows "system_ok job s' \<and> workersList s' = [0..<job_dop job] \<and>
    (j < job_dop job \<and> master s' = MLast (Suc j) \<and> phase job ts s0 ks outs s' r (MLast (Suc j)) \<or>
     master s' = MWaitFinished \<and> phase job ts s0 ks outs s' r MWaitFinished)"
proof (cases "j < job_dop job")
  case True
  let ?d = "\<lambda>j. dealt job ts (length ts) (\<lambda>i. i < j)"
  have reg: "master_registered job ks (msort s)" and sl: "slots s = []"
    and all: "all_workers (loading job s0 ts outs (?d j)) (job_dop job) s r" using ph by auto
  then have w: "int j < workersCnt (msort s)" "workers (msort s) ! j = j" using True by (auto simp: master_registered_def)
  with step obtain s1 where add: "add_to job j None s = Some s1" and s': "s' = s1\<lparr>master := MLast (Suc j)\<rparr>" by auto
  have "all_workers (loading job s0 ts outs (?d (Suc j))) (job_dop job) s1 r \<and> system_ok job s1 \<and>
      s1 = s\<lparr>channels := (channels s)[j := snd (channel_add None False (channels s ! j))]\<rparr>"
    by (rule loading_give [OF all True refl ok add]) (auto simp: dealt_def all_cells_def)
  then show ?thesis using True l reg sl by (auto simp: s' system_ok_def all_workers_def)
next
  case False
  with ph have j: "j = job_dop job" "workersCnt (msort s) = int (job_dop job)" by (auto simp: master_registered_def)
  with step have s': "s' = s\<lparr>master := MWaitFinished\<rparr>" by simp
  have "dealt job ts (length ts) (\<lambda>i. i < job_dop job) i = dealt job ts (length ts) (\<lambda>_. True) i" if "i < job_dop job" for i
    using that by (simp add: dealt_def)
  with ph j l ok show ?thesis by (auto simp: s' system_ok_def all_workers_def loading_def)
qed

subsection \<open>From loading to merging\<close>

lemma step_MWaitFinished:
  assumes ph: "phase job ts s0 ks outs s r MWaitFinished" and l: "workersList s = [0..<job_dop job]"
    and ok: "system_ok job s" and step: "ExecSort job MWaitFinished s = Some s'"
  shows "system_ok job s' \<and> workersList s' = [0..<job_dop job] \<and> master s' = MAck \<and> phase job ts s0 ks outs s' r MAck"
proof -
  from step have "all_ready job PRL_WORKER_STATE_FINISHED (job_dop job) s" and s': "s' = s\<lparr>master := MAck\<rparr>"
    by (auto split: if_splits)
  with l have "worker_state (wtab s ! i) = PRL_WORKER_STATE_FINISHED" if "i < job_dop job" for i
    using that by (simp add: all_ready_iff worker_matches_def)
  with ph ok l show ?thesis by (auto simp: s' system_ok_def all_workers_def)
qed

lemma merging_start:
  assumes "master_registered job ks s" and "job_dop job \<le> 1024"
  shows "merging (job_env job) ks (job_dop job) outs 0 (\<lambda>i. all_cells (outs i)) s [] (\<lambda>_. [])"
  using assms
  by (auto simp: merging_def master_registered_def master_fresh_def master_frame_def heap_state_empty heap_elems_def merge_inv_def)

lemma step_MAck:
  assumes ph: "phase job ts s0 ks outs s r MAck" and l: "workersList s = [0..<job_dop job]"
    and ok: "system_ok job s" and dop: "job_dop job \<le> 1024" and step: "ExecSort job MAck s = Some s'"
  shows "system_ok job s' \<and> workersList s' = [0..<job_dop job] \<and> master s' = MPrepare 0 \<and>
    phase job ts s0 ks outs s' r (MPrepare 0)"
proof -
  let ?w = "\<lambda>w. w\<lparr>worker_state := PRL_WORKER_STATE_FINISHED_ACK\<rparr>"
  have w: "loading job s0 ts outs (dealt job ts (length ts) (\<lambda>_. True)) i (wtab s ! i) (channels s ! i) (wprocs s ! i) (r i)"
    "worker_state (wtab s ! i) = PRL_WORKER_STATE_FINISHED" if "i < job_dop job" for i
    using ph that by (auto simp: all_workers_def)
  then have "transition job PRL_WORKER_STATE_FINISHED PRL_WORKER_STATE_FINISHED_ACK s = s\<lparr>wtab := map ?w (wtab s)\<rparr>"
    by (intro transition_all [OF ok l]) (auto simp: loading_def sort_worker_def worker_matches_def)
  then have s': "s' = s\<lparr>wtab := map ?w (wtab s), master := MPrepare 0\<rparr>" using step by simp
  have "returning job (\<lambda>i. all_cells (outs i)) i (?w (wtab s ! i)) (channels s ! i) (wprocs s ! i) (r i)"
    if "i < job_dop job" for i
    using w [OF that] by (cases "wprocs s ! i") (auto simp: loading_def returning_def sort_worker_def cell_vals_def)
  then have "all_workers (returning job (\<lambda>i. all_cells (outs i))) (job_dop job) s' r"
    using ok by (simp add: all_workers_def s' system_ok_def)
  moreover have "merging (job_env job) ks (job_dop job) outs 0 (\<lambda>i. all_cells (outs i)) (msort s') [] (\<lambda>_. [])"
    using merging_start [OF _ dop] ph by (simp add: s')
  ultimately have "merge_stage job ks outs 0 s' r" using ph unfolding merge_stage_def by (auto simp: s')
  with ph ok l show ?thesis by (auto simp: s' system_ok_def master_registered_def master_fresh_def)
qed

subsection \<open>Merging\<close>

text \<open>Taking the first cell of a queue.\<close>

lemma sending_take:
  assumes "sending job R w q pc r" and "ch_cells q = c # cs"
  shows "\<exists>rest. R = map_option tuple c # rest \<and> sending job rest w (q\<lparr>ch_cells := cs\<rparr>) pc r"
proof (cases pc)
  case (WAdd cell s)
  with assms cell_vals_Cons [OF assms(2)] show ?thesis by (cases cell) auto
qed (use assms cell_vals_Cons [OF assms(2)] in auto)

lemma returning_take:
  assumes all: "all_workers (returning job R) (job_dop job) s r" and j: "j < job_dop job" and ok: "system_ok job s"
    and get: "get_from j s = Some (cell, s')"
  shows "\<exists>rest. R j = map_option tuple cell # rest \<and> all_workers (returning job (R(j := rest))) (job_dop job) s' r \<and>
    system_ok job s' \<and> (\<exists>q. s' = s\<lparr>channels := (channels s)[j := q]\<rparr>)"
proof -
  from get obtain cs where q: "ch_cells (channels s ! j) = cell # cs"
    and s': "s' = s\<lparr>channels := (channels s)[j := (channels s ! j)\<lparr>ch_cells := cs\<rparr>]\<rparr>"
    by (auto simp: get_from_def split: list.splits)
  have jj: "returning job R j (wtab s ! j) (channels s ! j) (wprocs s ! j) (r j)" using all j by (simp add: all_workers_def)
  then have "sending job (R j) (wtab s ! j) (channels s ! j) (wprocs s ! j) (r j)" by (simp add: returning_def)
  from sending_take [OF this q] obtain rest where rest: "R j = map_option tuple cell # rest"
    "sending job rest (wtab s ! j) ((channels s ! j)\<lparr>ch_cells := cs\<rparr>) (wprocs s ! j) (r j)" by blast
  have "all_workers (returning job (R(j := rest))) (job_dop job) s' r"
    using all rest jj ok j by (auto simp: all_workers_def returning_def s' system_ok_def nth_list_update)
  moreover have "channels s ! j \<in> set (channels s)" using ok j by (simp add: system_ok_def)
  then have "length (ch_cells (channels s ! j)) \<le> job_queue_size job" using ok by (simp add: system_ok_def)
  then have "system_ok job s'"
    using ok q set_update_subset_insert [of "channels s" j "(channels s ! j)\<lparr>ch_cells := cs\<rparr>"]
    by (auto simp: system_ok_def s')
  ultimately show ?thesis using rest(1) s' by blast
qed

lemma step_MPrepare:
  assumes ph: "phase job ts s0 ks outs s r (MPrepare cw)" and l: "workersList s = [0..<job_dop job]"
    and ok: "system_ok job s" and runs: "job_runs job ts s0 ks outs" and step: "ExecSort job (MPrepare cw) s = Some s'"
  shows "system_ok job s' \<and> workersList s' = [0..<job_dop job] \<and> slots s' = [] \<and>
    (cw < job_dop job \<and> master s' = MPrepare (Suc cw) \<and> phase job ts s0 ks outs s' r (MPrepare (Suc cw)) \<or>
     master s' = MFetch \<and> phase job ts s0 ks outs s' r MFetch)"
proof -
  let ?n = "job_dop job"
  from ph obtain R S where all: "all_workers (returning job R) ?n s r" and sl: "slots s = []"
    and mg: "merging (job_env job) ks ?n outs cw R (msort s) [] S" and go: "\<not> isParallelEnded (msort s)"
    by (auto simp: merge_stage_def)
  have fr: "workersCnt (msort s) = int ?n" "workers (msort s) = [0..<?n]" "cw \<le> ?n"
    using mg by (auto simp: merging_def master_frame_def)
  show ?thesis
  proof (cases "cw < ?n")
    case True
    with fr step obtain cell s1 where get: "get_from cw s = Some (cell, s1)"
      and s': "s' = master_result (MPrepare (Suc cw)) s1 (prepare_worker (job_env job) cw cell (msort s1))" by auto
    from returning_take [OF all True ok get] obtain rest q where rest: "R cw = map_option tuple cell # rest"
      "all_workers (returning job (R(cw := rest))) ?n s1 r" "system_ok job s1" and s1: "s1 = s\<lparr>channels := (channels s)[cw := q]\<rparr>"
      by blast
    have "sorted_wrt (\<lambda>a b. key_order (job_env job) ks a b \<le> 0) (outs cw)" using runs True by (simp add: job_runs_def)
    from prepare_merging [OF mg True this rest(1)] obtain st S' where
      st: "prepare_worker (job_env job) cw cell (msort s) = Inr st" "isParallelEnded st = isParallelEnded (msort s)"
        "merging (job_env job) ks ?n outs (Suc cw) (R(cw := rest)) st [] S'" by blast
    have s'': "s' = s1\<lparr>master := MPrepare (Suc cw), msort := st\<rparr>" using st(1) by (simp add: s' s1 master_result_def)
    have "merge_stage job ks outs (Suc cw) s' r"
      unfolding merge_stage_def
      by (intro exI [of _ "R(cw := rest)"] exI [of _ "[]"] exI [of _ S'])
        (use rest(2) st(3) sl s1 in \<open>auto simp: s'' all_workers_def\<close>)
    with True rest(3) sl go st(2) l s1 show ?thesis by (auto simp: s'' system_ok_def)
  next
    case False
    with fr have cw: "cw = ?n" by simp
    with step fr have s': "s' = s\<lparr>master := MFetch, msort := prepare_end (msort s)\<rparr>" by simp
    have "merging (job_env job) ks ?n outs ?n R (prepare_end (msort s)) [] S"
      using mg by (simp add: prepare_end_def cw)
    then have "merge_stage job ks outs ?n s' r"
      unfolding merge_stage_def by (intro exI [of _ R] exI [of _ "[]"] exI [of _ S]) (use all sl in \<open>auto simp: s' all_workers_def\<close>)
    moreover have "isParallelEnded (prepare_end (msort s)) \<longleftrightarrow> memtupcount (prepare_end (msort s)) = 0"
      using go by (simp add: prepare_end_def)
    ultimately show ?thesis using ok sl l by (auto simp: s' system_ok_def)
  qed
qed

lemma merging_total:
  assumes "merging env ks n outs n R s out S"
  shows "length out + memtupcount s \<le> (\<Sum>i<n. length (outs i))"
proof -
  have a: "array_ok s" and e: "image_mset tuple (mset out + heap_elems s + (\<Sum>i<n. mset (S i))) = (\<Sum>i<n. mset (outs i))"
    using assms by (auto simp: merging_def heap_state_def)
  have "size (\<Sum>i<n. mset (outs i)) = (\<Sum>i<n. length (outs i))" by (induction n) auto
  with arg_cong [OF e, of size] heap_elems_size [OF a] show ?thesis by simp
qed

lemma step_MFetch:
  assumes ph: "phase job ts s0 ks outs s r MFetch" and l: "workersList s = [0..<job_dop job]" and m: "master s = MFetch"
    and ok: "system_ok job s" and step: "ExecSort job MFetch s = Some s'"
  shows "system_ok job s' \<and> workersList s' = [0..<job_dop job] \<and>
    (master s' = MDone \<and> phase job ts s0 ks outs s' r MDone \<or>
     master s' = MFetch \<and> length (slots s') = Suc (length (slots s)) \<and> length (slots s) < total_out job outs \<and>
       phase job ts s0 ks outs s' r MFetch)"
proof -
  let ?n = "job_dop job" and ?k = "merge_source (msort s)"
  from ph obtain R out S where all: "all_workers (returning job R) ?n s r" and sl: "slots s = map tuple out"
    and mg: "merging (job_env job) ks ?n outs ?n R (msort s) out S"
    and go: "isParallelEnded (msort s) \<longleftrightarrow> memtupcount (msort s) = 0"
    by (auto simp: merge_stage_def)
  show ?thesis
  proof (cases "isParallelEnded (msort s)")
    case True
    with step have s': "s' = s\<lparr>master := MDone\<rparr>" by simp
    have "merge_stage job ks outs ?n s' r"
      unfolding merge_stage_def by (intro exI [of _ R] exI [of _ out] exI [of _ S]) (use all sl mg in \<open>auto simp: s' all_workers_def\<close>)
    with True go ok l show ?thesis by (auto simp: s' system_ok_def)
  next
    case False
    with go have some: "memtupcount (msort s) \<noteq> 0" by simp
    note root = merge_root [OF mg some]
    have ws: "workers (msort s) ! ?k = ?k" using mg root(1) by (simp add: merging_def master_frame_def)
    with step False root(2) obtain cell s1 where get: "get_from ?k s = Some (cell, s1)"
      and s': "s' = (case tuplesort_gettupleslot_from_worker (job_env job) (msort s) cell of
               Inl e \<Rightarrow> s1\<lparr>master := MError e\<rparr>
             | Inr (slot, state) \<Rightarrow> s1\<lparr>msort := state, slots := slots s @ (case slot of None \<Rightarrow> [] | Some t \<Rightarrow> [t])\<rparr>)"
      by auto
    from returning_take [OF all root(1) ok get] obtain rest q where rest: "R ?k = map_option tuple cell # rest"
      "all_workers (returning job (R(?k := rest))) ?n s1 r" "system_ok job s1" and s1: "s1 = s\<lparr>channels := (channels s)[?k := q]\<rparr>"
      by blast
    from fetch_merging [OF mg some False rest(1)] obtain st S' where
      st: "tuplesort_gettupleslot_from_worker (job_env job) (msort s) cell = Inr (Some (tuple (memtuples (msort s) ! 0)), st)"
        "isParallelEnded st \<longleftrightarrow> memtupcount st = 0"
        "merging (job_env job) ks ?n outs ?n (R(?k := rest)) st (out @ [memtuples (msort s) ! 0]) S'" by (elim exE conjE) (rule that)
    have s'': "s' = s1\<lparr>msort := st, slots := slots s @ [tuple (memtuples (msort s) ! 0)]\<rparr>" using st(1) by (simp add: s')
    have "merge_stage job ks outs ?n s' r"
      unfolding merge_stage_def
      by (intro exI [of _ "R(?k := rest)"] exI [of _ "out @ [memtuples (msort s) ! 0]"] exI [of _ S'])
        (use rest(2) st(3) sl s1 in \<open>auto simp: s'' all_workers_def\<close>)
    moreover have "length (slots s) < total_out job outs"
      using merging_total [OF mg] some sl by (simp add: total_out_def)
    ultimately show ?thesis using rest(3) st(2) l m s1 by (auto simp: s'' system_ok_def)
  qed
qed

subsection \<open>Ending\<close>

lemma phase_end:
  assumes "merge_stage job ks outs (job_dop job) s r"
  shows "phase job ts s0 ks outs (s\<lparr>master := EStop 0\<rparr>) r (EStop 0)"
  using assms by (auto simp: merge_stage_def all_workers_def returning_def stopping_def merging_def master_frame_def)

text \<open>What a worker still has to do does not depend on the cells of its queue.\<close>

lemma sending_queue: "sending job R w q pc r \<Longrightarrow> \<exists>R'. sending job R' w q' pc r"
proof (cases pc)
  case (WAdd c s)
  assume "sending job R w q pc r"
  with WAdd show ?thesis by (cases c) auto
qed auto

lemma stopping_again:
  assumes st: "stopping job k k w q pc r" and "ch_stop q"
  shows "stopping job (Suc k) k w (q\<lparr>ch_stop := True\<rparr>) pc r"
proof -
  have q: "q\<lparr>ch_stop := True\<rparr> = q" using assms(2) by simp
  show ?thesis unfolding q using assms by (simp add: stopping_def)
qed

lemma stopping_set:
  assumes "stopping job k k w q pc r"
  shows "clearing job k k w (q\<lparr>ch_stop := True\<rparr>) pc r"
proof -
  from assms obtain R where "sending job R w q pc r" by (auto simp: stopping_def)
  from sending_queue [OF this] assms show ?thesis by (auto simp: stopping_def clearing_def)
qed

lemma clearing_room:
  assumes cl: "clearing job k k w q pc r" and le: "length (ch_cells q) \<le> job_queue_size job" and one: "1 \<le> job_queue_size job"
  shows "stopping job (Suc k) k w (snd (get_no_wait q)) pc r"
proof -
  from cl obtain R where "sending job R w q pc r" by (auto simp: clearing_def)
  from sending_queue [OF this] obtain R' where "sending job R' w (snd (get_no_wait q)) pc r" by blast
  moreover have "channel_room job (snd (get_no_wait q))"
    using le one by (cases "ch_cells q") (auto simp: get_no_wait_def channel_room_def)
  moreover have "ch_stop (snd (get_no_wait q)) = ch_stop q" by (simp add: get_no_wait_def split: list.splits)
  ultimately show ?thesis using cl by (auto simp: stopping_def clearing_def)
qed

text \<open>A step of the master on the queue of one worker, seen from all workers.\<close>

lemma all_workers_update:
  assumes all: "all_workers P (job_dop job) s r" and k: "k < job_dop job" and ok: "system_ok job s"
    and one: "Q k (wtab s ! k) q (wprocs s ! k) (r k)" and len: "length (ch_cells q) \<le> job_queue_size job"
    and others: "\<And>i. i < job_dop job \<Longrightarrow> i \<noteq> k \<Longrightarrow> P i (wtab s ! i) (channels s ! i) (wprocs s ! i) (r i) \<Longrightarrow>
      Q i (wtab s ! i) (channels s ! i) (wprocs s ! i) (r i)"
  shows "all_workers Q (job_dop job) (s\<lparr>channels := (channels s)[k := q], master := pc\<rparr>) r \<and>
    system_ok job (s\<lparr>channels := (channels s)[k := q], master := pc\<rparr>)"
proof
  show "all_workers Q (job_dop job) (s\<lparr>channels := (channels s)[k := q], master := pc\<rparr>) r"
    using all one others k ok by (auto simp: all_workers_def nth_list_update system_ok_def)
  show "system_ok job (s\<lparr>channels := (channels s)[k := q], master := pc\<rparr>)"
    using ok len set_update_subset_insert [of "channels s" k q] unfolding system_ok_def by (auto simp: subset_iff)
qed

lemma step_EStop:
  assumes ph: "phase job ts s0 ks outs s r (EStop k)" and l: "workersList s = [0..<job_dop job]"
    and ok: "system_ok job s" and step: "ExecEndSort job (EStop k) s = Some s'"
  shows "system_ok job s' \<and> workersList s' = [0..<job_dop job] \<and>
    (k < job_dop job \<and> master s' = EStop (Suc k) \<and> phase job ts s0 ks outs s' r (EStop (Suc k)) \<or>
     k < job_dop job \<and> master s' = EClear k \<and> phase job ts s0 ks outs s' r (EClear k) \<or>
     master s' = EWaitEnd \<and> phase job ts s0 ks outs s' r EWaitEnd)"
proof (cases "k < job_dop job")
  case True
  let ?w = "wtab s ! k" and ?q = "channels s ! k"
  have all: "all_workers (stopping job k) (job_dop job) s r" and cnt: "workersCnt (msort s) = int (job_dop job)"
    using ph by auto
  have k: "stopping job k k ?w ?q (wprocs s ! k) (r k)" using all True by (simp add: all_workers_def)
  then have mine: "of_job job ?w" by (simp add: stopping_def sort_worker_def of_job_def)
  have "?q \<in> set (channels s)" using ok True by (simp add: system_ok_def)
  then have le: "length (ch_cells ?q) \<le> job_queue_size job" using ok by (simp add: system_ok_def)
  have other: "stopping job (Suc k) i w q pc x" "clearing job k i w q pc x" if "i \<noteq> k" "stopping job k i w q pc x" for i w q pc x
    using that by (auto simp: stopping_def clearing_def)
  show ?thesis
  proof (cases "worker_state ?w = PRL_WORKER_STATE_END")
    case True
    have "stopping job (Suc k) k ?w ?q (wprocs s ! k) (r k)" using k True by (auto simp: stopping_def sent_all_def)
    from all_workers_update [where pc = "EStop (Suc k)" and Q = "stopping job (Suc k)", OF all \<open>k < _\<close> ok this le other(1)]
    show ?thesis using step l \<open>k < _\<close> True cnt by (auto simp: Let_def)
  next
    case False
    then have s': "s' = s\<lparr>channels := (channels s)[k := ?q\<lparr>ch_stop := True\<rparr>], master := if ch_stop ?q then EStop (Suc k) else EClear k\<rparr>"
      using step l \<open>k < _\<close> mine by (auto simp: Let_def set_stop_def)
    have le': "length (ch_cells (?q\<lparr>ch_stop := True\<rparr>)) \<le> job_queue_size job" using le by simp
    show ?thesis
    proof (cases "ch_stop ?q")
      case True
      from all_workers_update [where pc = "EStop (Suc k)" and Q = "stopping job (Suc k)",
          OF all \<open>k < _\<close> ok stopping_again [OF k True] le' other(1)]
      show ?thesis using l \<open>k < _\<close> True cnt by (simp add: s')
    next
      case False
      from all_workers_update [where pc = "EClear k" and Q = "clearing job k",
          OF all \<open>k < _\<close> ok stopping_set [OF k] le' other(2)]
      show ?thesis using l \<open>k < _\<close> False cnt by (simp add: s')
    qed
  qed
next
  case False
  with ph have "k = job_dop job" by simp
  with step l have "s' = s\<lparr>master := EWaitEnd\<rparr>" by simp
  with ph ok l \<open>k = _\<close> show ?thesis by (auto simp: system_ok_def all_workers_def)
qed

lemma step_EClear:
  assumes ph: "phase job ts s0 ks outs s r (EClear k)" and l: "workersList s = [0..<job_dop job]"
    and ok: "system_ok job s" and one: "1 \<le> job_queue_size job" and step: "ExecEndSort job (EClear k) s = Some s'"
  shows "k < job_dop job \<and> system_ok job s' \<and> workersList s' = [0..<job_dop job] \<and> master s' = EStop (Suc k) \<and>
    phase job ts s0 ks outs s' r (EStop (Suc k))"
proof -
  let ?q = "channels s ! k"
  have k: "k < job_dop job" and all: "all_workers (clearing job k) (job_dop job) s r" using ph by auto
  have "?q \<in> set (channels s)" using ok k by (simp add: system_ok_def)
  then have le: "length (ch_cells ?q) \<le> job_queue_size job" using ok by (simp add: system_ok_def)
  then have le': "length (ch_cells (snd (get_no_wait ?q))) \<le> job_queue_size job"
    by (auto simp: get_no_wait_def split: list.splits)
  have "clearing job k k (wtab s ! k) ?q (wprocs s ! k) (r k)" using all k by (simp add: all_workers_def)
  note room = clearing_room [OF this le one]
  have "stopping job (Suc k) i w q pc x" if "i \<noteq> k" "clearing job k i w q pc x" for i w q pc x
    using that by (auto simp: stopping_def clearing_def)
  from all_workers_update [where pc = "EStop (Suc k)" and Q = "stopping job (Suc k)", OF all k ok room le' this]
  show ?thesis using step l k ph by (auto simp: Let_def)
qed

lemma step_EWaitEnd:
  assumes ph: "phase job ts s0 ks outs s r EWaitEnd" and l: "workersList s = [0..<job_dop job]"
    and ok: "system_ok job s" and step: "ExecEndSort job EWaitEnd s = Some s'"
  shows "system_ok job s' \<and> workersList s' = [0..<job_dop job] \<and> master s' = EEnd 0 \<and> phase job ts s0 ks outs s' r (EEnd 0)"
proof -
  from step ph have "all_ready job PRL_WORKER_STATE_END (job_dop job) s" and s': "s' = s\<lparr>master := EEnd 0\<rparr>"
    by (auto split: if_splits)
  with l have "worker_state (wtab s ! i) = PRL_WORKER_STATE_END" if "i < job_dop job" for i
    using that by (simp add: all_ready_iff worker_matches_def)
  moreover have "shutting job 0 i w q pc x" if "stopping job n i w q pc x" "worker_state w = PRL_WORKER_STATE_END" for n i w q pc x
    using that by (cases pc) (auto simp: stopping_def shutting_def elim: sending.elims)
  ultimately have "all_workers (shutting job 0) (job_dop job) s' r" using ph by (auto simp: all_workers_def s')
  with ph ok l show ?thesis by (simp add: s' system_ok_def)
qed

lemma destroy_unlocked:
  assumes "\<not> PrlSemLock (m :: 'a shmem)"
  shows "\<exists>b m'. destroyBufferQueue old m = (Inr b, m') \<and> \<not> PrlSemLock m'"
proof -
  have "PrlSemLock (renew_sem i m) = PrlSemLock m" for i and m :: "'a shmem"
    by (simp add: renew_sem_def PGSemaphoreUnlock_def PGSemaphoreReset_def sem_simps)
  then show ?thesis using assms by (simp add: destroyBufferQueue_def unlock_pool_simp Let_def)
qed

lemma step_EEnd:
  assumes ph: "phase job ts s0 ks outs s r (EEnd k)" and sh: "shared_ok job s" and m: "master s = EEnd k"
    and ok: "system_ok job s" and step: "ExecEndSort job (EEnd k) s = Some s'"
  shows "system_ok job s' \<and> shared_ok job s' \<and>
    (k < job_dop job \<and> master s' = EEnd (Suc k) \<and> phase job ts s0 ks outs s' r (EEnd (Suc k)) \<or>
     master s' = EWaitDead \<and> phase job ts s0 ks outs s' r EWaitDead)"
proof (cases "k < job_dop job")
  case True
  let ?w = "wtab s ! k"
  have all: "all_workers (shutting job k) (job_dop job) s r" and cnt: "workersCnt (msort s) = int (job_dop job)"
    using ph by auto
  have w: "sort_worker job ?w" "wprocs s ! k = WWait" "r k = 2"
    using all True by (auto simp: all_workers_def shutting_def)
  have mine: "of_job job ?w" using w(1) by (simp add: sort_worker_def of_job_def)
  obtain old where old: "queues s ! k = Some old" using sh True m by (auto simp: shared_ok_def)
  obtain b pool where pool: "destroyBufferQueue old (sems s) = (Inr b, pool)" "\<not> PrlSemLock pool"
    using destroy_unlocked [of "sems s" old] sh by (auto simp: shared_ok_def)
  have l: "workersList s = [0..<job_dop job]" using sh by (simp add: shared_ok_def)
  have s': "s' = s\<lparr>sems := pool, queues := (queues s)[k := None], wtab := (wtab s)[k := end_worker ?w], master := EEnd (Suc k)\<rparr>"
    using step l True mine old pool(1) by (simp add: Let_def)
  have "shutting job (Suc k) k (end_worker ?w) (channels s ! k) (wprocs s ! k) (r k)"
    using w mine by (simp add: shutting_def dying_def of_job_def end_worker_def)
  moreover have "shutting job (Suc k) i w q pc x" if "i \<noteq> k" "shutting job k i w q pc x" for i w q pc x
    using that by (auto simp: shutting_def split: if_splits)
  ultimately have "all_workers (shutting job (Suc k)) (job_dop job) s' r"
    using all ok True by (auto simp: all_workers_def s' system_ok_def nth_list_update)
  moreover have "shared_ok job s'" using sh m pool(2) True by (auto simp: shared_ok_def s' nth_list_update less_Suc_eq)
  ultimately show ?thesis using ok True cnt by (simp add: s' system_ok_def)
next
  case False
  with ph have "k = job_dop job" by simp
  moreover have "s' = s\<lparr>master := EWaitDead\<rparr>" using step sh False by (simp add: shared_ok_def)
  ultimately show ?thesis using ph ok sh m by (auto simp: system_ok_def all_workers_def shutting_def shared_ok_def)
qed

lemma step_EWaitDead:
  assumes ph: "phase job ts s0 ks outs s r EWaitDead" and l: "workersList s = [0..<job_dop job]"
    and ok: "system_ok job s" and step: "ExecEndSort job EWaitDead s = Some s'"
  shows "system_ok job s' \<and> workersList s' = [0..<job_dop job] \<and> master s' = ERelease 0 \<and> phase job ts s0 ks outs s' r (ERelease 0)"
proof -
  from step ph have ready: "all_ready job PRL_WORKER_STATE_DEAD (job_dop job) s"
    and s': "s' = s\<lparr>master := ERelease 0\<rparr>" by (auto split: if_splits)
  then have "worker_state (wtab s ! i) = PRL_WORKER_STATE_DEAD" if "i < job_dop job" for i
    using that l by (simp add: all_ready_iff worker_matches_def)
  with ph ok l show ?thesis by (auto simp: s' system_ok_def all_workers_def)
qed

lemma step_ERelease:
  assumes ph: "phase job ts s0 ks outs s r (ERelease k)" and sh: "shared_ok job s" and m: "master s = ERelease k"
    and ok: "system_ok job s" and dop: "1 \<le> job_dop job" and step: "ExecEndSort job (ERelease k) s = Some s'"
  shows "s' = s\<lparr>master := EError wild\<rparr> \<and> system_ok job s' \<and> shared_ok job s' \<and> phase job ts s0 ks outs s' r (EError wild)"
proof -
  have k: "k = 0" "of_job job (wtab s ! 0)" using ph dop by (auto simp: all_workers_def dying_def)
  have "queues s ! 0 = None" "workersList s = [0..<job_dop job]" using sh m dop by (auto simp: shared_ok_def)
  then have "s' = s\<lparr>master := EError wild\<rparr>"
    using step k dop by (simp add: Let_def release_worker_def)
  with ph ok sh m show ?thesis by (auto simp: system_ok_def all_workers_def shared_ok_def)
qed

subsection \<open>Every step\<close>

text \<open>What the steps up to the end of the plan leave alone.\<close>

lemma ExecSort_frame:
  assumes "ExecSort job pc s = Some s'" and "master s = pc"
  shows "freed_queues n (master s) = 0 \<and> freed_queues n (master s') = 0 \<and>
    workersList s' = workersList s \<and> prlJobsList s' = prlJobsList s \<and> sems s' = sems s \<and> queues s' = queues s"
  using assms
  by (cases pc)
    (auto simp: master_result_def transition_def add_to_def get_from_def
       split: if_splits list.splits prod.splits sum.splits option.splits)

lemma ExecEndSort_frame:
  assumes "ExecEndSort job pc s = Some s'" and "master s = pc" and "\<And>k. pc \<noteq> EEnd k" and "\<And>k. pc \<noteq> ERelease k"
  shows "freed_queues n (master s') = freed_queues n (master s) \<and>
    workersList s' = workersList s \<and> prlJobsList s' = prlJobsList s \<and> sems s' = sems s \<and> queues s' = queues s"
  using assms by (cases pc) (auto simp: Let_def split: if_splits prod.splits)

lemma master_step_shared:
  assumes sh: "shared_ok job s" and step: "master_step job s = Some s'"
    and no: "\<And>k. master s \<noteq> EEnd k" "\<And>k. master s \<noteq> ERelease k"
  shows "shared_ok job s'"
proof (cases "ExecSort job (master s) s")
  case None
  with step have "ExecEndSort job (master s) s = Some s'" by (simp add: master_step_def)
  from ExecEndSort_frame [OF this refl no, of "job_dop job"] sh show ?thesis by (simp add: shared_ok_def)
next
  case (Some t)
  with step have "ExecSort job (master s) s = Some s'" by (simp add: master_step_def)
  from ExecSort_frame [OF this refl, of "job_dop job"] sh show ?thesis by (simp add: shared_ok_def)
qed

lemma master_step_phase:
  assumes runs: "job_runs job ts s0 ks outs" and ok: "system_ok job s" and ph: "phase job ts s0 ks outs s r (master s)"
    and sh: "shared_ok job s" and step: "master_step job s = Some s'"
  shows "system_ok job s' \<and> shared_ok job s' \<and> phase job ts s0 ks outs s' r (master s') \<and>
    master_rank (job_dop job) (total_out job outs) (length ts) s' (master s')
      < master_rank (job_dop job) (total_out job outs) (length ts) s (master s)"
proof -
  have dop: "1 \<le> job_dop job" "job_dop job \<le> 1024" "1 \<le> job_queue_size job" using runs by (auto simp: job_runs_def)
  have l: "workersList s = [0..<job_dop job]" using sh by (simp add: shared_ok_def)
  note sh' = master_step_shared [OF sh step]
  note st = step [unfolded master_step_def]
  show ?thesis
  proof (cases "master s")
    case MWaitInitial
    with st have st': "ExecSort job MWaitInitial s = Some s'" by (auto split: option.splits if_splits)
    from step_MWaitInitial [OF ph [unfolded MWaitInitial] l st'] MWaitInitial ok sh' show ?thesis by (auto simp: system_ok_def simp del: phase.simps)
  next
    case MReady
    with st have st': "ExecSort job MReady s = Some s'" by simp
    from step_MReady [OF ph [unfolded MReady] l ok st'] MReady ok sh' show ?thesis by (auto simp: system_ok_def simp del: phase.simps)
  next
    case MLoad
    with st have st': "ExecSort job MLoad s = Some s'" by (auto split: option.splits)
    from step_MLoad [OF ph [unfolded MLoad] l MLoad ok dop(1) st'] MLoad ok sh' show ?thesis by (auto simp: system_ok_def simp del: phase.simps)
  next
    case (MLast j)
    with st have st': "ExecSort job (MLast j) s = Some s'" by (auto split: option.splits if_splits)
    from step_MLast [OF ph [unfolded MLast] l ok st'] MLast ok sh' show ?thesis by (auto simp: system_ok_def simp del: phase.simps)
  next
    case MWaitFinished
    with st have st': "ExecSort job MWaitFinished s = Some s'" by (auto split: option.splits if_splits)
    from step_MWaitFinished [OF ph [unfolded MWaitFinished] l ok st'] MWaitFinished ok sh' show ?thesis by (auto simp: system_ok_def simp del: phase.simps)
  next
    case MAck
    with st have st': "ExecSort job MAck s = Some s'" by simp
    from step_MAck [OF ph [unfolded MAck] l ok dop(2) st'] MAck ok sh' show ?thesis by (auto simp: system_ok_def simp del: phase.simps)
  next
    case (MPrepare cw)
    with st have st': "ExecSort job (MPrepare cw) s = Some s'" by (auto split: option.splits if_splits)
    from step_MPrepare [OF ph [unfolded MPrepare] l ok runs st'] MPrepare ok sh' show ?thesis by (auto simp: system_ok_def simp del: phase.simps)
  next
    case MFetch
    with st have st': "ExecSort job MFetch s = Some s'" by (auto split: option.splits if_splits)
    from step_MFetch [OF ph [unfolded MFetch] l MFetch ok st'] MFetch ok sh' show ?thesis by (auto simp: system_ok_def simp del: phase.simps)
  next
    case (EStop k)
    with st have st': "ExecEndSort job (EStop k) s = Some s'" by simp
    from step_EStop [OF ph [unfolded EStop] l ok st'] EStop ok sh' show ?thesis by (auto simp: system_ok_def simp del: phase.simps)
  next
    case (EClear k)
    with st have st': "ExecEndSort job (EClear k) s = Some s'" by simp
    from step_EClear [OF ph [unfolded EClear] l ok dop(3) st'] EClear ok sh' show ?thesis by (auto simp: system_ok_def simp del: phase.simps)
  next
    case EWaitEnd
    with st have st': "ExecEndSort job EWaitEnd s = Some s'" by simp
    from step_EWaitEnd [OF ph [unfolded EWaitEnd] l ok st'] EWaitEnd ok sh' show ?thesis by (auto simp: system_ok_def simp del: phase.simps)
  next
    case (EEnd k)
    with st have st': "ExecEndSort job (EEnd k) s = Some s'" by simp
    from step_EEnd [OF ph [unfolded EEnd] sh EEnd ok st'] EEnd show ?thesis by (auto simp del: phase.simps)
  next
    case EWaitDead
    with st have st': "ExecEndSort job EWaitDead s = Some s'" by simp
    from step_EWaitDead [OF ph [unfolded EWaitDead] l ok st'] EWaitDead ok sh' show ?thesis by (auto simp: system_ok_def simp del: phase.simps)
  next
    case (ERelease k)
    with st have st': "ExecEndSort job (ERelease k) s = Some s'" by simp
    from step_ERelease [OF ph [unfolded ERelease] sh ERelease ok dop(1) st'] ERelease show ?thesis by (auto simp del: phase.simps)
  qed (use st ph in auto)
qed

lemma run_inv_step:
  assumes runs: "job_runs job ts s0 ks outs" and inv: "run_inv job ts s0 ks outs s k" and step: "sort_step job s s'"
  shows "\<exists>k'<k. run_inv job ts s0 ks outs s' k'"
  using step
proof cases
  case step_master
  from inv obtain r where r: "system_ok job s" "phase job ts s0 ks outs s r (master s)" "shared_ok job s"
    "k = master_rank (job_dop job) (total_out job outs) (length ts) s (master s) + sum r {..<job_dop job}"
    by (auto simp: run_inv_def)
  note next_phase = master_step_phase [OF runs r(1-3) step_master]
  then have "run_inv job ts s0 ks outs s'
      (master_rank (job_dop job) (total_out job outs) (length ts) s' (master s') + sum r {..<job_dop job})"
    unfolding run_inv_def by blast
  with next_phase r(4) show ?thesis by (intro exI conjI) (auto simp del: phase.simps)
next
  case (step_worker i pid)
  then show ?thesis by (rule run_inv_worker [OF runs inv])
next
  case step_end
  with inv obtain r where r: "system_ok job s" "shared_ok job s" "merge_stage job ks outs (job_dop job) s r"
    "k = master_rank (job_dop job) (total_out job outs) (length ts) s (master s) + sum r {..<job_dop job}"
    by (auto simp: run_inv_def)
  have "run_inv job ts s0 ks outs s' (6 + 3 * job_dop job + sum r {..<job_dop job})"
    using r phase_end [OF r(3)] step_end by (auto simp: run_inv_def system_ok_def shared_ok_def)
  moreover have "6 + 3 * job_dop job + sum r {..<job_dop job} < k" using step_end(2) r(4) by auto
  ultimately show ?thesis by blast
qed

section \<open>Progress\<close>

text \<open>
  Where the master waits, a worker it waits for can go on; where it does not, it can.
\<close>

definition can_go :: "'d sort_job \<Rightarrow> 'd sort_system \<Rightarrow> bool" where
  "can_go job s \<longleftrightarrow> master_step job s \<noteq> None \<or> (\<exists>i<length (wprocs s). \<forall>pid. worker_step job pid i s \<noteq> None)"

lemma worker_can_go:
  assumes "system_ok job s" and "i < job_dop job"
    and "\<And>pid. slaveBackendMain job pid (wtab s ! i) (channels s ! i) (wprocs s ! i) \<noteq> None"
  shows "can_go job s"
proof (cases "master_holds i s")
  case True
  then show ?thesis by (auto simp: can_go_def master_step_def master_holds_def Let_def split: master_pc.splits)
next
  case False
  with assms show ?thesis by (auto simp: can_go_def worker_step_def system_ok_def)
qed

lemma starting_go:
  assumes ok: "system_ok job s" and l: "workersList s = [0..<job_dop job]"
    and all: "all_workers (starting job ts outs) (job_dop job) s r" and m: "master s = MWaitInitial"
  shows "can_go job s"
proof (cases "all_ready job PRL_WORKER_STATE_INITIAL (job_dop job) s")
  case True
  with m show ?thesis by (simp add: can_go_def master_step_def)
next
  case False
  with l obtain i where i: "i < job_dop job" "\<not> worker_matches (job_number job) PRL_WORKER_STATE_INITIAL (wtab s ! i)"
    by (auto simp: all_ready_iff)
  with all have "wprocs s ! i = WInit" by (auto simp: all_workers_def starting_def worker_matches_def)
  with i(1) ok show ?thesis by (intro worker_can_go) auto
qed

lemma full_not_empty: "\<not> channel_room job q \<Longrightarrow> 1 \<le> job_queue_size job \<Longrightarrow> ch_cells q \<noteq> []"
  by (auto simp: channel_room_def)

lemma loading_add_go:
  assumes runs: "job_runs job ts s0 ks outs" and ok: "system_ok job s" and i: "i < job_dop job"
    and all: "all_workers (loading job s0 ts outs given) (job_dop job) s r"
    and add: "\<And>s'. add_to job i cell s = Some s' \<Longrightarrow> master_step job s \<noteq> None"
  shows "can_go job s"
proof (cases "channel_room job (channels s ! i)")
  case True
  with add show ?thesis by (simp add: can_go_def add_to_def)
next
  case False
  with runs have ne: "ch_cells (channels s ! i) \<noteq> []" by (intro full_not_empty) (auto simp: job_runs_def)
  from all i have l: "loading job s0 ts outs given i (wtab s ! i) (channels s ! i) (wprocs s ! i) (r i)"
    by (simp add: all_workers_def)
  then obtain rest where rest: "all_cells (share (job_dop job) i ts) = given i @ rest" by (auto simp: loading_def)
  have data: "worker_data job s0 (share (job_dop job) i ts) (outs i)" using runs i by (simp add: job_runs_def)
  show ?thesis
    by (rule worker_can_go [OF ok i], rule receiving_enabled [OF data rest])
      (use l ne in \<open>auto simp: loading_def\<close>)
qed

lemma finishing_go:
  assumes runs: "job_runs job ts s0 ks outs" and ok: "system_ok job s" and l: "workersList s = [0..<job_dop job]"
    and all: "all_workers (loading job s0 ts outs (dealt job ts (length ts) (\<lambda>_. True))) (job_dop job) s r"
    and m: "master s = MWaitFinished"
  shows "can_go job s"
proof (cases "all_ready job PRL_WORKER_STATE_FINISHED (job_dop job) s")
  case True
  with m show ?thesis by (simp add: can_go_def master_step_def)
next
  case False
  with l obtain i where i: "i < job_dop job" "\<not> worker_matches (job_number job) PRL_WORKER_STATE_FINISHED (wtab s ! i)"
    by (auto simp: all_ready_iff)
  from all i have lo: "loading job s0 ts outs (dealt job ts (length ts) (\<lambda>_. True)) i (wtab s ! i) (channels s ! i) (wprocs s ! i) (r i)"
    by (simp add: all_workers_def)
  then have "worker_state (wtab s ! i) \<noteq> PRL_WORKER_STATE_FINISHED"
    using i(2) by (auto simp: worker_matches_def loading_def sort_worker_def)
  moreover have "dealt job ts (length ts) (\<lambda>_. True) i = all_cells (share (job_dop job) i ts)"
    by (simp add: dealt_def all_cells_def)
  moreover have "worker_data job s0 (share (job_dop job) i ts) (outs i)" using runs i by (simp add: job_runs_def)
  ultimately show ?thesis
    using lo by (intro worker_can_go [OF ok i(1)] receiving_enabled [where rest = "[]"]) (auto simp: loading_def)
qed

lemma returning_get_go:
  assumes runs: "job_runs job ts s0 ks outs" and ok: "system_ok job s" and i: "i < job_dop job"
    and all: "all_workers (returning job R) (job_dop job) s r" and more: "R i \<noteq> []"
    and get: "\<And>c s'. get_from i s = Some (c, s') \<Longrightarrow> master_step job s \<noteq> None"
  shows "can_go job s"
proof (cases "ch_cells (channels s ! i)")
  case (Cons c cs)
  then obtain s' where "get_from i s = Some (c, s')" by (simp add: get_from_def)
  with get show ?thesis by (simp add: can_go_def)
next
  case Nil
  from all i have "returning job R i (wtab s ! i) (channels s ! i) (wprocs s ! i) (r i)" by (simp add: all_workers_def)
  then have se: "sending job (R i) (wtab s ! i) (channels s ! i) (wprocs s ! i) (r i)" by (simp add: returning_def)
  have room: "channel_room job (channels s ! i)" using Nil runs by (auto simp: channel_room_def job_runs_def)
  have "worker_state (wtab s ! i) \<noteq> PRL_WORKER_STATE_END"
  proof
    assume "worker_state (wtab s ! i) = PRL_WORKER_STATE_END"
    with se more Nil show False by (cases "wprocs s ! i") (auto simp: cell_vals_def elim: sending.elims)
  qed
  then show ?thesis by (intro worker_can_go [OF ok i] sending_enabled [OF se room])
qed

lemma fetching_go:
  assumes runs: "job_runs job ts s0 ks outs" and ok: "system_ok job s"
    and st: "merge_stage job ks outs (job_dop job) s r" and ended: "isParallelEnded (msort s) \<longleftrightarrow> memtupcount (msort s) = 0"
    and m: "master s = MFetch"
  shows "can_go job s"
proof (cases "isParallelEnded (msort s)")
  case True
  with m show ?thesis by (simp add: can_go_def master_step_def)
next
  case False
  from st obtain R out S where all: "all_workers (returning job R) (job_dop job) s r"
    and mg: "merging (job_env job) ks (job_dop job) outs (job_dop job) R (msort s) out S" by (auto simp: merge_stage_def)
  have some: "memtupcount (msort s) \<noteq> 0" using False ended by simp
  note root = merge_root [OF mg some]
  have "workers (msort s) ! merge_source (msort s) = merge_source (msort s)"
    using mg root(1) by (simp add: merging_def master_frame_def)
  with False root(2) m show ?thesis
    by (intro returning_get_go [OF runs ok root(1) all root(4)]) (simp add: master_step_def split: option.splits)
qed

lemma preparing_go:
  assumes runs: "job_runs job ts s0 ks outs" and ok: "system_ok job s"
    and st: "merge_stage job ks outs cw s r" and m: "master s = MPrepare cw"
  shows "can_go job s"
proof -
  from st obtain R out S where all: "all_workers (returning job R) (job_dop job) s r"
    and mg: "merging (job_env job) ks (job_dop job) outs cw R (msort s) out S" by (auto simp: merge_stage_def)
  then have fr: "workersCnt (msort s) = int (job_dop job)" "workers (msort s) = [0..<job_dop job]"
    by (simp_all add: merging_def master_frame_def)
  show ?thesis
  proof (cases "cw < job_dop job")
    case True
    with mg have "R cw \<noteq> []" by (auto simp: merging_def all_cells_def)
    from returning_get_go [OF runs ok True all this] True fr m show ?thesis
      by (auto simp: master_step_def split: option.splits)
  next
    case False
    with fr m show ?thesis by (simp add: can_go_def master_step_def)
  qed
qed

lemma stopping_go:
  assumes ok: "system_ok job s" and l: "workersList s = [0..<job_dop job]" and cnt: "workersCnt (msort s) = int (job_dop job)"
    and all: "all_workers (stopping job (job_dop job)) (job_dop job) s r" and m: "master s = EWaitEnd"
  shows "can_go job s"
proof (cases "all_ready job PRL_WORKER_STATE_END (job_dop job) s")
  case True
  with m cnt show ?thesis by (simp add: can_go_def master_step_def)
next
  case False
  with l obtain i where i: "i < job_dop job" "\<not> worker_matches (job_number job) PRL_WORKER_STATE_END (wtab s ! i)"
    by (auto simp: all_ready_iff)
  from all i(1) have st: "stopping job (job_dop job) i (wtab s ! i) (channels s ! i) (wprocs s ! i) (r i)"
    by (simp add: all_workers_def)
  then obtain R where se: "sending job R (wtab s ! i) (channels s ! i) (wprocs s ! i) (r i)"
    and ne: "worker_state (wtab s ! i) \<noteq> PRL_WORKER_STATE_END"
    and or: "wprocs s ! i = WEnd \<or> channel_room job (channels s ! i)"
    using i by (auto simp: stopping_def sent_all_def worker_matches_def sort_worker_def)
  have "slaveBackendMain job pid (wtab s ! i) (channels s ! i) (wprocs s ! i) \<noteq> None" for pid
    using or sending_enabled [OF se _ ne] by auto
  then show ?thesis by (rule worker_can_go [OF ok i(1)])
qed

lemma dying_go:
  assumes ok: "system_ok job s" and l: "workersList s = [0..<job_dop job]" and cnt: "workersCnt (msort s) = int (job_dop job)"
    and all: "all_workers (dying job) (job_dop job) s r" and m: "master s = EWaitDead"
  shows "can_go job s"
proof (cases "all_ready job PRL_WORKER_STATE_DEAD (job_dop job) s")
  case True
  with m cnt show ?thesis by (simp add: can_go_def master_step_def)
next
  case False
  with l obtain i where i: "i < job_dop job" "\<not> worker_matches (job_number job) PRL_WORKER_STATE_DEAD (wtab s ! i)"
    by (auto simp: all_ready_iff)
  from all i(1) have st: "dying job i (wtab s ! i) (channels s ! i) (wprocs s ! i) (r i)" by (simp add: all_workers_def)
  with i(2) show ?thesis
    by (intro worker_can_go [OF ok i(1)] ending_enabled) (auto simp: dying_def of_job_def worker_matches_def)
qed

lemma progress:
  assumes runs: "job_runs job ts s0 ks outs" and inv: "run_inv job ts s0 ks outs s k"
    and m: "master s \<noteq> MDone" "\<And>e. master s \<noteq> EError e"
  shows "can_go job s"
proof -
  from inv m obtain r where ok: "system_ok job s" and l: "workersList s = [0..<job_dop job]"
    and ph: "phase job ts s0 ks outs s r (master s)" by (auto simp: run_inv_def shared_ok_def)
  show ?thesis
  proof (cases "master s")
    case MLoad
    show ?thesis
    proof (cases "outer s")
      case Nil
      with MLoad show ?thesis by (simp add: can_go_def master_step_def)
    next
      case (Cons x xs)
      obtain j c st where d: "distributeToWorker (job_env job) (msort s) x = (j, c, st)" by (cases "distributeToWorker (job_env job) (msort s) x")
      have "j < job_dop job" using d ph MLoad runs
        by (auto simp: distributeToWorker_def Let_def tuplesort_prl_puttupleslot_def copytup_heap_def master_registered_def job_runs_def split: prod.splits)
      moreover have "master_step job s \<noteq> None" if "add_to job j c s = Some s'" for s'
        using that d Cons MLoad by (simp add: master_step_def)
      moreover from ph MLoad obtain given where "all_workers (loading job s0 ts outs given) (job_dop job) s r" by auto
      ultimately show ?thesis by (intro loading_add_go [OF runs ok])
    qed
  next
    case (MLast j)
    show ?thesis
    proof (cases "j < job_dop job")
      case True
      with ph MLast show ?thesis
        by (auto intro!: loading_add_go [OF runs ok True, where cell = None] simp: master_step_def master_registered_def)
    next
      case False
      with ph MLast show ?thesis by (auto simp: can_go_def master_step_def master_registered_def)
    qed
  next
    case (EStop k)
    then show ?thesis by (simp add: can_go_def master_step_def Let_def set_stop_def)
  next
    case (EClear k)
    then show ?thesis by (simp add: can_go_def master_step_def Let_def)
  next
    case (EEnd k)
    then show ?thesis by (auto simp: can_go_def master_step_def Let_def split: option.splits prod.splits sum.splits)
  next
    case (ERelease k)
    then show ?thesis by (simp add: can_go_def master_step_def Let_def)
  qed (use ph m starting_go [OF ok l] finishing_go [OF runs ok l] preparing_go [OF runs ok] fetching_go [OF runs ok]
      stopping_go [OF ok l] dying_go [OF ok l] in \<open>auto simp: can_go_def master_step_def\<close>)
qed

end
