(* ===== verification/MemoryLimits.thy ===== *)
theory MemoryLimits
  imports MemorySort
begin

text \<open>
  When a sort stays in memory. The array of a sort starts with 1024 entries and doubles
  while the accounting of \<^verbatim>\<open>tuplesort.c\<close> allows it (\<^verbatim>\<open>grow_memtuples\<close>); the tuples are
  charged as they come in. A condition on these numbers alone, \<open>memory_holds\<close>, makes every
  put succeed and keeps the sort off the tapes.
\<close>

definition tuple_space :: "'d sort_env \<Rightarrow> MinimalTuple list \<Rightarrow> int" where
  "tuple_space env ts = (\<Sum>t\<leftarrow>ts. chunk_space env t)"

text \<open>
  An array that has been doubled \<open>j\<close> times has an entry to spare for every tuple; the
  tuples fit beside every array on the way there; and each doubling is allowed.
\<close>

definition memory_holds :: "'d sort_env \<Rightarrow> int \<Rightarrow> nat \<Rightarrow> MinimalTuple list \<Rightarrow> bool" where
  "memory_holds env mem j ts \<longleftrightarrow> length ts < 1024 * 2 ^ j \<and> (\<forall>t\<in>set ts. 0 \<le> chunk_space env t) \<and>
     (\<forall>i\<le>j. array_space env (1024 * 2 ^ i) + tuple_space env ts \<le> mem) \<and>
     (\<forall>i<j. array_space env (1024 * 2 ^ i) + int (1024 * 2 ^ i) * SORTTUPLE_SIZE + tuple_space env ts < mem \<and>
        int (1024 * 2 ^ i) * 2 < MaxAllocSize div SORTTUPLE_SIZE)"

definition charged :: "'d sort_env \<Rightarrow> int \<Rightarrow> nat \<Rightarrow> MinimalTuple list \<Rightarrow> 'd Tuplesortstate \<Rightarrow> bool" where
  "charged env mem j ds s \<longleftrightarrow> (\<exists>i\<le>j. memtupsize s = 1024 * 2 ^ i) \<and> memtupcount s = length ds \<and>
     availMem s = mem - array_space env (memtupsize s) - tuple_space env ds"

lemma tuple_space_simps [simp]:
  "tuple_space env [] = 0" "tuple_space env (t # ts) = chunk_space env t + tuple_space env ts"
  "tuple_space env (ts @ us) = tuple_space env ts + tuple_space env us"
  by (simp_all add: tuple_space_def)

lemma tuple_space_nonneg: "\<forall>t\<in>set ts. 0 \<le> chunk_space env t \<Longrightarrow> 0 \<le> tuple_space env ts"
  by (induction ts) auto

text \<open>The array grows when its last entry is about to be used.\<close>

lemma ensure_slot_holds:
  assumes holds: "memory_holds env mem j (ds @ t # us)" and ch: "charged env mem j ds s" and ok: "array_ok s"
    and room: "memtupcount s < memtupsize s"
  shows "\<exists>s1. ensure_slot env (USEMEM (chunk_space env t) s) = Inr s1 \<and> memtupcount s1 = length ds \<and>
    Suc (memtupcount s1) < memtupsize s1 \<and> (\<exists>i\<le>j. memtupsize s1 = 1024 * 2 ^ i) \<and>
    availMem s1 = mem - array_space env (memtupsize s1) - tuple_space env (ds @ [t]) \<and> 0 \<le> availMem s1"
proof -
  from ch obtain i where i: "i \<le> j" "memtupsize s = 1024 * 2 ^ i" by (auto simp: charged_def)
  have cnt: "memtupcount s = length ds"
    and av: "availMem s = mem - array_space env (memtupsize s) - tuple_space env ds" using ch by (auto simp: charged_def)
  have us: "0 \<le> tuple_space env us" using holds by (intro tuple_space_nonneg) (auto simp: memory_holds_def)
  have fit: "array_space env (1024 * 2 ^ k) + tuple_space env (ds @ [t]) \<le> mem" if "k \<le> j" for k
    using holds that us by (force simp: memory_holds_def)
  show ?thesis
  proof (cases "memtupcount s \<ge> memtupsize s - 1")
    case False
    with cnt av i fit [OF i(1)] show ?thesis by (intro exI [of _ "USEMEM (chunk_space env t) s"]) (auto simp: ensure_slot_def)
  next
    case True
    have "i \<noteq> j"
    proof
      assume "i = j"
      moreover have "length (ds @ t # us) < 1024 * 2 ^ j" using holds unfolding memory_holds_def by blast
      ultimately show False using True cnt i(2) by simp
    qed
    with i(1) have "i < j" by simp
    then have gr: "array_space env (1024 * 2 ^ i) + int (1024 * 2 ^ i) * SORTTUPLE_SIZE + tuple_space env (ds @ t # us) < mem"
      "int (1024 * 2 ^ i) * 2 < MaxAllocSize div SORTTUPLE_SIZE"
      using holds unfolding memory_holds_def by blast+
    have next_size: "array_space env (memtupsize s * 2) + tuple_space env (ds @ [t]) \<le> mem"
      using fit [of "Suc i"] \<open>i < j\<close> i(2) by (simp add: mult.commute mult.left_commute)
    define s1 where "s1 = s\<lparr>memtuples := memtuples s @ replicate (memtupsize s) (fresh_slot env), memtupsize := memtupsize s * 2,
      availMem := mem - array_space env (memtupsize s * 2) - tuple_space env (ds @ [t])\<rparr>"
    have "grow_memtuples env (USEMEM (chunk_space env t) s) = Inr (True, s1)"
      using gr us next_size av i(2) by (simp add: grow_memtuples_def Let_def s1_def algebra_simps)
    then have "ensure_slot env (USEMEM (chunk_space env t) s) = Inr s1"
      using True room by (simp add: ensure_slot_def s1_def)
    moreover have "\<exists>k\<le>j. memtupsize s1 = 1024 * 2 ^ k"
      using \<open>i < j\<close> i(2) by (intro exI [of _ "Suc i"]) (simp add: s1_def)
    moreover have "Suc (memtupcount s1) < memtupsize s1" using room i(2) by (simp add: s1_def)
    ultimately show ?thesis using cnt next_size by (intro exI [of _ s1]) (simp add: s1_def)
  qed
qed

lemma put_holds:
  assumes holds: "memory_holds env mem j (ds @ t # us)" and ch: "charged env mem j ds s"
    and inv: "loading_inv env ks (mset ds) s"
  shows "\<exists>s'. tuplesort_puttupleslot env t s = Inr s' \<and> status s' \<noteq> TSS_BUILDRUNS \<and>
    (status s' = TSS_INITIAL \<longrightarrow> charged env mem j (ds @ [t]) s')"
proof -
  note l = inv [unfolded loading_inv_def]
  obtain d n where dn: "heap_getattr_in env t (sk_attno (scanKeys s ! 0)) = (d, n)" by (metis surj_pair)
  define x where "x = (fresh_slot env)\<lparr>tuple := t, datum1 := d, isnull1 := n\<rparr>"
  have put: "tuplesort_puttupleslot env t s = puttuple_common env (USEMEM (chunk_space env t) s) x"
    using dn by (simp add: tuplesort_puttupleslot_def copytup_heap_def Let_def x_def)
  have "array_ok s" "memtupcount s < memtupsize s" using l by auto
  from ensure_slot_holds [OF holds ch this] obtain s1 where s1: "ensure_slot env (USEMEM (chunk_space env t) s) = Inr s1"
    "memtupcount s1 = length ds" "Suc (memtupcount s1) < memtupsize s1" "\<exists>i\<le>j. memtupsize s1 = 1024 * 2 ^ i"
    "availMem s1 = mem - array_space env (memtupsize s1) - tuple_space env (ds @ [t])" "0 \<le> availMem s1" by blast
  have g: "array_ok s1" "heap_elems s1 = heap_elems s" "status s1 = TSS_INITIAL" "scanKeys s1 = ks" "bounded s1 = bounded s" "bound s1 = bound s"
    using s1(1) l by (auto simp: ensure_slot_def bindE_Inr_iff split: if_splits dest!: grow_memtuples_keeps)
  define s2 where "s2 = s1\<lparr>memtuples := (memtuples s1)[memtupcount s1 := x], memtupcount := memtupcount s1 + 1\<rparr>"
  have s2: "array_ok s2" "heap_elems s2 = add_mset x (heap_elems s1)"
    using store_tuple [OF g(1), of x] s1(3) by (simp_all add: s2_def)
  have res: "tuplesort_puttupleslot env t s = switch_over env s2" using put l s1(1) by (simp add: puttuple_common_def s2_def)
  show ?thesis
  proof (cases "bounded s2 \<and> int (memtupcount s2) > bound s2 * 2")
    case True
    have ok: "datum1_ok env (scanKeys s2) y" if "y \<in># heap_elems s2" for y
      using that s2(2) g l dn by (auto simp: datum1_ok_def s2_def x_def)
    from True have "\<exists>s'. make_bounded_heap env s2 = Inr s' \<and> status s' = TSS_BOUNDED \<and> bounded s' \<and> bound s' = bound s2 \<and>
        randomAccess s' = randomAccess s2 \<and> int (memtupcount s') = bound s' \<and>
        bounded_inv env (scanKeys s2) (image_mset tuple (heap_elems s2)) s'"
      using l g by (intro make_bounded_heap_inv s2(1) ok) (auto simp: s2_def)
    with True res show ?thesis by (auto simp: switch_over_def)
  next
    case False
    then have "switch_over env s2 = Inr s2" using s1 by (auto simp: switch_over_def s2_def)
    with res s1 g show ?thesis by (simp add: charged_def s2_def)
  qed
qed

lemma puts_hold:
  assumes "memory_holds env mem j (ds @ us)" and "in_memory_inv env ks (mset ds) s"
    and "status s = TSS_INITIAL \<Longrightarrow> charged env mem j ds s"
  shows "\<exists>s'. foldE (tuplesort_puttupleslot env) us s = Inr s' \<and> status s' \<noteq> TSS_BUILDRUNS \<and>
    (status s' = TSS_INITIAL \<longrightarrow> charged env mem j (ds @ us) s')"
  using assms
proof (induction us arbitrary: ds s)
  case Nil
  then show ?case by (auto simp: in_memory_inv_def loading_inv_def heaping_inv_def)
next
  case (Cons t us)
  have "\<exists>s1. tuplesort_puttupleslot env t s = Inr s1 \<and> status s1 \<noteq> TSS_BUILDRUNS \<and>
      (status s1 = TSS_INITIAL \<longrightarrow> charged env mem j (ds @ [t]) s1)"
  proof (cases "loading_inv env ks (mset ds) s")
    case True
    then have "status s = TSS_INITIAL" by (simp add: loading_inv_def)
    with put_holds [OF Cons.prems(1) _ True] Cons.prems(3) show ?thesis by blast
  next
    case False
    with Cons.prems(2) have h: "heaping_inv env ks (mset ds) s" by (simp add: in_memory_inv_def)
    from put_heaping [OF h] obtain s1 where "tuplesort_puttupleslot env t s = Inr s1" "status s1 = TSS_BOUNDED" by blast
    then show ?thesis by simp
  qed
  then obtain s1 where s1: "tuplesort_puttupleslot env t s = Inr s1" "status s1 \<noteq> TSS_BUILDRUNS"
    "status s1 = TSS_INITIAL \<longrightarrow> charged env mem j (ds @ [t]) s1" by blast
  have i1: "in_memory_inv env ks (mset (ds @ [t])) s1" using puttupleslot_in_memory [OF Cons.prems(2) s1(1,2)] by simp
  have "memory_holds env mem j ((ds @ [t]) @ us)" using Cons.prems(1) by simp
  from Cons.IH [OF this i1 mp [OF s1(3)]] s1(1) show ?case by (simp add: bindE_Inr_iff)
qed

text \<open>A sort begins with an empty array; whether it can begin depends on its keys and the memory only.\<close>

lemma begin_charged:
  assumes ops: "\<forall>oper f rev. ordering_op oper = Some (f, rev) \<longrightarrow> btree_proc f"
    and start: "tuplesort_begin_heap env ordering_op keys workMem random = Inr s"
  shows "charged env (workMem * 1024) j [] s"
proof -
  from start obtain s0 where s0: "tuplesort_begin_common env workMem random = Inr s0"
    "foldE (begin_scan_key ordering_op) keys (s0\<lparr>isParallelEnded := False, nKeys := length keys\<rparr>) = Inr s"
    by (auto simp: tuplesort_begin_heap_def bindE_Inr_iff split: if_splits)
  let ?b = "s0\<lparr>isParallelEnded := False, nKeys := length keys\<rparr>"
  have f: "memtupcount s0 = 0" "memtupsize s0 = 1024" "scanKeys s0 = []" "availMem s0 = workMem * 1024 - array_space env 1024"
    using s0(1) by (auto simp: tuplesort_begin_common_def Let_def split: if_splits)
  have "good_keys (scanKeys s) \<and> length (scanKeys s) = length (scanKeys ?b) + length keys \<and> s = ?b\<lparr>scanKeys := scanKeys s\<rparr>"
    by (rule begin_keys [OF _ s0(2)]) (use ops in blast, simp add: f good_keys_def)
  then obtain ks where "s = ?b\<lparr>scanKeys := ks\<rparr>" by auto
  with f show ?thesis by (auto simp: charged_def intro!: exI [of _ 0])
qed

lemma begin_keys_again:
  "foldE (begin_scan_key ordering_op) keys s = Inr s' \<Longrightarrow> \<exists>t'. foldE (begin_scan_key ordering_op) keys t = Inr t'"
proof (induction keys arbitrary: s t)
  case (Cons k keys)
  then obtain s1 where s1: "begin_scan_key ordering_op k s = Inr s1" "foldE (begin_scan_key ordering_op) keys s1 = Inr s'"
    by (auto simp: bindE_Inr_iff)
  from s1(1) obtain t1 where "begin_scan_key ordering_op k t = Inr t1"
    by (cases k) (auto simp: begin_scan_key_def Let_def split: if_splits option.splits)
  with Cons.IH [OF s1(2), of t1] show ?case by auto
qed simp

lemma begin_again:
  assumes start: "tuplesort_begin_heap env ordering_op keys workMem random = Inr s"
    and mem: "array_space env' 1024 \<le> workMem' * 1024"
  shows "\<exists>s'. tuplesort_begin_heap env' ordering_op keys workMem' random' = Inr s'"
proof -
  have "\<exists>b. tuplesort_begin_common env' workMem' random' = Inr b" using mem by (simp add: tuplesort_begin_common_def Let_def)
  then obtain b where b: "tuplesort_begin_common env' workMem' random' = Inr b" by (rule exE)
  from start obtain s0 where "length keys > 0"
    "foldE (begin_scan_key ordering_op) keys (s0\<lparr>isParallelEnded := False, nKeys := length keys\<rparr>) = Inr s"
    by (auto simp: tuplesort_begin_heap_def bindE_Inr_iff split: if_splits)
  from begin_keys_again [OF this(2)] this(1) b show ?thesis by (simp add: tuplesort_begin_heap_def)
qed

section \<open>Properties\<close>

text \<open>
  C14: a sort whose tuples fit stays in memory: every put succeeds, the sort never switches to
  tapes, and its accounting is exact: what is left of the work memory is what the array and
  the tuples do not use, never less than nothing. The array has been doubled as often as
  needed and one of its entries is still free.
\<close>

theorem puts_within_memory:
  assumes ops: "\<forall>oper f rev. ordering_op oper = Some (f, rev) \<longrightarrow> btree_proc f"
    and start: "tuplesort_begin_heap env ordering_op keys workMem random = Inr s0"
    and holds: "memory_holds env (workMem * 1024) j ts"
  shows "\<exists>s1. foldE (tuplesort_puttupleslot env) ts s0 = Inr s1 \<and> status s1 = TSS_INITIAL \<and>
    memtupcount s1 = length ts \<and> length ts < memtupsize s1 \<and> (\<exists>i\<le>j. memtupsize s1 = 1024 * 2 ^ i) \<and>
    availMem s1 = workMem * 1024 - array_space env (memtupsize s1) - tuple_space env ts \<and> 0 \<le> availMem s1"
proof -
  have b: "loading_inv env (scanKeys s0) {#} s0" "\<not> bounded s0" using begin_loading [OF _ start] ops by blast+
  then have i0: "in_memory_inv env (scanKeys s0) (mset []) s0" by (simp add: in_memory_inv_def)
  have "memory_holds env (workMem * 1024) j ([] @ ts)" using holds by simp
  from puts_hold [OF this i0 begin_charged [OF ops start]] obtain s1 where
    s1: "foldE (tuplesort_puttupleslot env) ts s0 = Inr s1" "status s1 \<noteq> TSS_BUILDRUNS"
    and ch: "status s1 = TSS_INITIAL \<longrightarrow> charged env (workMem * 1024) j ts s1" by auto
  from put_all_in_memory [OF i0 s1] b(2) have l: "loading_inv env (scanKeys s0) (mset ts) s1"
    by (auto simp: in_memory_inv_def heaping_inv_def same_options_def)
  then have st: "status s1 = TSS_INITIAL" "memtupcount s1 < memtupsize s1" by (auto simp: loading_inv_def)
  with ch obtain i where i: "i \<le> j" "memtupsize s1 = 1024 * 2 ^ i" "memtupcount s1 = length ts"
    "availMem s1 = workMem * 1024 - array_space env (memtupsize s1) - tuple_space env ts" by (auto simp: charged_def)
  moreover have "array_space env (1024 * 2 ^ i) + tuple_space env ts \<le> workMem * 1024"
    using holds i(1) unfolding memory_holds_def by blast
  ultimately show ?thesis using s1(1) st by (intro exI [of _ s1]) auto
qed

theorem puts_within_memory_witness:
  "\<exists>s0 s1. tuplesort_begin_heap demo_env demo_ops [(1, 58, False)] 256 True = Inr s0 \<and>
     foldE (tuplesort_puttupleslot demo_env) (replicate 1500 [3]) s0 = Inr s1 \<and> memtupsize s1 = 2048 \<and>
     availMem s1 = 163476"
proof -
  obtain s0 where s0: "tuplesort_begin_heap demo_env demo_ops [(1, 58, False)] 256 True = Inr s0"
    by (simp add: demo_run)
  have space: "tuple_space demo_env (replicate n [3]) = 33 * int n" for n
    by (simp add: tuple_space_def demo_env_def sum_list_replicate)
  have ar: "array_space demo_env n = 24 * int n + 16" for n by (simp add: demo_env_def)
  have "chunk_space demo_env [3] = 33" by (simp add: demo_env_def)
  then have holds: "memory_holds demo_env (256 * 1024) 1 (replicate 1500 [3])"
    by (auto simp: memory_holds_def space ar le_Suc_eq MaxAllocSize_def SORTTUPLE_SIZE_def)
  have "\<forall>oper f rev. demo_ops oper = Some (f, rev) \<longrightarrow> btree_proc f" using demo_ops_good by blast
  from puts_within_memory [OF this s0 holds] obtain s1 i where
    s1: "foldE (tuplesort_puttupleslot demo_env) (replicate 1500 [3]) s0 = Inr s1" "1500 < memtupsize s1"
    "i \<le> 1" "memtupsize s1 = 1024 * 2 ^ i"
    "availMem s1 = 256 * 1024 - array_space demo_env (memtupsize s1) - tuple_space demo_env (replicate 1500 [3])" by auto
  then have "memtupsize s1 = 2048" by (cases i) auto
  with s0 s1(1,5) show ?thesis by (simp add: space ar)
qed

end
