(* ===== verification/ParallelResult.thy ===== *)
theory ParallelResult
  imports ParallelRun MemoryLimits
begin

text \<open>
  What a parallel sort returns, that it ends and where: every run from \<^verbatim>\<open>ExecSort\<close> on,
  through \<^verbatim>\<open>ExecEndSort\<close>, for jobs whose workers sort their shares in memory. The condition
  on memory is \<open>share_fits\<close>, that the puts of each worker stay off the tapes; it follows from
  the arithmetic of \<open>job_limits\<close>.
\<close>

section \<open>Starting\<close>

definition ops_good :: "'d sort_job \<Rightarrow> bool" where
  "ops_good job \<longleftrightarrow> (\<forall>oper f reverse. job_ops job oper = Some (f, reverse) \<longrightarrow> btree_proc f)"

definition bound_positive :: "'d sort_job \<Rightarrow> bool" where
  "bound_positive job \<longleftrightarrow> (\<forall>n. job_bound job = Some n \<longrightarrow> 0 < n)"

text \<open>The sort of every worker takes its share in without going to tape.\<close>

definition share_fits :: "'d sort_job \<Rightarrow> MinimalTuple list \<Rightarrow> bool" where
  "share_fits job ts \<longleftrightarrow> (\<forall>i<job_dop job. case bindE (sort_begin job (slave_env job))
       (foldE (tuplesort_puttupleslot (slave_env job)) (share (job_dop job) i ts)) of
         Inl _ \<Rightarrow> False | Inr s \<Rightarrow> status s \<noteq> TSS_BUILDRUNS)"

definition job_ok :: "'d sort_job \<Rightarrow> MinimalTuple list \<Rightarrow> bool" where
  "job_ok job ts \<longleftrightarrow> ops_good job \<and> bound_positive job \<and> job_forward job \<and> 1 \<le> job_dop job \<and> job_dop job \<le> 1024 \<and>
     1 \<le> job_queue_size job \<and> share_fits job ts"

lemma slave_env_same [simp]:
  "heap_getattr_in (slave_env job) = heap_getattr_in (job_env job)" "is_slave (slave_env job)"
  "key_order (slave_env job) = key_order (job_env job)"
  by (simp_all add: slave_env_def fun_eq_iff)

text \<open>The master's sort and a worker's sort have the same keys.\<close>

lemma begin_keys_same:
  "foldE (begin_scan_key ordering_op) keys s = Inr s' \<Longrightarrow> foldE (begin_scan_key ordering_op) keys t = Inr t' \<Longrightarrow>
   scanKeys s = scanKeys t \<Longrightarrow> scanKeys s' = scanKeys t'"
proof (induction keys arbitrary: s t)
  case (Cons k keys)
  then obtain s1 t1 where st: "begin_scan_key ordering_op k s = Inr s1" "begin_scan_key ordering_op k t = Inr t1"
    "foldE (begin_scan_key ordering_op) keys s1 = Inr s'" "foldE (begin_scan_key ordering_op) keys t1 = Inr t'"
    by (auto simp: bindE_Inr_iff)
  obtain a oper nf where k: "k = (a, oper, nf)" by (cases k)
  have "scanKeys s1 = scanKeys t1" using st(1,2) Cons.prems(3)
    by (cases "ordering_op oper") (auto simp: begin_scan_key_def k Let_def split: if_splits)
  then show ?case by (rule Cons.IH [OF st(3,4)])
qed simp

lemma begin_heap_fold:
  assumes "tuplesort_begin_heap env ops keys m r = Inr s"
  shows "\<exists>b. scanKeys b = [] \<and> foldE (begin_scan_key ops) keys b = Inr s"
proof -
  from assms obtain s0 where s0: "tuplesort_begin_common env m r = Inr s0"
    "foldE (begin_scan_key ops) keys (s0\<lparr>isParallelEnded := False, nKeys := length keys\<rparr>) = Inr s"
    by (auto simp: tuplesort_begin_heap_def bindE_Inr_iff split: if_splits)
  have "scanKeys s0 = []" using s0(1) by (auto simp: tuplesort_begin_common_def Let_def split: if_splits)
  with s0(2) show ?thesis by (intro exI conjI) auto
qed

lemma begin_heap_keys:
  assumes "tuplesort_begin_heap env ops keys m r = Inr s" and "tuplesort_begin_heap env' ops keys m' r' = Inr s'"
  shows "scanKeys s = scanKeys s'"
  using begin_heap_fold [OF assms(1)] begin_heap_fold [OF assms(2)] begin_keys_same by metis

lemma sort_begin_keys:
  "sort_begin job env = Inr s \<Longrightarrow> sort_begin job env' = Inr s' \<Longrightarrow> scanKeys s = scanKeys s'"
  by (auto simp: sort_begin_def bindE_Inr_iff tuplesort_set_bound_def dest: begin_heap_keys split: option.splits if_splits)

lemma begin_heap_fresh:
  assumes ops: "\<And>oper f reverse. ordering_op oper = Some (f, reverse) \<Longrightarrow> btree_proc f"
    and start: "tuplesort_begin_heap env ordering_op keys workMem random = Inr s"
  shows "memtupsize s = 1024 \<and> memtupcount s = 0 \<and> \<not> isParallelEnded s"
proof -
  from start obtain s0 where s0: "tuplesort_begin_common env workMem random = Inr s0" "length keys > 0"
    "foldE (begin_scan_key ordering_op) keys (s0\<lparr>isParallelEnded := False, nKeys := length keys\<rparr>) = Inr s"
    by (auto simp: tuplesort_begin_heap_def bindE_Inr_iff split: if_splits)
  have f: "memtupcount s0 = 0" "memtupsize s0 = 1024" "scanKeys s0 = []"
    using s0(1) by (auto simp: tuplesort_begin_common_def Let_def split: if_splits)
  let ?b = "s0\<lparr>isParallelEnded := False, nKeys := length keys\<rparr>"
  have "good_keys (scanKeys s) \<and> length (scanKeys s) = length (scanKeys ?b) + length keys \<and> s = ?b\<lparr>scanKeys := scanKeys s\<rparr>"
    by (rule begin_keys [OF ops s0(3)]) (assumption, simp add: f good_keys_def)
  then obtain ks where "s = ?b\<lparr>scanKeys := ks\<rparr>" by auto
  with f show ?thesis by simp
qed

lemma sort_begin_loading:
  assumes ops: "ops_good job" "bound_positive job" and start: "sort_begin job env = Inr s"
  shows "loading_inv env (scanKeys s) {#} s" "memtupsize s = 1024" "memtupcount s = 0" "\<not> isParallelEnded s"
    and "bounded s \<Longrightarrow> job_bound job = Some (bound s)"
proof -
  from start obtain s1 where s1: "tuplesort_begin_heap env (job_ops job) (job_keys job)
      (if is_slave env then job_slave_mem job else job_work_mem job) (job_random job) = Inr s1"
    and s: "s = s1 \<or> (\<exists>n. job_bound job = Some n \<and> s = s1\<lparr>bounded := True, bound := n\<rparr>)"
    by (auto simp: sort_begin_def bindE_Inr_iff tuplesort_set_bound_def split: option.splits if_splits)
  have good: "\<And>oper f reverse. job_ops job oper = Some (f, reverse) \<Longrightarrow> btree_proc f" using ops(1) unfolding ops_good_def by blast
  have b: "loading_inv env (scanKeys s1) {#} s1 \<and> \<not> bounded s1 \<and> randomAccess s1 = job_random job"
    by (rule begin_loading [OF _ s1]) (erule good)
  have f: "memtupsize s1 = 1024 \<and> memtupcount s1 = 0 \<and> \<not> isParallelEnded s1"
    by (rule begin_heap_fresh [OF _ s1]) (erule good)
  show "loading_inv env (scanKeys s) {#} s"
    using b s ops(2) by (auto simp: bound_positive_def loading_inv_def array_ok_def heap_elems_def)
  show "memtupsize s = 1024" "memtupcount s = 0" "\<not> isParallelEnded s" using f s by auto
  show "bounded s \<Longrightarrow> job_bound job = Some (bound s)" using b s by auto
qed

section \<open>What a worker delivers\<close>

text \<open>How many of \<open>m\<close> tuples the sort has to return.\<close>

definition wanted :: "'d sort_job \<Rightarrow> nat \<Rightarrow> nat" where
  "wanted job m = (case job_bound job of None \<Rightarrow> m | Some n \<Rightarrow> min (nat n) m)"

lemma wanted_le: "wanted job m \<le> m"
  by (simp add: wanted_def split: option.splits)

lemma performsort_in_memory:
  assumes inv: "in_memory_inv env ks T s"
  shows "\<exists>s'. tuplesort_performsort env s = Some (Inr s') \<and> status s' = TSS_SORTEDINMEM \<and> current s' = 0 \<and>
    memtupcount s' \<le> length (memtuples s') \<and> sorted_wrt (\<lambda>a b. key_order env ks a b \<le> 0) (sorted_result s') \<and>
    smallest (key_order env ks) (mset (sorted_result s')) T \<and>
    (length (sorted_result s') = size T \<or> bounded s \<and> int (length (sorted_result s')) = bound s)"
proof (cases "loading_inv env ks T s")
  case True
  from performsort_loading [OF this] obtain s' where s': "tuplesort_performsort env s = Some (Inr s')"
    "status s' = TSS_SORTEDINMEM" "current s' = 0" "memtupcount s' \<le> length (memtuples s')"
    "sorted_wrt (\<lambda>a b. key_order env ks a b \<le> 0) (sorted_result s')" "mset (sorted_result s') = T" by blast
  have "length (sorted_result s') = size T" using arg_cong [OF s'(6), of size] by simp
  with s' show ?thesis by (intro exI [of _ s']) (simp add: smallest_all)
next
  case False
  with inv have h: "heaping_inv env ks T s" by (simp add: in_memory_inv_def)
  then have "bounded s" by (simp add: heaping_inv_def bounded_inv_def)
  with performsort_heaping [OF h] show ?thesis by blast
qed

lemma worker_sorts:
  assumes ops: "ops_good job" "bound_positive job" "job_forward job" and start: "sort_begin job (slave_env job) = Inr s0"
    and put: "foldE (tuplesort_puttupleslot (slave_env job)) us s0 = Inr s1" and fits: "status s1 \<noteq> TSS_BUILDRUNS"
  shows "\<exists>out. worker_data job s0 us out \<and> sorted_wrt (\<lambda>a b. key_order (job_env job) (scanKeys s0) a b \<le> 0) out \<and>
    smallest (key_order (job_env job) (scanKeys s0)) (mset out) (mset us) \<and> wanted job (length us) \<le> length out"
proof -
  note b = sort_begin_loading [OF ops(1,2) start]
  have inv: "in_memory_inv (slave_env job) (scanKeys s0) (mset us) s1" "same_options s0 s1"
    using put_all_in_memory [OF _ put fits, of "scanKeys s0" "{#}"] b(1) by (auto simp: in_memory_inv_def)
  from performsort_in_memory [OF inv(1)] obtain s2 where s2: "tuplesort_performsort (slave_env job) s1 = Some (Inr s2)"
    "status s2 = TSS_SORTEDINMEM" "current s2 = 0" "memtupcount s2 \<le> length (memtuples s2)"
    "sorted_wrt (\<lambda>a b. key_order (job_env job) (scanKeys s0) a b \<le> 0) (sorted_result s2)"
    "smallest (key_order (job_env job) (scanKeys s0)) (mset (sorted_result s2)) (mset us)"
    "length (sorted_result s2) = length us \<or> bounded s1 \<and> int (length (sorted_result s2)) = bound s1"
    by auto
  have "delivers (slave_env job) True (sorted_result s2) s2" by (rule delivers_result) (use s2 in auto)
  then have "worker_data job s0 us (sorted_result s2)"
    unfolding worker_data_def using start put s2(1) ops(3) by auto
  moreover have "wanted job (length us) \<le> length (sorted_result s2)"
    using s2(7) b(5) inv(2) by (auto simp: wanted_def same_options_def split: option.splits)
  ultimately show ?thesis using s2(5,6) by blast
qed

lemma job_ok_runs:
  assumes ok: "job_ok job ts" and st: "sort_begin job (slave_env job) = Inr s0"
  shows "\<exists>outs. job_runs job ts s0 (scanKeys s0) outs \<and>
    (\<forall>i<job_dop job. smallest (key_order (job_env job) (scanKeys s0)) (mset (outs i)) (mset (share (job_dop job) i ts)) \<and>
       wanted job (length (share (job_dop job) i ts)) \<le> length (outs i))"
proof -
  have "\<exists>out. worker_data job s0 (share (job_dop job) i ts) out \<and>
      sorted_wrt (\<lambda>a b. key_order (job_env job) (scanKeys s0) a b \<le> 0) out \<and>
      smallest (key_order (job_env job) (scanKeys s0)) (mset out) (mset (share (job_dop job) i ts)) \<and>
      wanted job (length (share (job_dop job) i ts)) \<le> length out" if i: "i < job_dop job" for i
  proof -
    obtain s1 where "foldE (tuplesort_puttupleslot (slave_env job)) (share (job_dop job) i ts) s0 = Inr s1" "status s1 \<noteq> TSS_BUILDRUNS"
      using ok i st
      by (cases "foldE (tuplesort_puttupleslot (slave_env job)) (share (job_dop job) i ts) s0")
        (auto simp: job_ok_def share_fits_def split: sum.splits)
    from worker_sorts [OF _ _ _ st this] ok show ?thesis by (simp add: job_ok_def)
  qed
  then obtain outs where "\<forall>i<job_dop job. worker_data job s0 (share (job_dop job) i ts) (outs i) \<and>
      sorted_wrt (\<lambda>a b. key_order (job_env job) (scanKeys s0) a b \<le> 0) (outs i) \<and>
      smallest (key_order (job_env job) (scanKeys s0)) (mset (outs i)) (mset (share (job_dop job) i ts)) \<and>
      wanted job (length (share (job_dop job) i ts)) \<le> length (outs i)"
    by metis
  with ok show ?thesis by (intro exI [of _ outs]) (auto simp: job_ok_def job_runs_def)
qed

section \<open>Runs\<close>

text \<open>Creating all queues: with three free semaphores for each there are enough.\<close>

fun queue_sems :: "BufferQueue option \<Rightarrow> nat list" where
  "queue_sems None = []"
| "queue_sems (Some q) = [spaces q, mutex q, items q]"

lemma create_queues_pool:
  "pool_ok m fs \<Longrightarrow> 3 * n \<le> length fs \<Longrightarrow> \<exists>qs m' fs'. create_queues n bs m = Some (Inr qs, m') \<and> length qs = n \<and>
     pool_ok m' fs' \<and> mset (fs' @ concat (map queue_sems (map Some qs))) = mset fs \<and> length (boxes m') = length (boxes m)"
proof (induction n arbitrary: m fs)
  case (Suc n)
  from Suc.prems(2) obtain sp it mu gs where fs: "fs = sp # it # mu # gs" by (auto simp: numeral_eq_Suc Suc_le_length_iff)
  define q where "q = \<lparr>head = None, tail = None, items = it, spaces = sp, mutex = mu, init_size = bs, bq_size = 0, stop = False\<rparr>"
  from createBufferQueue_ok [OF Suc.prems(1) [unfolded fs], of bs] obtain m1 where
    m1: "createBufferQueue bs m = Some (Inr q, m1)" "pool_ok m1 gs" "length (boxes m1) = length (boxes m)" by (auto simp: q_def)
  have "3 * n \<le> length gs" using Suc.prems(2) fs by simp
  from Suc.IH [OF m1(2) this] obtain qs m' fs' where "create_queues n bs m1 = Some (Inr qs, m')" "length qs = n"
    "pool_ok m' fs'" "mset (fs' @ concat (map queue_sems (map Some qs))) = mset gs" "length (boxes m') = length (boxes m1)" by blast
  with m1 show ?case
    by (intro exI [of _ "q # qs"] exI [of _ m'] exI [of _ fs']) (simp add: q_def fs)
qed auto

lemma createBufferQueue_unlocked:
  assumes "createBufferQueue bs m = Some (Inr q, m')"
  shows "\<not> PrlSemLock m'"
proof -
  have "PrlSemLock ((PGSemaphoreUnlock i ^^ n) m) = PrlSemLock m" for i n and m :: "'a shmem"
    by (induction n) (simp_all add: PGSemaphoreUnlock_def sem_simps)
  with assms show ?thesis
    by (auto simp: createBufferQueue_def PGSemaphoreLock_def unlock_pool_simp sem_simps Let_def split: sum.splits prod.splits if_splits)
qed

lemma create_queues_result:
  "create_queues n bs m = Some (Inr qs, m') \<Longrightarrow> length qs = n \<and> (\<not> PrlSemLock m \<or> 0 < n \<longrightarrow> \<not> PrlSemLock m')"
proof (induction n arbitrary: m qs)
  case (Suc n)
  then obtain q m1 qs1 where q: "createBufferQueue bs m = Some (Inr q, m1)" "create_queues n bs m1 = Some (Inr qs1, m')" "qs = q # qs1"
    by (auto split: option.splits sum.splits prod.splits)
  from Suc.IH [OF q(2)] createBufferQueue_unlocked [OF q(1)] q(3) show ?case by simp
qed auto

definition all_steps :: "'d sort_job \<Rightarrow> MinimalTuple list \<Rightarrow> (nat \<Rightarrow> MinimalTuple list) \<Rightarrow> nat" where
  "all_steps job ts outs = 15 + 5 * job_dop job + total_out job outs + length ts +
     (\<Sum>i<job_dop job. 2 * length (outs i) + length (share (job_dop job) i ts) + 10)"

lemma run_inv_start:
  assumes ok: "job_ok job ts" and start: "sort_begin job (job_env job) = Inr m0" and exec: "ExecSort_start job m ts = Some (Inr s)"
  shows "run_inv job ts s0 (scanKeys m0) outs s (all_steps job ts outs)"
proof -
  let ?m = "tuplesort_set_workersId (tuplesort_set_prl_level (tuplesort_set_parallel m0 True) (int (job_dop job))) (job_number job)"
  let ?r = "\<lambda>i. 2 * length (outs i) + length (share (job_dop job) i ts) + 10"
  obtain qs m' where new: "create_queues (job_dop job) (int (job_queue_size job)) m = Some (Inr qs, m')"
    and s: "s = \<lparr>master = MWaitInitial, msort = ?m, outer = ts, slots = [], workersList = [0..<job_dop job],
      prlJobsList = [0..<job_dop job], sems = m', queues = map Some qs,
      wtab = replicate (job_dop job) (new_worker job), channels = replicate (job_dop job) \<lparr>ch_cells = [], ch_stop = False\<rparr>,
      wprocs = replicate (job_dop job) WInit\<rparr>"
    using exec start by (auto simp: ExecSort_start_def Let_def split: option.splits sum.splits prod.splits)
  have "ops_good job" "bound_positive job" using ok by (auto simp: job_ok_def)
  note b = sort_begin_loading [OF this start]
  have "master_fresh job (scanKeys m0) ?m"
    using b by (auto simp: master_fresh_def loading_inv_def array_ok_def tuplesort_set_workersId_def
        tuplesort_set_prl_level_def tuplesort_set_parallel_def)
  moreover have "all_workers (starting job ts outs) (job_dop job) s ?r"
    by (simp add: all_workers_def starting_def s new_worker_def)
  ultimately have "phase job ts s0 (scanKeys m0) outs s ?r (master s)"
    by (simp add: s tuplesort_set_workersId_def)
  moreover have "system_ok job s" by (simp add: system_ok_def s)
  moreover have "shared_ok job s"
    using create_queues_result [OF new] ok by (auto simp: shared_ok_def s job_ok_def)
  moreover have "master_rank (job_dop job) (total_out job outs) (length ts) s (master s) = 15 + 5 * job_dop job + total_out job outs + length ts"
    by (simp add: s)
  ultimately show ?thesis unfolding run_inv_def all_steps_def by (intro conjI exI [of _ ?r]) simp_all
qed

lemma run_inv_run:
  assumes runs: "job_runs job ts s0 ks outs" and inv: "run_inv job ts s0 ks outs s k"
  shows "(sort_step job ^^ m) s s' \<Longrightarrow> \<exists>k'. k' + m \<le> k \<and> run_inv job ts s0 ks outs s' k'"
proof (induction m arbitrary: s')
  case 0
  with inv show ?case by auto
next
  case (Suc m)
  then obtain s1 where s1: "(sort_step job ^^ m) s s1" "sort_step job s1 s'" by auto
  from Suc.IH [OF s1(1)] obtain k1 where k1: "k1 + m \<le> k" "run_inv job ts s0 ks outs s1 k1" by blast
  from run_inv_step [OF runs k1(2) s1(2)] obtain k' where "k' < k1" "run_inv job ts s0 ks outs s' k'" by blast
  with k1(1) show ?case by (intro exI [of _ k']) auto
qed

lemma ExecSort_start_begin:
  "ExecSort_start job m ts = Some (Inr s) \<Longrightarrow> \<exists>m0. sort_begin job (job_env job) = Inr m0 \<and> scanKeys m0 = scanKeys (msort s)"
  by (auto simp: ExecSort_start_def tuplesort_set_workersId_def tuplesort_set_prl_level_def
      tuplesort_set_parallel_def Let_def split: sum.splits option.splits prod.splits)

text \<open>The number of steps: every worker delivers no more than its share.\<close>

lemma all_steps_bound:
  assumes ok: "job_ok job ts" and outs: "\<forall>i<job_dop job. length (outs i) \<le> length (share (job_dop job) i ts)"
  shows "all_steps job ts outs \<le> 15 + 15 * job_dop job + 5 * length ts"
proof -
  have "size (\<Sum>i<job_dop job. mset (share (job_dop job) i ts)) = length ts"
    using ok by (subst mset_shares) (simp_all add: job_ok_def)
  then have sh: "(\<Sum>i<job_dop job. length (share (job_dop job) i ts)) = length ts" by (simp add: size_multiset_sum)
  have le: "total_out job outs \<le> length ts" unfolding total_out_def sh [symmetric] using outs by (intro sum_mono) simp
  have "(\<Sum>i<job_dop job. 2 * length (outs i) + length (share (job_dop job) i ts) + 10) =
      2 * total_out job outs + length ts + 10 * job_dop job"
    by (simp add: sum.distrib sum_distrib_left [symmetric] total_out_def sh)
  with le show ?thesis by (simp add: all_steps_def)
qed

text \<open>Every state of a run, with what the workers deliver and how many steps are left.\<close>

lemma steps_reach_inv:
  assumes ok: "job_ok job ts" and exec: "ExecSort_start job m ts = Some (Inr s)" and run: "(sort_step job ^^ n) s s'"
  shows "\<exists>s0 outs k. scanKeys s0 = scanKeys (msort s) \<and> job_runs job ts s0 (scanKeys s0) outs \<and>
    (\<forall>i<job_dop job. smallest (key_order (job_env job) (scanKeys s0)) (mset (outs i)) (mset (share (job_dop job) i ts)) \<and>
       wanted job (length (share (job_dop job) i ts)) \<le> length (outs i)) \<and>
    run_inv job ts s0 (scanKeys s0) outs s' k \<and> k + n \<le> 15 + 15 * job_dop job + 5 * length ts"
proof -
  from ExecSort_start_begin [OF exec] obtain m0 where m0: "sort_begin job (job_env job) = Inr m0" "scanKeys m0 = scanKeys (msort s)"
    by blast
  have "0 < job_dop job" "share_fits job ts" using ok by (auto simp: job_ok_def)
  then obtain s0 where s0: "sort_begin job (slave_env job) = Inr s0"
    by (cases "sort_begin job (slave_env job)") (auto simp: share_fits_def)
  have keys: "scanKeys s0 = scanKeys m0" by (rule sort_begin_keys [OF s0 m0(1)])
  from job_ok_runs [OF ok s0] obtain outs where runs: "job_runs job ts s0 (scanKeys s0) outs"
    and outs: "\<forall>i<job_dop job. smallest (key_order (job_env job) (scanKeys s0)) (mset (outs i)) (mset (share (job_dop job) i ts)) \<and>
       wanted job (length (share (job_dop job) i ts)) \<le> length (outs i)" by blast
  have k: "run_inv job ts s0 (scanKeys s0) outs s (all_steps job ts outs)"
    unfolding keys by (rule run_inv_start [OF ok m0(1) exec])
  from run_inv_run [OF runs k run] obtain k' where k': "k' + n \<le> all_steps job ts outs" "run_inv job ts s0 (scanKeys s0) outs s' k'" by blast
  have "length (outs i) \<le> length (share (job_dop job) i ts)" if i: "i < job_dop job" for i
  proof -
    from outs i obtain R where "mset (share (job_dop job) i ts) = mset (outs i) + R" unfolding smallest_def by blast
    from arg_cong [OF this, of size] show ?thesis by simp
  qed
  with all_steps_bound [OF ok, of outs] k'(1) have "k' + n \<le> 15 + 15 * job_dop job + 5 * length ts" by force
  with m0(2) keys runs outs k'(2) show ?thesis by (intro exI [of _ s0] exI [of _ outs] exI [of _ k']) simp
qed

lemma run_reaches_inv:
  assumes ok: "job_ok job ts" and exec: "ExecSort_start job m ts = Some (Inr s)" and run: "(sort_step job)\<^sup>*\<^sup>* s s'"
  shows "\<exists>s0 outs k. scanKeys s0 = scanKeys (msort s) \<and> job_runs job ts s0 (scanKeys s0) outs \<and>
    (\<forall>i<job_dop job. smallest (key_order (job_env job) (scanKeys s0)) (mset (outs i)) (mset (share (job_dop job) i ts)) \<and>
       wanted job (length (share (job_dop job) i ts)) \<le> length (outs i)) \<and>
    run_inv job ts s0 (scanKeys s0) outs s' k"
proof -
  from run obtain n where "(sort_step job ^^ n) s s'" by (auto dest: rtranclp_imp_relpowp)
  from steps_reach_inv [OF ok exec this] show ?thesis by blast
qed

section \<open>Merged prefixes\<close>

lemma mset_split: "mset xs = mset (take m xs) + mset (drop m xs)"
  by (metis append_take_drop_id mset_append)

context sort_comparator
begin

lemma merge_inv_streams:
  assumes "merge_inv cmp src out H S" and "x \<in> set out" and "y \<in> set (S i)"
  shows "cmp x y \<le> 0"
proof -
  from assms(3) obtain z zs where z: "S i = z # zs" by (cases "S i") auto
  from assms(1) have "S i \<noteq> [] \<longrightarrow> (\<exists>h\<in>#H. src h = i \<and> cmp h (hd (S i)) \<le> 0)" unfolding merge_inv_def by blast
  with z obtain h where h: "h \<in># H" "cmp h z \<le> 0" by auto
  have "sorted_cmp (S i)" using assms(1) by (simp add: merge_inv_def)
  with assms(3) z have "cmp z y \<le> 0" by auto
  moreover have "cmp x h \<le> 0" using assms(1,2) h(1) by (simp add: merge_inv_def)
  ultimately show ?thesis using h(2) cmp_trans by blast
qed

text \<open>
  The union of the \<open>k\<close> least elements of each part holds the \<open>k\<close> least elements of the
  whole.
\<close>

lemma part_reaches:
  assumes "mset ys \<subseteq># mset xs" and "j < length ys"
  shows "\<exists>y\<in>set ys. y \<in> set (drop j xs)"
proof (rule ccontr)
  assume none: "\<not> ?thesis"
  have "mset ys \<subseteq># mset (take j xs) + mset (drop j xs)" using assms(1) mset_split [of xs j] by simp
  then have "mset ys \<subseteq># mset (take j xs)"
    using none by (simp add: subseteq_mset_def) (metis add.right_neutral count_mset_0_iff in_set_conv_nth not_gr_zero zero_le)
  then have "length ys \<le> length (take j xs)" using size_mset_mono by fastforce
  with assms(2) show False by simp
qed

lemma merged_smallest:
  fixes n :: nat
  assumes sorted: "sorted_cmp xs" and xs: "mset xs = (\<Sum>i<n. mset (outs i))"
    and parts: "\<And>i. i < n \<Longrightarrow> smallest cmp (mset (outs i)) (T i)" "\<And>i. i < n \<Longrightarrow> min k (size (T i)) \<le> length (outs i)"
    and m: "m \<le> k"
  shows "smallest cmp (mset (take m xs)) (\<Sum>i<n. T i)"
proof -
  obtain R where R: "\<And>i. i < n \<Longrightarrow> T i = mset (outs i) + R i" "\<And>i a r. i < n \<Longrightarrow> a \<in> set (outs i) \<Longrightarrow> r \<in># R i \<Longrightarrow> cmp a r \<le> 0"
    using parts(1) unfolding smallest_def by (metis set_mset_mset)
  have "(\<Sum>i<n. T i) = (\<Sum>i<n. mset (outs i)) + (\<Sum>i<n. R i)" using R(1) by (simp add: sum.distrib)
  then have T: "(\<Sum>i<n. T i) = mset (take m xs) + (mset (drop m xs) + (\<Sum>i<n. R i))"
    using xs mset_split [of xs m] by (simp add: add.assoc)
  have "cmp a r \<le> 0" if a: "a \<in> set (take m xs)" and r: "r \<in># R i" and i: "i < n" for a r i
  proof -
    from a obtain j where j: "j < m" "j < length xs" "a = xs ! j" by (auto simp: in_set_conv_nth)
    have "length (outs i) < size (T i)" using R(1) [OF i] r by (auto simp: nonempty_has_size [symmetric])
    then have "j < length (outs i)" using parts(2) [OF i] j(1) m by simp
    moreover have "mset (outs i) \<subseteq># mset xs"
      using i sum.remove [of "{..<n}" i "\<lambda>i. mset (outs i)"] by (simp add: xs)
    ultimately obtain y where y: "y \<in> set (outs i)" "y \<in> set (drop j xs)" using part_reaches by blast
    have "sorted_cmp (drop j xs)" by (rule sorted_wrt_drop [OF sorted])
    then have "sorted_cmp (a # drop (Suc j) xs)" using j(2,3) by (simp add: Cons_nth_drop_Suc)
    with y(2) j have "cmp a y \<le> 0" by (auto simp: Cons_nth_drop_Suc [symmetric])
    with R(2) [OF i y(1) r] cmp_trans show ?thesis by blast
  qed
  moreover have "cmp a b \<le> 0" if "a \<in> set (take m xs)" "b \<in> set (drop m xs)" for a b
  proof -
    have "sorted_cmp (take m xs @ drop m xs)" using sorted by simp
    with that show ?thesis by (simp only: sorted_wrt_append)
  qed
  ultimately show ?thesis unfolding smallest_def T
    by (intro exI [of _ "mset (drop m xs) + (\<Sum>i<n. R i)"]) (auto simp: set_mset_sum)
qed

text \<open>Two sorted arrangements of the same elements agree up to ties.\<close>

lemma sorted_rank:
  assumes "sorted_cmp xs" and "i < length xs"
  shows "Suc i \<le> size (filter_mset (\<lambda>e. cmp e (xs ! i) \<le> 0) (mset xs))"
    and "cmp y (xs ! i) < 0 \<Longrightarrow> size (filter_mset (\<lambda>e. cmp e y \<le> 0) (mset xs)) \<le> i"
proof -
  have split: "mset xs = mset (take k xs) + mset (drop k xs)" for k by (rule mset_split)
  have "cmp e (xs ! i) \<le> 0" if "e \<in> set (take (Suc i) xs)" for e
  proof -
    from that obtain j where "j \<le> i" "e = xs ! j" using assms(2) by (auto simp: in_set_conv_nth less_Suc_eq_le)
    with assms show ?thesis by (cases "j = i") (auto simp: sorted_wrt_iff_nth_less)
  qed
  then have "filter_mset (\<lambda>e. cmp e (xs ! i) \<le> 0) (mset (take (Suc i) xs)) = mset (take (Suc i) xs)"
    by (auto simp: filter_mset_eq_conv)
  then show "Suc i \<le> size (filter_mset (\<lambda>e. cmp e (xs ! i) \<le> 0) (mset xs))"
    using assms(2) by (subst split [of "Suc i"]) simp
  assume y: "cmp y (xs ! i) < 0"
  have "\<not> cmp e y \<le> 0" if "e \<in> set (drop i xs)" for e
  proof -
    from that obtain k where "k < length xs - i" "e = drop i xs ! k" by (auto simp: in_set_conv_nth)
    then obtain j where "i \<le> j" "j < length xs" "e = xs ! j" using that [of "i + k"] by simp
    then have "cmp (xs ! i) e \<le> 0" using assms(1) by (cases "j = i") (auto simp: sorted_wrt_iff_nth_less)
    then show ?thesis using y cmp_less_le_trans [of y "xs ! i" e] cmp_flip [of e y] by linarith
  qed
  then have none: "filter_mset (\<lambda>e. cmp e y \<le> 0) (mset (drop i xs)) = {#}" by (auto simp: filter_mset_eq_conv)
  have "size (filter_mset (\<lambda>e. cmp e y \<le> 0) (mset xs)) = size (filter_mset (\<lambda>e. cmp e y \<le> 0) (mset (take i xs)))"
    by (subst split [of i]) (simp only: filter_union_mset none add_0_right)
  also have "\<dots> \<le> size (mset (take i xs))" by (rule size_filter_mset_lesseq)
  finally show "size (filter_mset (\<lambda>e. cmp e y \<le> 0) (mset xs)) \<le> i" by simp
qed

lemma sorted_ties:
  assumes "sorted_cmp xs" and "sorted_cmp ys" and "mset xs = mset ys"
  shows "list_all2 (\<lambda>a b. cmp a b = 0) xs ys"
proof (rule list_all2_all_nthI)
  show len: "length xs = length ys" using assms(3) by (metis size_mset)
  fix i assume i: "i < length xs"
  have "\<not> cmp (xs ! i) (ys ! i) < 0"
    using sorted_rank(1) [OF assms(1) i] sorted_rank(2) [OF assms(2), of i "xs ! i"] i len assms(3) by auto
  moreover have "\<not> cmp (ys ! i) (xs ! i) < 0"
    using sorted_rank(1) [OF assms(2), of i] sorted_rank(2) [OF assms(1) i, of "ys ! i"] i len assms(3) by auto
  ultimately show "cmp (xs ! i) (ys ! i) = 0" using cmp_flip [of "xs ! i" "ys ! i"] by linarith
qed

end

lemma sum_subseteq_mset:
  fixes n :: nat
  shows "(\<And>i. i < n \<Longrightarrow> A i \<subseteq># B i) \<Longrightarrow> (\<Sum>i<n. A i) \<subseteq># (\<Sum>i<n. B i)"
  by (induction n) (auto intro: subset_mset.add_mono)

lemma merged_enough:
  fixes n :: nat
  assumes xs: "mset xs = (\<Sum>i<n. mset (outs i))"
    and parts: "\<And>i. i < n \<Longrightarrow> mset (outs i) \<subseteq># T i" "\<And>i. i < n \<Longrightarrow> min k (size (T i)) \<le> length (outs i)"
  shows "min k (size (\<Sum>i<n. T i)) \<le> length xs"
proof -
  have len: "length xs = (\<Sum>i<n. length (outs i))" using arg_cong [OF xs, of size] by (simp add: size_multiset_sum)
  show ?thesis
  proof (cases "\<exists>i<n. k \<le> length (outs i)")
    case True
    then obtain i where "i < n" "k \<le> length (outs i)" by blast
    moreover have "length (outs i) \<le> length xs" unfolding len by (rule member_le_sum) (use \<open>i < n\<close> in auto)
    ultimately show ?thesis by simp
  next
    case False
    then have "size (T i) \<le> length (outs i)" if "i < n" for i using parts(2) [OF that] that by (auto simp: min_def split: if_splits)
    then have "(\<Sum>i<n. size (T i)) \<le> length xs" unfolding len by (intro sum_mono) simp
    then show ?thesis by (simp add: size_multiset_sum)
  qed
qed

section \<open>Results\<close>

lemma merging_order:
  assumes mg: "merging env ks n outs n R s out S"
  shows "sorted_wrt (\<lambda>a b. key_order env ks a b \<le> 0) (map tuple out)"
    and "smallest (key_order env ks) (mset (map tuple out)) (\<Sum>i<n. mset (outs i))"
proof -
  note i = mg [unfolded merging_def]
  let ?cmp = "tuplecmp (heap_getattr_in env) ks"
  have mi: "merge_inv ?cmp source out (heap_elems s) S" and ok: "\<And>h. h \<in># heap_elems s + mset out \<Longrightarrow> datum1_ok env ks h"
    using i by auto
  have same: "?cmp a b = key_order env ks (tuple a) (tuple b)" if "datum1_ok env ks a" "datum1_ok env ks b" for a b
    using that merging_keys [OF mg] by (simp add: tuplecmp_key_order)
  have "sorted_wrt (\<lambda>a b. ?cmp a b \<le> 0) out" using mi by (simp add: merge_inv_def)
  then have "sorted_wrt (\<lambda>a b. key_order env ks (tuple a) (tuple b) \<le> 0) out"
    by (rule sorted_wrt_mono_rel [rotated]) (simp add: same ok)
  then show "sorted_wrt (\<lambda>a b. key_order env ks a b \<le> 0) (map tuple out)" by (simp add: sorted_wrt_map)
  let ?R = "heap_elems s + (\<Sum>i<n. mset (S i))"
  have "key_order env ks (tuple x) (tuple y) \<le> 0" if x: "x \<in> set out" and y: "y \<in># ?R" for x y
  proof (cases "y \<in># heap_elems s")
    case True
    with mi x have "?cmp x y \<le> 0" unfolding merge_inv_def by blast
    with same [of x y] ok x True show ?thesis by simp
  next
    case False
    with y obtain j where j: "j < n" "y \<in> set (S j)" by (auto simp: set_mset_sum)
    have "stream_ok env ks s R S j" using i j(1) by simp
    with j(2) have "datum1_ok env ks y" by (auto simp: stream_ok_def split: if_splits)
    with sort_comparator.merge_inv_streams [OF merging_cmp [OF mg] mi x j(2)] same ok x show ?thesis by simp
  qed
  moreover have "(\<Sum>i<n. mset (outs i)) = mset (map tuple out) + image_mset tuple ?R" using i by (simp add: add.assoc)
  ultimately show "smallest (key_order env ks) (mset (map tuple out)) (\<Sum>i<n. mset (outs i))"
    unfolding smallest_def by (intro exI [of _ "image_mset tuple ?R"]) auto
qed

lemma merging_done:
  assumes "merging env ks n outs n R s out S" and "memtupcount s = 0"
  shows "mset (map tuple out) = (\<Sum>i<n. mset (outs i))"
proof -
  have h: "heap_elems s = {#}" using assms(2) by (simp add: heap_elems_def)
  with assms(1) have "S i = []" for i using merge_inv_empty [of _ source out S i] by (auto simp: merging_def)
  with assms(1) h show ?thesis by (simp add: merging_def)
qed

text \<open>A run that has returned everything.\<close>

lemma done_result:
  assumes ok: "job_ok job ts" and exec: "ExecSort_start job m ts = Some (Inr s)" and run: "(sort_step job)\<^sup>*\<^sup>* s s'"
    and m: "master s' = MDone"
  shows "sorted_wrt (\<lambda>a b. key_order (job_env job) (scanKeys (msort s)) a b \<le> 0) (slots s') \<and>
    wanted job (length ts) \<le> length (slots s') \<and> mset (slots s') \<subseteq># mset ts \<and>
    smallest (key_order (job_env job) (scanKeys (msort s))) (mset (take (wanted job (length ts)) (slots s'))) (mset ts)"
proof -
  from run_reaches_inv [OF ok exec run] obtain s0 outs k where keys: "scanKeys s0 = scanKeys (msort s)"
    and outs: "\<And>i. i < job_dop job \<Longrightarrow> smallest (key_order (job_env job) (scanKeys s0)) (mset (outs i)) (mset (share (job_dop job) i ts))"
      "\<And>i. i < job_dop job \<Longrightarrow> wanted job (length (share (job_dop job) i ts)) \<le> length (outs i)"
    and inv: "run_inv job ts s0 (scanKeys s0) outs s' k" by blast
  from inv m obtain R out S where sl: "slots s' = map tuple out"
    and mg: "merging (job_env job) (scanKeys s0) (job_dop job) outs (job_dop job) R (msort s') out S" "memtupcount (msort s') = 0"
    by (auto simp: run_inv_def merge_stage_def)
  have sum: "(\<Sum>i<job_dop job. mset (share (job_dop job) i ts)) = mset ts" using ok by (intro mset_shares) (simp add: job_ok_def)
  have cmp: "sort_comparator (key_order (job_env job) (scanKeys s0))"
    using merging_keys [OF mg(1)] by (simp add: keyscmp_comparator)
  have few: "min (wanted job (length ts)) (size (mset (share (job_dop job) i ts))) \<le> length (outs i)" if "i < job_dop job" for i
    using outs(2) [OF that] by (auto simp: wanted_def split: option.splits)
  note xs = merging_done [OF mg]
  have sub: "mset (outs i) \<subseteq># mset (share (job_dop job) i ts)" if "i < job_dop job" for i
    using outs(1) [OF that] by (auto simp: smallest_def)
  have "min (wanted job (length ts)) (size (\<Sum>i<job_dop job. mset (share (job_dop job) i ts))) \<le> length (map tuple out)"
    by (rule merged_enough [OF xs]) (use few sub in auto)
  then have "wanted job (length ts) \<le> length (slots s')" using wanted_le [of job "length ts"] by (simp add: sum sl)
  moreover have "smallest (key_order (job_env job) (scanKeys s0)) (mset (take (wanted job (length ts)) (slots s')))
      (\<Sum>i<job_dop job. mset (share (job_dop job) i ts))"
    unfolding sl by (rule sort_comparator.merged_smallest [OF cmp merging_order(1) [OF mg(1)] xs]) (use few outs(1) in auto)
  moreover have "mset (slots s') \<subseteq># mset ts" unfolding sl xs sum [symmetric] by (rule sum_subseteq_mset [OF sub])
  ultimately show ?thesis using merging_order(1) [OF mg(1)] by (simp add: keys sum sl)
qed

section \<open>An example\<close>

definition demo_job :: "int option \<Rightarrow> byte sort_job" where
  "demo_job lim = \<lparr>job_env = demo_env, job_ops = demo_ops, job_keys = [(1, 58, False)], job_work_mem = 64, job_slave_mem = 32, job_random = False,
     job_bound = lim, job_forward = True, job_queue_size = 1, job_dop = 2, job_number = 7\<rparr>"

lemma demo_shares:
  "share 2 0 [[3], [], [1, 7], [3 :: byte]] = [[3], [1, 7]]" "share 2 (Suc 0) [[3], [], [1, 7], [3 :: byte]] = [[], [3]]"
  by (simp_all add: share_def upt_rec [of _ "Suc _"])

lemma demo_job_ok: "job_ok (demo_job None) [[3], [], [1, 7], [3]]" "job_ok (demo_job (Some 1)) [[3], [], [1, 7], [3]]"
  by (auto simp: job_ok_def ops_good_def bound_positive_def share_fits_def demo_job_def demo_ops_good less_2_cases_iff
      demo_shares sort_begin_def slave_env_def demo_run)

section \<open>Runs to the end\<close>

fun working :: "master_pc \<Rightarrow> bool" where
  "working (EStop k) = False"
| "working (EClear k) = False"
| "working EWaitEnd = False"
| "working (EEnd k) = False"
| "working EWaitDead = False"
| "working (ERelease k) = False"
| "working EOver = False"
| "working (EError e) = False"
| "working _ = True"

lemma working_step: "master_step job s = Some s' \<Longrightarrow> working (master s) \<Longrightarrow> working (master s')"
  by (cases "master s")
    (auto simp: master_step_def master_result_def add_to_def get_from_def split: if_splits option.splits sum.splits list.splits prod.splits)

lemma run_to_done:
  assumes runs: "job_runs job ts s0 ks outs"
  shows "run_inv job ts s0 ks outs s k \<Longrightarrow> working (master s) \<Longrightarrow> \<exists>s'. (sort_step job)\<^sup>*\<^sup>* s s' \<and> master s' = MDone"
proof (induction k arbitrary: s rule: less_induct)
  case (less k)
  show ?case
  proof (cases "master s = MDone")
    case False
    with less.prems have "\<And>e. master s \<noteq> EError e" by auto
    from progress [OF runs less.prems(1) False this] obtain s1 where step: "sort_step job s s1" and w: "working (master s1)"
      using working_step [of job s] less.prems(2) worker_step_frame [of job]
      unfolding can_go_def by (metis not_None_eq sort_step.intros(1,2))
    from run_inv_step [OF runs less.prems(1) step] obtain k' where "k' < k" "run_inv job ts s0 ks outs s1 k'" by blast
    from less.IH [OF this w] step show ?thesis by (meson converse_rtranclp_into_rtranclp)
  qed auto
qed

lemma stuck_error:
  assumes runs: "job_runs job ts s0 ks outs" and inv: "run_inv job ts s0 ks outs s k" and stuck: "\<And>s'. \<not> sort_step job s s'"
  shows "\<exists>e. master s = EError e"
proof (rule ccontr)
  assume no: "\<nexists>e. master s = EError e"
  show False
  proof (cases "master s = MDone")
    case True
    with stuck step_end show False by blast
  next
    case False
    from progress [OF runs inv False] no stuck show False unfolding can_go_def by (metis not_None_eq sort_step.intros(1,2))
  qed
qed

text \<open>Where a run stops.\<close>

lemma error_state:
  assumes inv: "run_inv job ts s0 ks outs s k" and e: "master s = EError e"
  shows "e = wild \<and> workersList s = [0..<job_dop job] \<and> prlJobsList s = [0..<job_dop job] \<and> queues s = replicate (job_dop job) None \<and>
    (\<forall>w\<in>set (wtab s). worker_state w = PRL_WORKER_STATE_DEAD)"
proof -
  from inv e have "system_ok job s" "e = wild" "\<forall>i<job_dop job. worker_state (wtab s ! i) = PRL_WORKER_STATE_DEAD"
    and sh: "shared_ok job s" by (auto simp: run_inv_def)
  moreover from sh e have "queues s = replicate (job_dop job) None"
    by (auto simp: shared_ok_def intro!: nth_equalityI)
  ultimately show ?thesis by (auto simp: shared_ok_def system_ok_def in_set_conv_nth)
qed

lemma start_succeeds:
  assumes "sort_begin job (job_env job) = Inr m0" and "pool_ok m fs" and "3 * job_dop job \<le> length fs"
  shows "\<exists>s fs'. ExecSort_start job m ts = Some (Inr s) \<and> pool_ok (sems s) fs' \<and>
    mset (fs' @ concat (map queue_sems (queues s))) = mset fs \<and> length (boxes (sems s)) = length (boxes m)"
  using create_queues_pool [OF assms(2,3), of "int (job_queue_size job)"] assms(1)
  by (auto simp: ExecSort_start_def Let_def)

lemma demo_begin: "\<exists>m0. sort_begin (demo_job None) (job_env (demo_job None)) = Inr m0"
  "\<exists>m0. sort_begin (demo_job (Some 1)) (job_env (demo_job (Some 1))) = Inr m0"
  by (simp_all add: demo_job_def sort_begin_def demo_run)

lemma demo_start: "\<exists>s. ExecSort_start (demo_job None) InitPrlSemas [[3], [], [1, 7], [3]] = Some (Inr s)"
  "\<exists>s. ExecSort_start (demo_job (Some 1)) InitPrlSemas [[3], [], [1, 7], [3]] = Some (Inr s)"
proof -
  have "3 * job_dop (demo_job lim) \<le> length (rev [0..<MaxPrlSems])" for lim by (simp add: demo_job_def MaxPrlSems_def)
  then show "\<exists>s. ExecSort_start (demo_job None) InitPrlSemas [[3], [], [1, 7], [3]] = Some (Inr s)"
    "\<exists>s. ExecSort_start (demo_job (Some 1)) InitPrlSemas [[3], [], [1, 7], [3]] = Some (Inr s)"
    using start_succeeds [OF _ InitPrlSemas_pool] demo_begin by blast+
qed

lemma ExecSort_start_master: "ExecSort_start job m ts = Some (Inr s) \<Longrightarrow> master s = MWaitInitial"
  by (auto simp: ExecSort_start_def Let_def split: sum.splits option.splits prod.splits)

lemma ok_run_to_done:
  assumes "job_ok job ts" and "ExecSort_start job m ts = Some (Inr s)"
  shows "\<exists>s'. (sort_step job)\<^sup>*\<^sup>* s s' \<and> master s' = MDone"
proof -
  from run_reaches_inv [OF assms rtranclp.rtrancl_refl] obtain s0 outs k where
    "job_runs job ts s0 (scanKeys s0) outs" "run_inv job ts s0 (scanKeys s0) outs s k" by blast
  then show ?thesis by (rule run_to_done) (use ExecSort_start_master [OF assms(2)] in simp)
qed

lemma run_through_fetch:
  "(sort_step job)\<^sup>*\<^sup>* s s' \<Longrightarrow> master s \<noteq> MDone \<Longrightarrow> master s' = MDone \<Longrightarrow> \<exists>s1. (sort_step job)\<^sup>*\<^sup>* s s1 \<and> master s1 = MFetch"
proof (induction rule: rtranclp_induct)
  case (step a b)
  show ?case
  proof (cases "master a = MDone")
    case False
    from step.hyps(2) False step.prems(2) have "master a = MFetch"
    proof cases
      case step_master
      with False step.prems(2) show ?thesis
        by (cases "master a")
          (auto simp: master_step_def master_result_def add_to_def release_worker_def Let_def split: if_splits option.splits sum.splits list.splits prod.splits)
    next
      case (step_worker i pid)
      with False step.prems(2) show ?thesis using worker_step_frame by metis
    qed auto
    with step.hyps(1) show ?thesis by blast
  qed (use step in blast)
qed auto

lemma stage_no_error [simp]:
  "\<not> starting job ts outs i w q (WError e) r" "\<not> loading job s0 ts outs given i w q (WError e) r"
  "\<not> returning job R i w q (WError e) r" "\<not> stopping job k i w q (WError e) r" "\<not> clearing job k i w q (WError e) r"
  "\<not> shutting job k i w q (WError e) r" "\<not> dying job i w q (WError e) r"
  by (simp_all add: starting_def loading_def returning_def stopping_def clearing_def shutting_def dying_def)

lemma phase_no_error:
  assumes "phase job ts s0 ks outs s r pc" and "i < job_dop job"
  shows "wprocs s ! i \<noteq> WError e"
proof
  assume e: "wprocs s ! i = WError e"
  show False
    using assms by (cases pc) (auto simp: all_workers_def merge_stage_def e dest!: spec [of _ i])
qed

text \<open>A queue is freed when its worker does not use it any more.\<close>

lemma freed_worker:
  assumes ph: "phase job ts s0 ks outs s r (master s)" and sh: "shared_ok job s" and i: "i < job_dop job" "queues s ! i = None"
  shows "wprocs s ! i \<in> {WWait, WDead, WExit}"
proof -
  have fr: "i < freed_queues (job_dop job) (master s)" using sh i by (auto simp: shared_ok_def)
  have "dying job i (wtab s ! i) (channels s ! i) (wprocs s ! i) (r i)"
    using ph fr i(1) by (cases "master s") (auto simp: all_workers_def shutting_def split: if_splits)
  then show ?thesis by (cases "wprocs s ! i") (auto simp: dying_def)
qed

lemma smallest_whole: "smallest cmp (mset xs) (mset ys) \<Longrightarrow> length ys \<le> length xs \<Longrightarrow> mset xs = mset ys"
proof -
  assume a: "smallest cmp (mset xs) (mset ys)" "length ys \<le> length xs"
  then obtain R where R: "mset ys = mset xs + R" by (auto simp: smallest_def)
  have "size R = 0" using arg_cong [OF R, of size] a(2) by simp
  with R show ?thesis by simp
qed

lemma done_whole:
  assumes "job_ok job ts" and "job_bound job = None" and "ExecSort_start job m ts = Some (Inr s)"
    and "(sort_step job)\<^sup>*\<^sup>* s s'" and "master s' = MDone"
  shows "mset (slots s') = mset ts \<and>
    sorted_wrt (\<lambda>a b. key_order (job_env job) (scanKeys (msort s)) a b \<le> 0) (slots s')"
proof -
  note r = done_result [OF assms(1,3,4,5)]
  then have "length ts \<le> length (slots s')" using assms(2) by (simp add: wanted_def)
  with r have "mset (slots s') = mset ts"
    by (metis size_mset mset_subset_size not_le subset_mset.order_iff_strict)
  with r show ?thesis by simp
qed

section \<open>Sorting without workers\<close>

definition local_fits :: "'d sort_job \<Rightarrow> MinimalTuple list \<Rightarrow> bool" where
  "local_fits job ts \<longleftrightarrow> (case bindE (sort_begin job (job_env job)) (\<lambda>state.
       foldE (tuplesort_puttupleslot (job_env job)) ts (tuplesort_set_parallel state False)) of
         Inl _ \<Rightarrow> False | Inr s \<Rightarrow> status s \<noteq> TSS_BUILDRUNS)"

lemma local_sorts:
  assumes ok: "job_ok job ts" "job_bound job = None" and start: "sort_begin job (job_env job) = Inr m0"
    and fits: "local_fits job ts"
  shows "\<exists>l l' out. ExecSort_local job ts = Some (Inr l) \<and> read_tuples (job_env job) True (length ts + 1) l = Inr (out, l') \<and>
    mset out = mset ts \<and> sorted_wrt (\<lambda>a b. key_order (job_env job) (scanKeys m0) a b \<le> 0) out \<and> good_keys (scanKeys m0)"
proof -
  let ?m = "tuplesort_set_parallel m0 False" and ?ks = "scanKeys m0"
  have "ops_good job" "bound_positive job" using ok by (auto simp: job_ok_def)
  note b = sort_begin_loading [OF this start]
  have m: "loading_inv (job_env job) ?ks {#} ?m" "\<not> bounded ?m"
    using b(1,5) ok(2) by (auto simp: tuplesort_set_parallel_def loading_inv_def array_ok_def heap_elems_def)
  obtain s1 where s1: "foldE (tuplesort_puttupleslot (job_env job)) ts ?m = Inr s1" "status s1 \<noteq> TSS_BUILDRUNS"
    using fits start
    by (cases "foldE (tuplesort_puttupleslot (job_env job)) ts ?m") (auto simp: local_fits_def)
  have inv: "in_memory_inv (job_env job) ?ks (mset ts) s1" "\<not> bounded s1"
    using put_all_in_memory [OF _ s1, of ?ks "{#}"] m by (auto simp: in_memory_inv_def same_options_def)
  from inv have lo: "loading_inv (job_env job) ?ks (mset ts) s1" by (auto simp: in_memory_inv_def heaping_inv_def)
  from performsort_loading [OF lo] obtain l where l: "tuplesort_performsort (job_env job) s1 = Some (Inr l)"
    "status l = TSS_SORTEDINMEM" "current l = 0" "bounded l = bounded s1" "memtupcount l \<le> length (memtuples l)"
    "sorted_wrt (\<lambda>a b. key_order (job_env job) ?ks a b \<le> 0) (sorted_result l)" "mset (sorted_result l) = mset ts"
    by blast
  have "memtupcount l = length ts" using arg_cong [OF l(7), of size] l(5) by (simp add: sorted_result_def)
  then have "read_tuples (job_env job) True (length ts + 1) l =
      Inr (sorted_result l, l\<lparr>current := int (memtupcount l), eof_reached := True\<rparr>)"
    using read_all [OF l(2,5,3), of "job_env job"] l(4) inv(2) by simp
  moreover have "ExecSort_local job ts = Some (Inr l)" using start s1(1) l(1) by (simp add: ExecSort_local_def)
  moreover have "good_keys ?ks" using in_memory_keys [OF inv(1)] by blast
  ultimately show ?thesis using l(6,7) by blast
qed

lemma demo_local_fits: "local_fits (demo_job None) [[3], [], [1, 7], [3]]"
  by (simp add: local_fits_def demo_job_def sort_begin_def demo_run tuplesort_set_parallel_def)

section \<open>Jobs within their limits\<close>

text \<open>
  What a job needs, as numbers: workers and queues as \<open>job_ok\<close> asks for them, and for every
  worker that its work memory holds its share.
\<close>

definition job_limits :: "'d sort_job \<Rightarrow> nat \<Rightarrow> MinimalTuple list \<Rightarrow> bool" where
  "job_limits job j ts \<longleftrightarrow> ops_good job \<and> bound_positive job \<and> job_forward job \<and> 1 \<le> job_dop job \<and> job_dop job \<le> 1024 \<and>
     1 \<le> job_queue_size job \<and> (\<forall>i<job_dop job. memory_holds (slave_env job) (job_slave_mem job * 1024) j (share (job_dop job) i ts))"

lemma slave_begins:
  assumes bg: "sort_begin job (job_env job) = Inr m0" and ops: "ops_good job"
    and mem: "array_space (slave_env job) 1024 \<le> job_slave_mem job * 1024"
  shows "\<exists>s0. sort_begin job (slave_env job) = Inr s0 \<and> charged (slave_env job) (job_slave_mem job * 1024) j [] s0"
proof -
  from bg obtain m1 where "tuplesort_begin_heap (job_env job) (job_ops job) (job_keys job)
      (if is_slave (job_env job) then job_slave_mem job else job_work_mem job) (job_random job) = Inr m1"
    by (auto simp: sort_begin_def bindE_Inr_iff)
  from begin_again [OF this mem] obtain s1 where
    s1: "tuplesort_begin_heap (slave_env job) (job_ops job) (job_keys job) (job_slave_mem job) (job_random job) = Inr s1" by blast
  have good: "\<forall>oper f rev. job_ops job oper = Some (f, rev) \<longrightarrow> btree_proc f" using ops by (simp add: ops_good_def)
  have "loading_inv (slave_env job) (scanKeys s1) {#} s1 \<and> \<not> bounded s1" using begin_loading [OF _ s1] good by blast
  then have "status s1 = TSS_INITIAL" "memtupcount s1 = 0" "\<not> bounded s1"
    by (auto simp: loading_inv_def array_ok_def heap_elems_def)
  with s1 begin_charged [OF good s1, of j] show ?thesis
    by (auto simp: sort_begin_def tuplesort_set_bound_def charged_def split: option.splits)
qed

lemma job_limits_ok:
  assumes lim: "job_limits job j ts" and bg: "sort_begin job (job_env job) = Inr m0"
  shows "job_ok job ts"
proof -
  have ops: "ops_good job" "bound_positive job" and dop: "1 \<le> job_dop job"
    and holds: "\<And>i. i < job_dop job \<Longrightarrow> memory_holds (slave_env job) (job_slave_mem job * 1024) j (share (job_dop job) i ts)"
    using lim by (auto simp: job_limits_def)
  have "memory_holds (slave_env job) (job_slave_mem job * 1024) j (share (job_dop job) 0 ts)" using holds dop by simp
  then have "0 \<le> tuple_space (slave_env job) (share (job_dop job) 0 ts)"
    "array_space (slave_env job) (1024 * 2 ^ 0) + tuple_space (slave_env job) (share (job_dop job) 0 ts) \<le> job_slave_mem job * 1024"
    unfolding memory_holds_def by (auto intro: tuple_space_nonneg)
  then have "array_space (slave_env job) 1024 \<le> job_slave_mem job * 1024" by simp
  from slave_begins [OF bg ops(1) this] obtain s0 where s0: "sort_begin job (slave_env job) = Inr s0"
    "charged (slave_env job) (job_slave_mem job * 1024) j [] s0" by blast
  have i0: "in_memory_inv (slave_env job) (scanKeys s0) (mset []) s0"
    using sort_begin_loading(1) [OF ops s0(1)] by (simp add: in_memory_inv_def)
  have "\<exists>s1. foldE (tuplesort_puttupleslot (slave_env job)) (share (job_dop job) i ts) s0 = Inr s1 \<and> status s1 \<noteq> TSS_BUILDRUNS"
    if "i < job_dop job" for i
    using puts_hold [of "slave_env job" _ j "[]", OF _ i0 s0(2)] holds [OF that] by auto
  then have "share_fits job ts" using s0(1) by (force simp: share_fits_def)
  with lim show ?thesis by (simp add: job_ok_def job_limits_def)
qed

section \<open>Semaphores of a run\<close>

text \<open>The free semaphores and those of the queues in use.\<close>

definition sems_kept :: "nat list \<Rightarrow> 'd sort_system \<Rightarrow> bool" where
  "sems_kept fs s \<longleftrightarrow> (\<exists>fs'. pool_ok (sems s) fs' \<and> mset (fs' @ concat (map queue_sems (queues s))) = mset fs) \<and>
     (\<forall>i\<in>set fs. i < length (boxes (sems s)))"

lemma destroy_keeps:
  assumes kept: "sems_kept fs s" and d: "distinct fs" and i: "i < length (queues s)" and old: "queues s ! i = Some old"
    and dest: "destroyBufferQueue old (sems s) = (r, pool)"
    and s': "sems s' = pool" "queues s' = (queues s)[i := None]"
  shows "sems_kept fs s'"
proof -
  from kept obtain fs' where fs': "pool_ok (sems s) fs'" "mset (fs' @ concat (map queue_sems (queues s))) = mset fs"
    and len: "\<forall>i\<in>set fs. i < length (boxes (sems s))" by (auto simp: sems_kept_def)
  have q: "queues s = take i (queues s) @ Some old # drop (Suc i) (queues s)" using id_take_nth_drop [OF i] old by simp
  let ?others = "concat (map queue_sems (take i (queues s))) @ concat (map queue_sems (drop (Suc i) (queues s)))"
  have all: "mset ([spaces old, mutex old, items old] @ fs' @ ?others) = mset fs"
    unfolding fs'(2) [symmetric] by (subst q) simp
  then have own: "distinct ([spaces old, mutex old, items old] @ fs' @ ?others)" using d mset_eq_imp_distinct_iff by blast
  have set: "set ([spaces old, mutex old, items old] @ fs' @ ?others) = set fs" using all by (rule mset_eq_setD)
  have "distinct (spaces old # mutex old # items old # fs')" using own by simp
  moreover have "{spaces old, mutex old, items old} \<subseteq> set fs" unfolding set [symmetric] by simp
  then have "spaces old < length (boxes (sems s))" "mutex old < length (boxes (sems s))" "items old < length (boxes (sems s))"
    using len by auto
  ultimately have "\<exists>m'. destroyBufferQueue old (sems s) = (Inr (head old \<noteq> None), m') \<and>
      pool_ok m' (spaces old # mutex old # items old # fs') \<and> cells m' = cells (sems s) \<and>
      length (boxes m') = length (boxes (sems s))"
    by (rule destroyBufferQueue_ok [OF fs'(1)])
  then have m': "pool_ok pool (spaces old # mutex old # items old # fs')" "length (boxes pool) = length (boxes (sems s))"
    using dest by auto
  have "mset ((spaces old # mutex old # items old # fs') @ concat (map queue_sems (queues s'))) = mset fs"
    using all i by (simp add: s'(2) upd_conv_take_nth_drop)
  with m' len s'(1) show ?thesis unfolding sems_kept_def by metis
qed

lemma EEnd_effect:
  assumes st: "ExecEndSort job (EEnd k) s = Some s'" and free: "\<not> PrlSemLock (sems s)"
  shows "sems s' = sems s \<and> queues s' = queues s \<or>
    (\<exists>old r. k < length (workersList s) \<and> queues s ! (workersList s ! k) = Some old \<and>
       destroyBufferQueue old (sems s) = (r, sems s') \<and> queues s' = (queues s)[workersList s ! k := None])"
proof (cases "k < length (workersList s) \<and> of_job job (wtab s ! (workersList s ! k))")
  case False
  with st show ?thesis by (auto simp: Let_def split: if_splits)
next
  case True
  show ?thesis
  proof (cases "queues s ! (workersList s ! k)")
    case None
    with st True show ?thesis by (auto simp: Let_def)
  next
    case (Some old)
    from destroy_unlocked [OF free, of old] obtain b pool where "destroyBufferQueue old (sems s) = (Inr b, pool)" by blast
    with st True Some show ?thesis by (auto simp: Let_def)
  qed
qed

lemma sems_kept_step:
  assumes kept: "sems_kept fs s" and d: "distinct fs" and sh: "shared_ok job s" and step: "sort_step job s s'"
  shows "sems_kept fs s'"
  using step
proof cases
  case step_master
  show ?thesis
  proof (cases "\<exists>k. master s = EEnd k \<or> master s = ERelease k")
    case False
    have "sems s' = sems s \<and> queues s' = queues s"
    proof (cases "ExecSort job (master s) s")
      case None
      with step_master have "ExecEndSort job (master s) s = Some s'" by (simp add: master_step_def)
      from ExecEndSort_frame [OF this refl] False show ?thesis by blast
    next
      case (Some t)
      with step_master have "ExecSort job (master s) s = Some s'" by (simp add: master_step_def)
      from ExecSort_frame [OF this refl] show ?thesis by blast
    qed
    with kept show ?thesis by (simp add: sems_kept_def)
  next
    case True
    with step_master have st: "ExecEndSort job (master s) s = Some s'" by (auto simp: master_step_def)
    from True obtain k where "master s = EEnd k \<or> master s = ERelease k" by blast
    then show ?thesis
    proof
      assume m: "master s = EEnd k"
      show ?thesis
      proof (cases "sems s' = sems s \<and> queues s' = queues s")
        case False
        moreover have "\<not> PrlSemLock (sems s)" using sh by (simp add: shared_ok_def)
        ultimately obtain old r where e: "k < length (workersList s)" "queues s ! (workersList s ! k) = Some old"
          "destroyBufferQueue old (sems s) = (r, sems s')" "queues s' = (queues s)[workersList s ! k := None]"
          using EEnd_effect [OF st [unfolded m]] by blast
        from e(1) sh have "workersList s ! k < length (queues s)" by (simp add: shared_ok_def)
        from destroy_keeps [OF kept d this e(2,3) refl e(4)] show ?thesis .
      qed (use kept in \<open>simp add: sems_kept_def\<close>)
    next
      assume "master s = ERelease k"
      with st have "sems s' = sems s \<and> queues s' = queues s"
        by (auto simp: Let_def release_worker_def split: if_splits option.splits)
      with kept show ?thesis by (simp add: sems_kept_def)
    qed
  qed
next
  case (step_worker i pid)
  with worker_step_frame kept show ?thesis unfolding sems_kept_def by metis
qed (use kept in \<open>simp add: sems_kept_def\<close>)

lemma sems_kept_run:
  assumes ok: "job_ok job ts" and exec: "ExecSort_start job m ts = Some (Inr s)" and d: "distinct fs"
    and run: "(sort_step job)\<^sup>*\<^sup>* s s'" and kept: "sems_kept fs s"
  shows "sems_kept fs s'"
  using run
proof (induction rule: rtranclp_induct)
  case (step a b)
  from run_reaches_inv [OF ok exec step.hyps(1)] have "shared_ok job a" by (auto simp: run_inv_def)
  from sems_kept_step [OF step.IH d this step.hyps(2)] show ?case .
qed (rule kept)

section \<open>Properties\<close>

text \<open>
  C1: a parallel sort without a limit, whose workers can hold their shares in memory, is
  correct under every interleaving of the master and its workers. When the master reports the end of the result, the tuples it has returned are exactly
  the tuples of its input, in the order of the sort keys.
\<close>

theorem parallel_sort_sorted:
  assumes "job_ok job ts" and "job_bound job = None" and "ExecSort_start job m ts = Some (Inr s)"
    and "(sort_step job)\<^sup>*\<^sup>* s s'" and "master s' = MDone"
  shows "mset (slots s') = mset ts \<and>
    sorted_wrt (\<lambda>a b. keyscmp (heap_getattr_in (job_env job)) (scanKeys (msort s)) a b \<le> 0) (slots s')"
  by (rule done_whole [OF assms])

theorem parallel_sort_sorted_witness:
  "\<exists>s s'. ExecSort_start (demo_job None) InitPrlSemas [[3], [], [1, 7], [3]] = Some (Inr s) \<and> (sort_step (demo_job None))\<^sup>*\<^sup>* s s' \<and>
     master s' = MDone \<and> mset (slots s') = {#[3], [], [1, 7], [3]#}"
proof -
  obtain s where s: "ExecSort_start (demo_job None) InitPrlSemas [[3], [], [1, 7], [3]] = Some (Inr s)" using demo_start(1) by (rule exE)
  from ok_run_to_done [OF demo_job_ok(1) s] obtain s' where
    s': "(sort_step (demo_job None))\<^sup>*\<^sup>* s s'" "master s' = MDone" by blast
  have "job_bound (demo_job None) = None" by (simp add: demo_job_def)
  from parallel_sort_sorted [OF demo_job_ok(1) this s s'] s s' show ?thesis by auto
qed

text \<open>
  C4: with a limit of \<open>n\<close> tuples every worker, sorting in memory, keeps only the first \<open>n\<close> of its share, and
  still the first tuples that the master returns are the right ones: there are \<open>n\<close> of
  them, or all if the input has fewer; they are in order, and no tuple of the input that
  is not among them precedes any of them.
\<close>

theorem parallel_sort_top_n:
  assumes "job_ok job ts" and "job_bound job = Some n" and "ExecSort_start job m ts = Some (Inr s)"
    and "(sort_step job)\<^sup>*\<^sup>* s s'" and "master s' = MDone"
  shows "let top = take (nat n) (slots s'); cmp = keyscmp (heap_getattr_in (job_env job)) (scanKeys (msort s))
    in length top = min (nat n) (length ts) \<and> sorted_wrt (\<lambda>a b. cmp a b \<le> 0) top \<and> smallest cmp (mset top) (mset ts)"
proof -
  note r = done_result [OF assms(1,3,4,5)]
  have le: "length (slots s') \<le> length ts" using r by (metis size_mset size_mset_mono)
  have w: "wanted job (length ts) = min (nat n) (length ts)" using assms(2) by (simp add: wanted_def)
  then have "take (wanted job (length ts)) (slots s') = take (nat n) (slots s')" using le by (simp add: min_def)
  with r w le show ?thesis by (auto simp: Let_def sorted_wrt_take)
qed

theorem parallel_sort_top_n_witness:
  "\<exists>s s'. ExecSort_start (demo_job (Some 1)) InitPrlSemas [[3], [], [1, 7], [3]] = Some (Inr s) \<and> (sort_step (demo_job (Some 1)))\<^sup>*\<^sup>* s s' \<and>
     master s' = MDone \<and> length (take 1 (slots s')) = 1"
proof -
  obtain s where s: "ExecSort_start (demo_job (Some 1)) InitPrlSemas [[3], [], [1, 7], [3]] = Some (Inr s)" using demo_start(2) by (rule exE)
  from ok_run_to_done [OF demo_job_ok(2) s] obtain s' where
    s': "(sort_step (demo_job (Some 1)))\<^sup>*\<^sup>* s s'" "master s' = MDone" by blast
  have "job_bound (demo_job (Some 1)) = Some 1" by (simp add: demo_job_def)
  from parallel_sort_top_n [OF demo_job_ok(2) this s s'] s s' show ?thesis by (auto simp: Let_def)
qed

text \<open>
  C8: at every moment of the merge of a sort without a limit and in memory, whatever has been returned so far is in order and
  precedes everything that has not been returned, so an executor that stops early has the
  right tuples.
\<close>

theorem parallel_sort_prefix:
  assumes "job_ok job ts" and "job_bound job = None" and "ExecSort_start job m ts = Some (Inr s)"
    and "(sort_step job)\<^sup>*\<^sup>* s s'" and "master s' = MFetch"
  shows "sorted_wrt (\<lambda>a b. keyscmp (heap_getattr_in (job_env job)) (scanKeys (msort s)) a b \<le> 0) (slots s') \<and>
    smallest (keyscmp (heap_getattr_in (job_env job)) (scanKeys (msort s))) (mset (slots s')) (mset ts)"
proof -
  from run_reaches_inv [OF assms(1,3,4)] obtain s0 outs k where keys: "scanKeys s0 = scanKeys (msort s)"
    and outs: "\<And>i. i < job_dop job \<Longrightarrow> smallest (key_order (job_env job) (scanKeys s0)) (mset (outs i)) (mset (share (job_dop job) i ts))"
      "\<And>i. i < job_dop job \<Longrightarrow> wanted job (length (share (job_dop job) i ts)) \<le> length (outs i)"
    and inv: "run_inv job ts s0 (scanKeys s0) outs s' k" by blast
  from inv assms(5) obtain R out S where sl: "slots s' = map tuple out"
    and mg: "merging (job_env job) (scanKeys s0) (job_dop job) outs (job_dop job) R (msort s') out S"
    by (auto simp: run_inv_def merge_stage_def)
  have "mset (outs i) = mset (share (job_dop job) i ts)" if "i < job_dop job" for i
    using outs [OF that] assms(2) by (auto simp: wanted_def intro!: smallest_whole)
  then have "(\<Sum>i<job_dop job. mset (outs i)) = (\<Sum>i<job_dop job. mset (share (job_dop job) i ts))" by simp
  also have "\<dots> = mset ts" using assms(1) by (intro mset_shares) (simp add: job_ok_def)
  finally show ?thesis using merging_order [OF mg] sl by (simp add: keys)
qed

theorem parallel_sort_prefix_witness:
  "\<exists>s s'. ExecSort_start (demo_job None) InitPrlSemas [[3], [], [1, 7], [3]] = Some (Inr s) \<and> (sort_step (demo_job None))\<^sup>*\<^sup>* s s' \<and>
     master s' = MFetch \<and> mset (slots s') \<subseteq># {#[3], [], [1, 7], [3]#}"
proof -
  obtain s where s: "ExecSort_start (demo_job None) InitPrlSemas [[3], [], [1, 7], [3]] = Some (Inr s)" using demo_start(1) by (rule exE)
  from ok_run_to_done [OF demo_job_ok(1) s] obtain d where d: "(sort_step (demo_job None))\<^sup>*\<^sup>* s d" "master d = MDone" by blast
  have "master s = MWaitInitial" by (rule ExecSort_start_master [OF s])
  from run_through_fetch [OF d(1) _ d(2)] this obtain s' where
    s': "(sort_step (demo_job None))\<^sup>*\<^sup>* s s'" "master s' = MFetch" by auto
  have "job_bound (demo_job None) = None" by (simp add: demo_job_def)
  from parallel_sort_prefix [OF demo_job_ok(1) this s s'] s s' show ?thesis by (auto simp: smallest_def)
qed

text \<open>
  C7: a sort with workers and without a limit returns what the same sort without workers
  returns, position by position up to tuples with equal keys, when both fit into memory.
\<close>

theorem parallel_sort_equals_local:
  assumes "job_ok job ts" and "job_bound job = None" and "ExecSort_start job m ts = Some (Inr s)"
    and "(sort_step job)\<^sup>*\<^sup>* s s'" and "master s' = MDone"
    and fits: "local_fits job ts"
  shows "\<exists>l l' out. ExecSort_local job ts = Some (Inr l) \<and> read_tuples (job_env job) True (length ts + 1) l = Inr (out, l') \<and>
    mset (slots s') = mset out \<and>
    list_all2 (\<lambda>a b. keyscmp (heap_getattr_in (job_env job)) (scanKeys (msort s)) a b = 0) (slots s') out"
proof -
  from ExecSort_start_begin [OF assms(3)] obtain m0 where
    m0: "sort_begin job (job_env job) = Inr m0" "scanKeys m0 = scanKeys (msort s)" by blast
  from local_sorts [OF assms(1,2) m0(1) fits] obtain l l' out where l: "ExecSort_local job ts = Some (Inr l)"
    "read_tuples (job_env job) True (length ts + 1) l = Inr (out, l')" "mset out = mset ts"
    "sorted_wrt (\<lambda>a b. key_order (job_env job) (scanKeys (msort s)) a b \<le> 0) out" "good_keys (scanKeys (msort s))"
    unfolding m0(2) by blast
  note r = done_whole [OF assms(1,2,3,4,5)]
  have "list_all2 (\<lambda>a b. key_order (job_env job) (scanKeys (msort s)) a b = 0) (slots s') out"
    by (rule sort_comparator.sorted_ties [OF keyscmp_comparator [OF l(5)]]) (use r l(3,4) in auto)
  with l r show ?thesis by auto
qed

theorem parallel_sort_equals_local_witness:
  "\<exists>s s' l l' out. ExecSort_start (demo_job None) InitPrlSemas [[3], [], [1, 7], [3]] = Some (Inr s) \<and> (sort_step (demo_job None))\<^sup>*\<^sup>* s s' \<and>
     master s' = MDone \<and> ExecSort_local (demo_job None) [[3], [], [1, 7], [3]] = Some (Inr l) \<and>
     read_tuples demo_env True 5 l = Inr (out, l') \<and> mset (slots s') = mset out"
proof -
  obtain s where s: "ExecSort_start (demo_job None) InitPrlSemas [[3], [], [1, 7], [3]] = Some (Inr s)" using demo_start(1) by (rule exE)
  from ok_run_to_done [OF demo_job_ok(1) s] obtain s' where
    s': "(sort_step (demo_job None))\<^sup>*\<^sup>* s s'" "master s' = MDone" by blast
  have n: "job_bound (demo_job None) = None" "job_env (demo_job None) = demo_env" by (simp_all add: demo_job_def)
  have len: "length [[3], [], [1, 7], [3 :: byte]] + 1 = 5" by simp
  from parallel_sort_equals_local [OF demo_job_ok(1) n(1) s s' demo_local_fits, unfolded n(2) len] s s' show ?thesis by blast
qed

text \<open>
  C10: a parallel sort within its limits starts, and runs into no error of its own up to
  the last loop of its shutdown. If its keys can be sorted by, the pool has three free
  semaphores for each worker and the work memory of the workers holds their shares, then
  the queues are created; and in every state of every run the master has not left its normal
  course, no worker has been thrown out, no queue holds more cells than its size,
  a queue has only been freed when its worker waits for its last orders or is gone, and if
  the shutdown faults, it is by a read of freed memory when every worker is dead.
\<close>

theorem parallel_sort_safe:
  assumes lim: "job_limits job j ts" and bg: "sort_begin job (job_env job) = Inr m0"
    and pool: "pool_ok m fs" "3 * job_dop job \<le> length fs"
  shows "\<exists>s. ExecSort_start job m ts = Some (Inr s) \<and> (\<forall>s'. (sort_step job)\<^sup>*\<^sup>* s s' \<longrightarrow>
    (\<forall>e. master s' \<noteq> MError e) \<and> (\<forall>e. WError e \<notin> set (wprocs s')) \<and>
    (\<forall>q\<in>set (channels s'). length (ch_cells q) \<le> job_queue_size job) \<and>
    (\<forall>i<job_dop job. queues s' ! i = None \<longrightarrow> wprocs s' ! i \<in> {WWait, WDead, WExit}) \<and>
    (\<forall>e. master s' = EError e \<longrightarrow> e = wild \<and> (\<forall>w\<in>set (wtab s'). worker_state w = PRL_WORKER_STATE_DEAD)))"
proof -
  from start_succeeds [OF bg pool] obtain s where s: "ExecSort_start job m ts = Some (Inr s)" by blast
  have ok: "job_ok job ts" by (rule job_limits_ok [OF lim bg])
  have "(\<forall>e. master s' \<noteq> MError e) \<and> (\<forall>e. WError e \<notin> set (wprocs s')) \<and>
      (\<forall>q\<in>set (channels s'). length (ch_cells q) \<le> job_queue_size job) \<and>
      (\<forall>i<job_dop job. queues s' ! i = None \<longrightarrow> wprocs s' ! i \<in> {WWait, WDead, WExit}) \<and>
      (\<forall>e. master s' = EError e \<longrightarrow> e = wild \<and> (\<forall>w\<in>set (wtab s'). worker_state w = PRL_WORKER_STATE_DEAD))"
    if run: "(sort_step job)\<^sup>*\<^sup>* s s'" for s'
  proof -
    from run_reaches_inv [OF ok s run] obtain s0 outs k where inv: "run_inv job ts s0 (scanKeys s0) outs s' k" by blast
    then obtain r where i: "system_ok job s'" "phase job ts s0 (scanKeys s0) outs s' r (master s')" "shared_ok job s'"
      unfolding run_inv_def by blast
    have "\<forall>e. WError e \<notin> set (wprocs s')" using i(1) phase_no_error [OF i(2)] by (auto simp: system_ok_def in_set_conv_nth)
    moreover have "\<forall>e. master s' \<noteq> MError e" using i(2) by auto
    moreover have "\<forall>i<job_dop job. queues s' ! i = None \<longrightarrow> wprocs s' ! i \<in> {WWait, WDead, WExit}"
      using freed_worker [OF i(2,3)] by blast
    ultimately show ?thesis using i(1) error_state [OF inv] by (auto simp: system_ok_def)
  qed
  with s show ?thesis by blast
qed

lemma demo_limits: "job_limits (demo_job None) 0 [[3], [], [1, 7], [3]]"
proof -
  have "memory_holds (slave_env (demo_job None)) (32 * 1024) 0 us" if "us = [[3], [1, 7]] \<or> us = [[], [3]]" for us
    using that by (auto simp: memory_holds_def slave_env_def demo_job_def demo_env_def)
  then show ?thesis
    using demo_job_ok(1) by (auto simp: job_limits_def job_ok_def demo_shares less_2_cases_iff demo_job_def)
qed

theorem parallel_sort_safe_witness:
  "\<exists>s s'. ExecSort_start (demo_job None) InitPrlSemas [[3], [], [1, 7], [3]] = Some (Inr s) \<and> (sort_step (demo_job None))\<^sup>*\<^sup>* s s' \<and>
     master s' = MDone \<and> (\<forall>e. WError e \<notin> set (wprocs s'))"
proof -
  obtain m0 where m0: "sort_begin (demo_job None) (job_env (demo_job None)) = Inr m0" using demo_begin(1) by (rule exE)
  have three: "3 * job_dop (demo_job None) \<le> length (rev [0..<MaxPrlSems])" by (simp add: demo_job_def MaxPrlSems_def)
  from parallel_sort_safe [OF demo_limits m0 InitPrlSemas_pool three] obtain s where
    s: "ExecSort_start (demo_job None) InitPrlSemas [[3], [], [1, 7], [3]] = Some (Inr s)"
    and safe: "\<And>s' e. (sort_step (demo_job None))\<^sup>*\<^sup>* s s' \<Longrightarrow> WError e \<notin> set (wprocs s')" by blast
  from ok_run_to_done [OF demo_job_ok(1) s] obtain s' where
    s': "(sort_step (demo_job None))\<^sup>*\<^sup>* s s'" "master s' = MDone" by blast
  with s safe show ?thesis by blast
qed



text \<open>
  C2: there is no deadlock. As long as the master has not returned everything or faulted
  in the last loop of its shutdown, the master or one of the workers can take a step by
  itself; and from every state in which the executor has not ended the plan, the end of the
  result can be reached. A run that cannot go on has come to that loop: every worker is dead
  and every queue freed, and the master reads the first of the freed queues to drain it.
  Nobody has been removed from the list of workers and from that of the postmaster's work.
\<close>

theorem parallel_sort_no_deadlock:
  assumes ok: "job_ok job ts" and exec: "ExecSort_start job m ts = Some (Inr s)" and run: "(sort_step job)\<^sup>*\<^sup>* s s'"
  shows "(master s' \<notin> {MDone, EError wild} \<longrightarrow> can_go job s') \<and>
    (working (master s') \<longrightarrow> (\<exists>s''. (sort_step job)\<^sup>*\<^sup>* s' s'' \<and> master s'' = MDone)) \<and>
    ((\<nexists>s''. sort_step job s' s'') \<longrightarrow> master s' = EError wild \<and>
       (\<forall>w\<in>set (wtab s'). worker_state w = PRL_WORKER_STATE_DEAD) \<and> queues s' = replicate (job_dop job) None \<and>
       workersList s' = [0..<job_dop job] \<and> prlJobsList s' = [0..<job_dop job])"
proof -
  from run_reaches_inv [OF ok exec run] obtain s0 outs k where
    i: "job_runs job ts s0 (scanKeys s0) outs" "run_inv job ts s0 (scanKeys s0) outs s' k" by blast
  have "can_go job s'" if "master s' \<notin> {MDone, EError wild}"
    by (rule progress [OF i]) (use that error_state [OF i(2)] in auto)
  with run_to_done [OF i] stuck_error [OF i] error_state [OF i(2)] show ?thesis by blast
qed

theorem parallel_sort_no_deadlock_witness:
  "\<exists>s. ExecSort_start (demo_job None) InitPrlSemas [[3], [], [1, 7], [3]] = Some (Inr s) \<and> can_go (demo_job None) s"
proof -
  obtain s where s: "ExecSort_start (demo_job None) InitPrlSemas [[3], [], [1, 7], [3]] = Some (Inr s)" using demo_start(1) by (rule exE)
  have "master s = MWaitInitial" by (rule ExecSort_start_master [OF s])
  with parallel_sort_no_deadlock [OF demo_job_ok(1) s rtranclp.rtrancl_refl] s show ?thesis by auto
qed

text \<open>
  C11: no semaphore is lost or shared. At every moment of a run the free semaphores, each with
  count one, and the three of every queue that has not been destroyed are together
  those that were free at the start, each once; when the shutdown has come to its last loop
  all of them are free again.
\<close>

theorem parallel_sort_semaphores:
  assumes ok: "job_ok job ts" and exec: "ExecSort_start job m ts = Some (Inr s)" and run: "(sort_step job)\<^sup>*\<^sup>* s s'"
    and pool: "pool_ok m fs" "3 * job_dop job \<le> length fs"
  shows "\<exists>fs'. pool_ok (sems s') fs' \<and> mset (fs' @ concat (map queue_sems (queues s'))) = mset fs \<and>
    (master s' = EError wild \<longrightarrow> mset fs' = mset fs)"
proof -
  have d: "distinct fs" and len: "\<forall>i\<in>set fs. i < length (boxes m)"
    using pool(1) free_chain_bound by (auto simp: pool_ok_def)
  from ExecSort_start_begin [OF exec] obtain m0 where "sort_begin job (job_env job) = Inr m0" by blast
  from start_succeeds [OF this pool, of ts] exec len have "sems_kept fs s" by (auto simp: sems_kept_def)
  from sems_kept_run [OF ok exec d run this] obtain fs' where
    fs': "pool_ok (sems s') fs'" "mset (fs' @ concat (map queue_sems (queues s'))) = mset fs" by (auto simp: sems_kept_def)
  have "mset fs' = mset fs" if "master s' = EError wild"
  proof -
    from run_reaches_inv [OF ok exec run] error_state that have "queues s' = replicate (job_dop job) None" by blast
    with fs'(2) show ?thesis by (simp add: map_replicate_const)
  qed
  with fs' show ?thesis by blast
qed

theorem parallel_sort_semaphores_witness:
  "\<exists>s fs. ExecSort_start (demo_job None) InitPrlSemas [[3], [], [1, 7], [3]] = Some (Inr s) \<and>
     pool_ok (sems s) fs \<and> mset (fs @ concat (map queue_sems (queues s))) = mset [0..<MaxPrlSems]"
proof -
  obtain s where s: "ExecSort_start (demo_job None) InitPrlSemas [[3], [], [1, 7], [3]] = Some (Inr s)" using demo_start(1) by (rule exE)
  have three: "3 * job_dop (demo_job None) \<le> length (rev [0..<MaxPrlSems])" by (simp add: demo_job_def MaxPrlSems_def)
  from parallel_sort_semaphores [OF demo_job_ok(1) s rtranclp.rtrancl_refl InitPrlSemas_pool three] s
  show ?thesis unfolding mset_rev by blast
qed

end
