(* ===== verification/HashFunc.thy ===== *)
theory HashFunc
  imports Tapes
begin

text \<open>
  Hashing, from \<^verbatim>\<open>backend/access/hash/hashfunc.c\<close>: the general routine
  \<^verbatim>\<open>hash_any\<close> with its code paths for aligned and for other keys on either byte order,
  the shortcut \<^verbatim>\<open>hash_uint32\<close>, and the hash functions of the types built on them.
  Values of \<^verbatim>\<open>uint32\<close> are 32-bit words, whose arithmetic wraps as in C.
\<close>

unbundle bit_operations_syntax

section \<open>Memory\<close>

text \<open>
  What a word-wide fetch reads and a store of a word writes on a machine with the given
  byte order (\<^verbatim>\<open>WORDS_BIGENDIAN\<close>).
\<close>

definition fetch_word :: "bool \<Rightarrow> byte list \<Rightarrow> nat \<Rightarrow> 32 word" where
  "fetch_word big k i =
     (let b = (\<lambda>j. ucast (k ! (4 * i + j)) :: 32 word)
      in if big then push_bit 24 (b 0) OR push_bit 16 (b 1) OR push_bit 8 (b 2) OR b 3
         else b 0 OR push_bit 8 (b 1) OR push_bit 16 (b 2) OR push_bit 24 (b 3))"

definition store_word :: "bool \<Rightarrow> 32 word \<Rightarrow> byte list" where
  "store_word big w =
     (let bs = [ucast w, ucast (drop_bit 8 w), ucast (drop_bit 16 w), ucast (drop_bit 24 w)]
      in if big then rev bs else bs)"

section \<open>Mixing\<close>

definition rot :: "32 word \<Rightarrow> nat \<Rightarrow> 32 word" where
  "rot x k = push_bit k x OR drop_bit (32 - k) x"

type_synonym hash_state = "32 word \<times> 32 word \<times> 32 word"

definition mix :: "hash_state \<Rightarrow> hash_state" where
  "mix = (\<lambda>(a, b, c).
     let a = a - c; a = a XOR rot c 4; c = c + b;
         b = b - a; b = b XOR rot a 6; a = a + c;
         c = c - b; c = c XOR rot b 8; b = b + a;
         a = a - c; a = a XOR rot c 16; c = c + b;
         b = b - a; b = b XOR rot a 19; a = a + c;
         c = c - b; c = c XOR rot b 4; b = b + a
     in (a, b, c))"

definition final :: "hash_state \<Rightarrow> 32 word" where
  "final = (\<lambda>(a, b, c).
     let c = c XOR b; c = c - rot b 14;
         a = a XOR c; a = a - rot c 11;
         b = b XOR a; b = b - rot a 25;
         c = c XOR b; c = c - rot b 16;
         a = a XOR c; a = a - rot c 4;
         b = b XOR a; b = b - rot a 14;
         c = c XOR b; c = c - rot b 24
     in c)"

section \<open>Keys of any length\<close>

text \<open>The loop over twelve bytes at a time, and the last eleven bytes: an aligned key.\<close>

fun aligned_loop :: "bool \<Rightarrow> hash_state \<Rightarrow> byte list \<Rightarrow> hash_state \<times> byte list" where
  "aligned_loop big (a, b, c) k =
     (if length k \<ge> 12
      then aligned_loop big (mix (a + fetch_word big k 0, b + fetch_word big k 1, c + fetch_word big k 2)) (drop 12 k)
      else ((a, b, c), k))"

text \<open>
  \<open>byte_at k n j sh\<close> is what a case of a switch on the length adds: the byte at \<open>j\<close>
  shifted by \<open>sh\<close>, when the length is at least \<open>n\<close>.
\<close>

definition byte_at :: "byte list \<Rightarrow> nat \<Rightarrow> nat \<Rightarrow> nat \<Rightarrow> 32 word" where
  "byte_at k n j sh = (if n \<le> length k then push_bit sh (ucast (k ! j)) else 0)"

definition aligned_tail :: "bool \<Rightarrow> hash_state \<Rightarrow> byte list \<Rightarrow> hash_state" where
  "aligned_tail big = (\<lambda>(a, b, c) k.
     if big then
       (if length k \<ge> 8 then
          let c = c + byte_at k 11 10 8; c = c + byte_at k 10 9 16; c = c + byte_at k 9 8 24
          in (a + fetch_word big k 0, b + fetch_word big k 1, c)
        else if length k \<ge> 4 then
          let b = b + byte_at k 7 6 8; b = b + byte_at k 6 5 16; b = b + byte_at k 5 4 24
          in (a + fetch_word big k 0, b, c)
        else
          let a = a + byte_at k 3 2 8; a = a + byte_at k 2 1 16; a = a + byte_at k 1 0 24
          in (a, b, c))
     else
       (if length k \<ge> 8 then
          let c = c + byte_at k 11 10 24; c = c + byte_at k 10 9 16; c = c + byte_at k 9 8 8
          in (a + fetch_word big k 0, b + fetch_word big k 1, c)
        else if length k \<ge> 4 then
          let b = b + byte_at k 7 6 16; b = b + byte_at k 6 5 8; b = b + byte_at k 5 4 0
          in (a + fetch_word big k 0, b, c)
        else
          let a = a + byte_at k 3 2 16; a = a + byte_at k 2 1 8; a = a + byte_at k 1 0 0
          in (a, b, c)))"

text \<open>The same for a key that is not aligned, byte by byte.\<close>

definition add_bytes :: "bool \<Rightarrow> byte list \<Rightarrow> nat \<Rightarrow> 32 word" where
  "add_bytes big k i =
     (let b = (\<lambda>j. ucast (k ! (i + j)) :: 32 word)
      in if big then b 3 + push_bit 8 (b 2) + push_bit 16 (b 1) + push_bit 24 (b 0)
         else b 0 + push_bit 8 (b 1) + push_bit 16 (b 2) + push_bit 24 (b 3))"

fun unaligned_loop :: "bool \<Rightarrow> hash_state \<Rightarrow> byte list \<Rightarrow> hash_state \<times> byte list" where
  "unaligned_loop big (a, b, c) k =
     (if length k \<ge> 12
      then unaligned_loop big (mix (a + add_bytes big k 0, b + add_bytes big k 4, c + add_bytes big k 8)) (drop 12 k)
      else ((a, b, c), k))"

definition unaligned_tail :: "bool \<Rightarrow> hash_state \<Rightarrow> byte list \<Rightarrow> hash_state" where
  "unaligned_tail big = (\<lambda>(a, b, c) k.
     if big then
       let c = c + byte_at k 11 10 8; c = c + byte_at k 10 9 16; c = c + byte_at k 9 8 24;
           b = b + byte_at k 8 7 0; b = b + byte_at k 7 6 8; b = b + byte_at k 6 5 16; b = b + byte_at k 5 4 24;
           a = a + byte_at k 4 3 0; a = a + byte_at k 3 2 8; a = a + byte_at k 2 1 16; a = a + byte_at k 1 0 24
       in (a, b, c)
     else
       let c = c + byte_at k 11 10 24; c = c + byte_at k 10 9 16; c = c + byte_at k 9 8 8;
           b = b + byte_at k 8 7 24; b = b + byte_at k 7 6 16; b = b + byte_at k 6 5 8; b = b + byte_at k 5 4 0;
           a = a + byte_at k 4 3 24; a = a + byte_at k 3 2 16; a = a + byte_at k 2 1 8; a = a + byte_at k 1 0 0
       in (a, b, c))"

text \<open>\<open>aligned\<close> says whether the key starts at an address that is a multiple of four.\<close>

definition hash_any :: "bool \<Rightarrow> bool \<Rightarrow> byte list \<Rightarrow> 32 word" where
  "hash_any big aligned k =
     (let init = 0x9e3779b9 + word_of_nat (length k) + 3923095
      in if aligned
         then (case aligned_loop big (init, init, init) k of (s, k) \<Rightarrow> final (aligned_tail big s k))
         else (case unaligned_loop big (init, init, init) k of (s, k) \<Rightarrow> final (unaligned_tail big s k)))"

definition hash_uint32 :: "32 word \<Rightarrow> 32 word" where
  "hash_uint32 k = (let a = 0x9e3779b9 + 4 + 3923095; b = a; c = a; a = a + k in final (a, b, c))"

section \<open>Hash functions of types\<close>

definition hashchar :: "8 word \<Rightarrow> 32 word" where
  "hashchar c = hash_uint32 (scast c)"

definition hashint2 :: "16 word \<Rightarrow> 32 word" where
  "hashint2 x = hash_uint32 (scast x)"

definition hashint4 :: "32 word \<Rightarrow> 32 word" where
  "hashint4 x = hash_uint32 x"

definition hashint8 :: "64 word \<Rightarrow> 32 word" where
  "hashint8 val =
     (let lohalf = ucast val; hihalf = ucast (signed_drop_bit 32 val);
          lohalf = lohalf XOR (if 0 \<le> sint val then hihalf else NOT hihalf)
      in hash_uint32 lohalf)"

definition hashoid :: "32 word \<Rightarrow> 32 word" where
  "hashoid x = hash_uint32 x"

definition hashenum :: "32 word \<Rightarrow> 32 word" where
  "hashenum x = hash_uint32 x"

definition hashoidvector :: "bool \<Rightarrow> bool \<Rightarrow> 32 word list \<Rightarrow> 32 word" where
  "hashoidvector big aligned values = hash_any big aligned (concat (map (store_word big) values))"

definition NAMEDATALEN :: nat where
  "NAMEDATALEN = 64"

definition hashname :: "bool \<Rightarrow> bool \<Rightarrow> byte list \<Rightarrow> pg_error + 32 word" where
  "hashname big aligned name =
     (let key = takeWhile (\<lambda>c. c \<noteq> 0) name
      in if length key < NAMEDATALEN then Inr (hash_any big aligned key) else Inl (TRAP ''keylen < NAMEDATALEN''))"

definition hashtext :: "bool \<Rightarrow> bool \<Rightarrow> byte list \<Rightarrow> 32 word" where
  "hashtext big aligned data = hash_any big aligned data"

definition hashvarlena :: "bool \<Rightarrow> bool \<Rightarrow> byte list \<Rightarrow> 32 word" where
  "hashvarlena big aligned data = hash_any big aligned data"

declare aligned_loop.simps [simp del] unaligned_loop.simps [simp del]

section \<open>Words and their bytes\<close>

lemma bit_byte: "bit (push_bit sh (ucast (b :: byte)) :: 32 word) n \<Longrightarrow> sh \<le> n \<and> n < sh + 8"
  by (auto simp: bit_simps dest: bit_imp_le_length)

lemma bytes_sum:
  fixes p q r s :: byte
  shows "ucast p + push_bit 8 (ucast q) + push_bit 16 (ucast r) + push_bit 24 (ucast s) =
    (ucast p OR push_bit 8 (ucast q) OR push_bit 16 (ucast r) OR push_bit 24 (ucast s) :: 32 word)"
proof -
  have b: "bit (ucast p :: 32 word) n \<Longrightarrow> n < 8" for n using bit_byte [of 0 p n] by simp
  have "ucast p + push_bit 8 (ucast q) = (ucast p OR push_bit 8 (ucast q) :: 32 word)"
    by (rule disjunctive_add) (use b bit_byte [of 8 q] in fastforce)
  moreover have "(ucast p OR push_bit 8 (ucast q)) + push_bit 16 (ucast r) =
      (ucast p OR push_bit 8 (ucast q) OR push_bit 16 (ucast r) :: 32 word)"
    by (subst disjunctive_add) (use b bit_byte [of 8 q] bit_byte [of 16 r] in \<open>auto simp: bit_or_iff or.assoc\<close>, force+)
  moreover have "(ucast p OR push_bit 8 (ucast q) OR push_bit 16 (ucast r)) + push_bit 24 (ucast s) =
      (ucast p OR push_bit 8 (ucast q) OR push_bit 16 (ucast r) OR push_bit 24 (ucast s) :: 32 word)"
    by (subst disjunctive_add) (use b bit_byte [of 8 q] bit_byte [of 16 r] bit_byte [of 24 s] in \<open>auto simp: bit_or_iff or.assoc\<close>, force+)
  ultimately show ?thesis by simp
qed

text \<open>Adding up the bytes is fetching the word.\<close>

lemma fetch_word_bytes: "fetch_word big k i = add_bytes big k (4 * i)"
  using bytes_sum [of "k ! (4 * i)" "k ! (4 * i + 1)" "k ! (4 * i + 2)" "k ! (4 * i + 3)"]
    bytes_sum [of "k ! (4 * i + 3)" "k ! (4 * i + 2)" "k ! (4 * i + 1)" "k ! (4 * i)"]
  by (simp add: fetch_word_def add_bytes_def Let_def or.commute or.left_commute or.assoc)

lemma loops_same: "aligned_loop big s k = unaligned_loop big s k"
proof (induction big s k rule: unaligned_loop.induct)
  case (1 big a b c k)
  then show ?case by (subst aligned_loop.simps, subst unaligned_loop.simps) (simp add: fetch_word_bytes)
qed

lemma unaligned_loop_rest: "length (snd (unaligned_loop big s k)) < 12"
proof (induction big s k rule: unaligned_loop.induct)
  case (1 big a b c k)
  then show ?case by (subst unaligned_loop.simps) simp
qed

lemma tails_same: "length k < 12 \<Longrightarrow> aligned_tail big s k = unaligned_tail big s k"
  by (cases s) (auto simp: aligned_tail_def unaligned_tail_def fetch_word_bytes add_bytes_def byte_at_def Let_def ac_simps)

lemma hash_any_same: "hash_any big True k = hash_any big False k"
proof -
  let ?i = "0x9e3779b9 + word_of_nat (length k) + 3923095 :: 32 word"
  obtain s r where l: "unaligned_loop big (?i, ?i, ?i) k = (s, r)" by (cases "unaligned_loop big (?i, ?i, ?i) k")
  then have "length r < 12" using unaligned_loop_rest [of big "(?i, ?i, ?i)" k] by simp
  with l show ?thesis by (simp add: hash_any_def Let_def loops_same tails_same)
qed

text \<open>A word stored and fetched again.\<close>

lemma fetch_store: "fetch_word big (store_word big w) 0 = w"
proof -
  have "bit (fetch_word big (store_word big w) 0) n = bit w n" if "n < 32" for n
  proof -
    consider "n < 8" | "8 \<le> n" "n < 16" | "16 \<le> n" "n < 24" | "24 \<le> n" using that by linarith
    then show ?thesis using that
      by cases (auto simp: fetch_word_def store_word_def Let_def bit_simps)
  qed
  then show ?thesis by (intro bit_word_eqI) simp
qed

lemma length_store_word [simp]: "length (store_word big w) = 4"
  by (simp add: store_word_def Let_def)

section \<open>Reversing a round\<close>

text \<open>Every line of \<^verbatim>\<open>mix\<close> does the same with the three values in turn.\<close>

definition mix_line :: "nat \<Rightarrow> hash_state \<Rightarrow> hash_state" where
  "mix_line k = (\<lambda>(x, y, z). (y, z + y, (x - z) XOR rot z k))"

definition unmix_line :: "nat \<Rightarrow> hash_state \<Rightarrow> hash_state" where
  "unmix_line k = (\<lambda>(y, z, x). ((x XOR rot (z - y) k) + (z - y), y, z - y))"

definition unmix :: "hash_state \<Rightarrow> hash_state" where
  "unmix s = foldr unmix_line [4, 6, 8, 16, 19, 4] s"

lemma mix_lines: "mix s = fold mix_line [4, 6, 8, 16, 19, 4] s"
  by (cases s) (simp add: mix_def mix_line_def Let_def)

lemma unmix_mix_line: "unmix_line k (mix_line k s) = s"
  by (cases s) (simp add: mix_line_def unmix_line_def xor.assoc)

lemma mix_unmix_line: "mix_line k (unmix_line k s) = s"
  by (cases s) (simp add: mix_line_def unmix_line_def xor.assoc)

section \<open>Integers of different width\<close>

lemma sign_bit: "bit x 31 \<longleftrightarrow> sint x < 0" for x :: "32 word"
  by (simp add: bit_last_iff [symmetric])

lemma high_half: "ucast (signed_drop_bit 32 (scast x :: 64 word)) = (if sint x < 0 then - 1 else 0 :: 32 word)" for x :: "32 word"
  by (rule bit_word_eqI) (auto simp: bit_simps sign_bit [symmetric])

lemma halves_of_scast:
  "ucast (scast x :: 64 word) XOR (if 0 \<le> sint (scast x :: 64 word) then ucast (signed_drop_bit 32 (scast x :: 64 word))
     else NOT (ucast (signed_drop_bit 32 (scast x :: 64 word)))) = x" for x :: "32 word"
proof -
  have low: "ucast (scast x :: 64 word) = x" by (rule bit_word_eqI) (auto simp: bit_simps)
  have sign: "sint (scast x :: 64 word) = sint x" by (rule sint_up_scast) (simp add: is_up)
  show ?thesis by (simp add: low sign high_half)
qed

lemma scast_scast16: "scast (scast y :: 32 word) = (scast y :: 64 word)" for y :: "16 word"
  by (rule bit_word_eqI) (simp add: bit_simps min_less_iff_disj flip: min.assoc)

lemma hashint8_scast: "hashint8 (scast x) = hash_uint32 x" for x :: "32 word"
  by (simp only: hashint8_def Let_def halves_of_scast)

section \<open>Properties\<close>

text \<open>
  C22: the hash of a key does not depend on where it lies in memory: on a machine of either
  byte order, the path that fetches words and the path that reads bytes give the same
  value for every key.
\<close>

theorem hash_any_alignment: "hash_any big True k = hash_any big False k"
  by (rule hash_any_same)

text \<open>
  C29: \<^verbatim>\<open>hash_uint32\<close> gives what \<^verbatim>\<open>hash_any\<close> gives for the four bytes of the value, as
  its comment promises, on either byte order and at any address.
\<close>

theorem hash_uint32_hash_any: "hash_uint32 w = hash_any big aligned (store_word big w)"
proof -
  have "hash_any big True (store_word big w) = hash_uint32 w"
    by (simp add: hash_any_def hash_uint32_def Let_def aligned_loop.simps aligned_tail_def byte_at_def fetch_store)
  then show ?thesis using hash_any_same [of big "store_word big w"] by (cases aligned) auto
qed

text \<open>
  C31: \<^verbatim>\<open>mix\<close> loses nothing: it can be undone, in both directions.
\<close>

theorem mix_reversible: "unmix (mix s) = s \<and> mix (unmix s) = s"
  by (simp add: mix_lines unmix_def unmix_mix_line mix_unmix_line)

text \<open>
  C30: integers of different width that are equal hash to the same value, so that they can
  be joined by hash.
\<close>

theorem hash_across_types:
  fixes x :: "32 word" and y :: "16 word"
  shows "hashint8 (scast x) = hashint4 x \<and> hashint4 (scast y) = hashint2 y \<and> hashint8 (scast y) = hashint2 y"
  using hashint8_scast [of x] hashint8_scast [of "scast y"] by (simp add: hashint4_def hashint2_def scast_scast16)

end
