(* ===== verification/BitmapSet.thy ===== *)
theory BitmapSet
  imports HashFunc
begin

text \<open>
  Sets of small integers as bit vectors, from \<^verbatim>\<open>backend/nodes/bitmapset.c\<close>, and their
  refinement to sets of numbers. A \<^verbatim>\<open>Bitmapset *\<close> is \<open>None\<close> for \<^verbatim>\<open>NULL\<close> or the array
  of words, whose length is \<^verbatim>\<open>nwords\<close>. Operations that recycle their input return the
  set that they leave behind.
\<close>

unbundle bit_operations_syntax

section \<open>Words\<close>

type_synonym bitmapword = "32 word"
type_synonym Bitmapset = "bitmapword list option"

definition BITS_PER_BITMAPWORD :: int where
  "BITS_PER_BITMAPWORD = 32"

definition WORDNUM :: "int \<Rightarrow> nat" where
  "WORDNUM x = nat (x div BITS_PER_BITMAPWORD)"

definition BITNUM :: "int \<Rightarrow> nat" where
  "BITNUM x = nat (x mod BITS_PER_BITMAPWORD)"

definition RIGHTMOST_ONE :: "bitmapword \<Rightarrow> bitmapword" where
  "RIGHTMOST_ONE x = x AND (- x)"

definition HAS_MULTIPLE_ONES :: "bitmapword \<Rightarrow> bool" where
  "HAS_MULTIPLE_ONES x \<longleftrightarrow> RIGHTMOST_ONE x \<noteq> x"

definition rightmost_one_pos :: "nat list" where
  "rightmost_one_pos = [
   0, 0, 1, 0, 2, 0, 1, 0, 3, 0, 1, 0, 2, 0, 1, 0, 4, 0, 1, 0, 2, 0, 1, 0, 3, 0, 1, 0, 2, 0, 1, 0,
   5, 0, 1, 0, 2, 0, 1, 0, 3, 0, 1, 0, 2, 0, 1, 0, 4, 0, 1, 0, 2, 0, 1, 0, 3, 0, 1, 0, 2, 0, 1, 0,
   6, 0, 1, 0, 2, 0, 1, 0, 3, 0, 1, 0, 2, 0, 1, 0, 4, 0, 1, 0, 2, 0, 1, 0, 3, 0, 1, 0, 2, 0, 1, 0,
   5, 0, 1, 0, 2, 0, 1, 0, 3, 0, 1, 0, 2, 0, 1, 0, 4, 0, 1, 0, 2, 0, 1, 0, 3, 0, 1, 0, 2, 0, 1, 0,
   7, 0, 1, 0, 2, 0, 1, 0, 3, 0, 1, 0, 2, 0, 1, 0, 4, 0, 1, 0, 2, 0, 1, 0, 3, 0, 1, 0, 2, 0, 1, 0,
   5, 0, 1, 0, 2, 0, 1, 0, 3, 0, 1, 0, 2, 0, 1, 0, 4, 0, 1, 0, 2, 0, 1, 0, 3, 0, 1, 0, 2, 0, 1, 0,
   6, 0, 1, 0, 2, 0, 1, 0, 3, 0, 1, 0, 2, 0, 1, 0, 4, 0, 1, 0, 2, 0, 1, 0, 3, 0, 1, 0, 2, 0, 1, 0,
   5, 0, 1, 0, 2, 0, 1, 0, 3, 0, 1, 0, 2, 0, 1, 0, 4, 0, 1, 0, 2, 0, 1, 0, 3, 0, 1, 0, 2, 0, 1, 0]"

definition number_of_ones :: "nat list" where
  "number_of_ones = [
   0, 1, 1, 2, 1, 2, 2, 3, 1, 2, 2, 3, 2, 3, 3, 4, 1, 2, 2, 3, 2, 3, 3, 4, 2, 3, 3, 4, 3, 4, 4, 5,
   1, 2, 2, 3, 2, 3, 3, 4, 2, 3, 3, 4, 3, 4, 4, 5, 2, 3, 3, 4, 3, 4, 4, 5, 3, 4, 4, 5, 4, 5, 5, 6,
   1, 2, 2, 3, 2, 3, 3, 4, 2, 3, 3, 4, 3, 4, 4, 5, 2, 3, 3, 4, 3, 4, 4, 5, 3, 4, 4, 5, 4, 5, 5, 6,
   2, 3, 3, 4, 3, 4, 4, 5, 3, 4, 4, 5, 4, 5, 5, 6, 3, 4, 4, 5, 4, 5, 5, 6, 4, 5, 5, 6, 5, 6, 6, 7,
   1, 2, 2, 3, 2, 3, 3, 4, 2, 3, 3, 4, 3, 4, 4, 5, 2, 3, 3, 4, 3, 4, 4, 5, 3, 4, 4, 5, 4, 5, 5, 6,
   2, 3, 3, 4, 3, 4, 4, 5, 3, 4, 4, 5, 4, 5, 5, 6, 3, 4, 4, 5, 4, 5, 5, 6, 4, 5, 5, 6, 5, 6, 6, 7,
   2, 3, 3, 4, 3, 4, 4, 5, 3, 4, 4, 5, 4, 5, 5, 6, 3, 4, 4, 5, 4, 5, 5, 6, 4, 5, 5, 6, 5, 6, 6, 7,
   3, 4, 4, 5, 4, 5, 5, 6, 4, 5, 5, 6, 5, 6, 6, 7, 4, 5, 5, 6, 5, 6, 6, 7, 5, 6, 6, 7, 6, 7, 7, 8]"

text \<open>
  Searching a word for its lowest bit, byte by byte: the loop shared by
  \<^verbatim>\<open>bms_singleton_member\<close> and \<^verbatim>\<open>bms_first_member\<close>. It does not end for zero.
\<close>

partial_function (option) low_bit_loop :: "bitmapword \<Rightarrow> int \<Rightarrow> int option" where
  "low_bit_loop w result =
     (if w AND 255 = 0 then low_bit_loop (drop_bit 8 w) (result + 8)
      else Some (result + int (rightmost_one_pos ! unat (w AND 255))))"

text \<open>Counting the bits of a word byte by byte.\<close>

lemma drop_bit_less: "w \<noteq> 0 \<Longrightarrow> unat (drop_bit 8 w) < unat w" for w :: bitmapword
proof -
  assume "w \<noteq> 0"
  moreover have "unat (drop_bit 8 w) = unat w div 256" by (simp only: unat_drop_bit_eq) (simp add: drop_bit_eq_div)
  ultimately show ?thesis by (simp add: unat_gt_0)
qed

function ones_loop :: "bitmapword \<Rightarrow> int \<Rightarrow> int" where
  "ones_loop w result =
     (if w = 0 then result else ones_loop (drop_bit 8 w) (result + int (number_of_ones ! unat (w AND 255))))"
  by pat_completeness auto

termination
  by (relation "measure (\<lambda>(w, _). unat w)") (auto simp: drop_bit_less)

declare ones_loop.simps [simp del]

section \<open>Loops over the words\<close>

fun words_zero :: "bitmapword list \<Rightarrow> bool" where
  "words_zero [] = True"
| "words_zero (w # ws) = (if w \<noteq> 0 then False else words_zero ws)"

text \<open>In the loops over two arrays, the first to end is the shorter one.\<close>

fun words_equal :: "bitmapword list \<Rightarrow> bitmapword list \<Rightarrow> bool" where
  "words_equal [] longer = words_zero longer"
| "words_equal (s # shorter) (l # longer) = (if s \<noteq> l then False else words_equal shorter longer)"
| "words_equal (s # shorter) [] = False"

fun or_words :: "bitmapword list \<Rightarrow> bitmapword list \<Rightarrow> bitmapword list" where
  "or_words (r # result) (x # other) = (r OR x) # or_words result other"
| "or_words result [] = result"
| "or_words [] other = []"

fun and_words :: "bitmapword list \<Rightarrow> bitmapword list \<Rightarrow> bitmapword list" where
  "and_words (r # result) (x # other) = (r AND x) # and_words result other"
| "and_words result [] = result"
| "and_words [] other = []"

fun and_zero_words :: "bitmapword list \<Rightarrow> bitmapword list \<Rightarrow> bitmapword list" where
  "and_zero_words (r # result) (x # other) = (r AND x) # and_zero_words result other"
| "and_zero_words (r # result) [] = 0 # and_zero_words result []"
| "and_zero_words [] other = []"

fun minus_words :: "bitmapword list \<Rightarrow> bitmapword list \<Rightarrow> bitmapword list" where
  "minus_words (r # result) (x # other) = (r AND NOT x) # minus_words result other"
| "minus_words result [] = result"
| "minus_words [] other = []"

fun subset_words :: "bitmapword list \<Rightarrow> bitmapword list \<Rightarrow> bool" where
  "subset_words (x # xs) (y # ys) = (if x AND NOT y \<noteq> 0 then False else subset_words xs ys)"
| "subset_words xs [] = words_zero xs"
| "subset_words [] ys = True"

fun overlap_words :: "bitmapword list \<Rightarrow> bitmapword list \<Rightarrow> bool" where
  "overlap_words (x # xs) (y # ys) = (if x AND y \<noteq> 0 then True else overlap_words xs ys)"
| "overlap_words _ _ = False"

fun differ_words :: "bitmapword list \<Rightarrow> bitmapword list \<Rightarrow> bool" where
  "differ_words (x # xs) (y # ys) = (if x AND NOT y \<noteq> 0 then True else differ_words xs ys)"
| "differ_words (x # xs) [] = (if x \<noteq> 0 then True else differ_words xs [])"
| "differ_words [] ys = False"

section \<open>Operations\<close>

definition bms_copy :: "Bitmapset \<Rightarrow> Bitmapset" where
  "bms_copy a = (case a of None \<Rightarrow> None | Some ws \<Rightarrow> Some ws)"

definition bms_is_empty :: "Bitmapset \<Rightarrow> bool" where
  "bms_is_empty a = (case a of None \<Rightarrow> True | Some ws \<Rightarrow> words_zero ws)"

definition bms_equal :: "Bitmapset \<Rightarrow> Bitmapset \<Rightarrow> bool" where
  "bms_equal a b = (case a of
       None \<Rightarrow> (case b of None \<Rightarrow> True | Some _ \<Rightarrow> bms_is_empty b)
     | Some x \<Rightarrow> (case b of
           None \<Rightarrow> bms_is_empty a
         | Some y \<Rightarrow> if length x \<le> length y then words_equal x y else words_equal y x))"

definition bms_make_singleton :: "int \<Rightarrow> pg_error + Bitmapset" where
  "bms_make_singleton x =
     (if x < 0 then Inl (ERROR ''negative bitmapset member not allowed'')
      else Inr (Some ((replicate (WORDNUM x + 1) 0)[WORDNUM x := push_bit (BITNUM x) 1])))"

definition bms_union :: "Bitmapset \<Rightarrow> Bitmapset \<Rightarrow> Bitmapset" where
  "bms_union a b = (case a of None \<Rightarrow> bms_copy b | Some x \<Rightarrow> (case b of None \<Rightarrow> bms_copy a | Some y \<Rightarrow>
     if length x \<le> length y then Some (or_words y x) else Some (or_words x y)))"

definition bms_intersect :: "Bitmapset \<Rightarrow> Bitmapset \<Rightarrow> Bitmapset" where
  "bms_intersect a b = (case a of None \<Rightarrow> None | Some x \<Rightarrow> (case b of None \<Rightarrow> None | Some y \<Rightarrow>
     if length x \<le> length y then Some (and_words x y) else Some (and_words y x)))"

definition bms_difference :: "Bitmapset \<Rightarrow> Bitmapset \<Rightarrow> Bitmapset" where
  "bms_difference a b = (case a of None \<Rightarrow> None | Some x \<Rightarrow> (case b of None \<Rightarrow> bms_copy a | Some y \<Rightarrow>
     Some (minus_words x y)))"

definition bms_is_subset :: "Bitmapset \<Rightarrow> Bitmapset \<Rightarrow> bool" where
  "bms_is_subset a b = (case a of None \<Rightarrow> True | Some x \<Rightarrow> (case b of None \<Rightarrow> bms_is_empty a | Some y \<Rightarrow> subset_words x y))"

definition bms_is_member :: "int \<Rightarrow> Bitmapset \<Rightarrow> pg_error + bool" where
  "bms_is_member x a =
     (if x < 0 then Inl (ERROR ''negative bitmapset member not allowed'')
      else case a of None \<Rightarrow> Inr False | Some ws \<Rightarrow>
        if WORDNUM x \<ge> length ws then Inr False
        else Inr (ws ! WORDNUM x AND push_bit (BITNUM x) 1 \<noteq> 0))"

definition bms_overlap :: "Bitmapset \<Rightarrow> Bitmapset \<Rightarrow> bool" where
  "bms_overlap a b = (case (a, b) of (Some x, Some y) \<Rightarrow> overlap_words x y | _ \<Rightarrow> False)"

definition bms_nonempty_difference :: "Bitmapset \<Rightarrow> Bitmapset \<Rightarrow> bool" where
  "bms_nonempty_difference a b =
     (case a of None \<Rightarrow> False | Some x \<Rightarrow> (case b of None \<Rightarrow> \<not> bms_is_empty a | Some y \<Rightarrow> differ_words x y))"

text \<open>The result is \<open>None\<close> when the search for a bit does not end.\<close>

fun singleton_loop :: "bitmapword list \<Rightarrow> int \<Rightarrow> int \<Rightarrow> (pg_error + int) option" where
  "singleton_loop [] wordnum result =
     Some (if result < 0 then Inl (ERROR ''bitmapset is empty'') else Inr result)"
| "singleton_loop (w # ws) wordnum result =
     (if w \<noteq> 0 then
        if result \<ge> 0 \<or> HAS_MULTIPLE_ONES w then Some (Inl (ERROR ''bitmapset has multiple members''))
        else case low_bit_loop w (wordnum * BITS_PER_BITMAPWORD) of
               None \<Rightarrow> None
             | Some result \<Rightarrow> singleton_loop ws (wordnum + 1) result
      else singleton_loop ws (wordnum + 1) result)"

definition bms_singleton_member :: "Bitmapset \<Rightarrow> (pg_error + int) option" where
  "bms_singleton_member a = (case a of None \<Rightarrow> Some (Inl (ERROR ''bitmapset is empty'')) | Some ws \<Rightarrow> singleton_loop ws 0 (-1))"

definition bms_num_members :: "Bitmapset \<Rightarrow> int" where
  "bms_num_members a = (case a of None \<Rightarrow> 0 | Some ws \<Rightarrow> fold ones_loop ws 0)"

datatype BMS_Membership = BMS_EMPTY_SET | BMS_SINGLETON | BMS_MULTIPLE

fun membership_loop :: "bitmapword list \<Rightarrow> BMS_Membership \<Rightarrow> BMS_Membership" where
  "membership_loop [] result = result"
| "membership_loop (w # ws) result =
     (if w \<noteq> 0 then
        if result \<noteq> BMS_EMPTY_SET \<or> HAS_MULTIPLE_ONES w then BMS_MULTIPLE else membership_loop ws BMS_SINGLETON
      else membership_loop ws result)"

definition bms_membership :: "Bitmapset \<Rightarrow> BMS_Membership" where
  "bms_membership a = (case a of None \<Rightarrow> BMS_EMPTY_SET | Some ws \<Rightarrow> membership_loop ws BMS_EMPTY_SET)"

definition bms_add_member :: "Bitmapset \<Rightarrow> int \<Rightarrow> pg_error + Bitmapset" where
  "bms_add_member a x =
     (if x < 0 then Inl (ERROR ''negative bitmapset member not allowed'')
      else case a of None \<Rightarrow> bms_make_singleton x | Some ws \<Rightarrow>
        if WORDNUM x \<ge> length ws
        then bindE (bms_make_singleton x) (\<lambda>result. Inr (map_option (\<lambda>r. or_words r ws) result))
        else Inr (Some (ws[WORDNUM x := ws ! WORDNUM x OR push_bit (BITNUM x) 1])))"

definition bms_del_member :: "Bitmapset \<Rightarrow> int \<Rightarrow> pg_error + Bitmapset" where
  "bms_del_member a x =
     (if x < 0 then Inl (ERROR ''negative bitmapset member not allowed'')
      else case a of None \<Rightarrow> Inr None | Some ws \<Rightarrow>
        if WORDNUM x < length ws
        then Inr (Some (ws[WORDNUM x := ws ! WORDNUM x AND NOT (push_bit (BITNUM x) 1)]))
        else Inr (Some ws))"

definition bms_add_members :: "Bitmapset \<Rightarrow> Bitmapset \<Rightarrow> Bitmapset" where
  "bms_add_members a b = (case a of None \<Rightarrow> bms_copy b | Some x \<Rightarrow> (case b of None \<Rightarrow> a | Some y \<Rightarrow>
     if length x < length y then Some (or_words y x) else Some (or_words x y)))"

definition bms_int_members :: "Bitmapset \<Rightarrow> Bitmapset \<Rightarrow> Bitmapset" where
  "bms_int_members a b = (case a of None \<Rightarrow> None | Some x \<Rightarrow> (case b of None \<Rightarrow> None | Some y \<Rightarrow> Some (and_zero_words x y)))"

definition bms_del_members :: "Bitmapset \<Rightarrow> Bitmapset \<Rightarrow> Bitmapset" where
  "bms_del_members a b = (case a of None \<Rightarrow> None | Some x \<Rightarrow> (case b of None \<Rightarrow> a | Some y \<Rightarrow> Some (minus_words x y)))"

definition bms_join :: "Bitmapset \<Rightarrow> Bitmapset \<Rightarrow> Bitmapset" where
  "bms_join a b = (case a of None \<Rightarrow> b | Some x \<Rightarrow> (case b of None \<Rightarrow> a | Some y \<Rightarrow>
     if length x < length y then Some (or_words y x) else Some (or_words x y)))"

fun first_member_loop :: "bitmapword list \<Rightarrow> int \<Rightarrow> (int \<times> bitmapword list) option" where
  "first_member_loop [] wordnum = Some (-1, [])"
| "first_member_loop (w # ws) wordnum =
     (if w \<noteq> 0 then
        let low = RIGHTMOST_ONE w
        in map_option (\<lambda>result. (result, (w AND NOT low) # ws)) (low_bit_loop low (wordnum * BITS_PER_BITMAPWORD))
      else map_option (\<lambda>(result, ws). (result, w # ws)) (first_member_loop ws (wordnum + 1)))"

definition bms_first_member :: "Bitmapset \<Rightarrow> (int \<times> Bitmapset) option" where
  "bms_first_member a = (case a of
       None \<Rightarrow> Some (-1, None)
     | Some ws \<Rightarrow> map_option (\<lambda>(result, ws). (result, Some ws)) (first_member_loop ws 0))"

text \<open>The words up to the last one that is not zero, found from the end.\<close>

fun lastword_loop :: "bitmapword list \<Rightarrow> nat \<Rightarrow> int" where
  "lastword_loop ws 0 = -1"
| "lastword_loop ws (Suc lastword) = (if ws ! lastword \<noteq> 0 then int lastword else lastword_loop ws lastword)"

definition bms_hash_value :: "bool \<Rightarrow> bool \<Rightarrow> Bitmapset \<Rightarrow> 32 word" where
  "bms_hash_value big aligned a = (case a of None \<Rightarrow> 0 | Some ws \<Rightarrow>
     let lastword = lastword_loop ws (length ws)
     in if lastword < 0 then 0
        else hash_any big aligned (concat (map (store_word big) (take (nat (lastword + 1)) ws))))"

section \<open>The tables\<close>

text \<open>Both tables grow by doubling: the second half differs from the first by one more bit.\<close>

definition lowest_table :: "nat \<Rightarrow> nat list" where
  "lowest_table k = fold (\<lambda>n t. t @ n # tl t) [0..<k] [0]"

definition ones_table :: "nat \<Rightarrow> nat list" where
  "ones_table k = fold (\<lambda>_ t. t @ map (\<lambda>x. x + 1) t) [0..<k] [0]"

lemma tables_simps [simp]:
  "lowest_table 0 = [0]" "lowest_table (Suc n) = lowest_table n @ n # tl (lowest_table n)"
  "ones_table 0 = [0]" "ones_table (Suc n) = ones_table n @ map (\<lambda>x. x + 1) (ones_table n)"
  by (simp_all add: lowest_table_def ones_table_def)

lemma upt_8: "[0..<8] = [0, 1, 2, 3, 4, 5, 6, 7 :: nat]"
  by (simp add: eval_nat_numeral)

lemma rightmost_one_pos_table: "rightmost_one_pos = lowest_table 8"
  unfolding rightmost_one_pos_def lowest_table_def upt_8 by code_simp

lemma number_of_ones_table: "number_of_ones = ones_table 8"
  unfolding number_of_ones_def ones_table_def upt_8 by code_simp

lemma length_tables [simp]: "length (lowest_table n) = 2 ^ n" "length (ones_table n) = 2 ^ n"
  by (induction n) auto

lemma bit_lower: "c < 2 ^ n \<Longrightarrow> bit c i \<Longrightarrow> i < n" for c :: nat
proof -
  assume "c < 2 ^ n" "bit c i"
  then have "bit (take_bit n c) i" by (simp add: take_bit_nat_eq_self)
  then show ?thesis by (simp add: bit_take_bit_iff)
qed

lemma bit_upper: "c < 2 ^ n \<Longrightarrow> bit (2 ^ n + c) i \<longleftrightarrow> i = n \<or> bit c i" for c :: nat
proof -
  assume c: "c < 2 ^ n"
  have "2 ^ n + c = 2 ^ n OR c" by (rule disjunctive_add) (use bit_lower [OF c] in \<open>auto simp: bit_exp_iff\<close>)
  then show ?thesis by (simp add: bit_or_iff bit_exp_iff)
qed

lemma half_cases:
  assumes "b < 2 ^ Suc n"
  obtains "b < 2 ^ n" | c where "b = 2 ^ n + c" "c < (2 :: nat) ^ n"
proof (cases "b < 2 ^ n")
  case False
  with assms have "b = 2 ^ n + (b - 2 ^ n)" "b - 2 ^ n < 2 ^ n" by auto
  then show ?thesis by (rule that(2))
qed (rule that(1))

lemma lowest_table_nth:
  "b < 2 ^ n \<Longrightarrow> b \<noteq> 0 \<Longrightarrow> bit b (lowest_table n ! b) \<and> (\<forall>m<lowest_table n ! b. \<not> bit b m)"
proof (induction n arbitrary: b)
  case (Suc n)
  from Suc.prems(1) show ?case
  proof (cases rule: half_cases)
    case 1
    with Suc show ?thesis by (simp add: nth_append)
  next
    case (2 c)
    show ?thesis
    proof (cases "c = 0")
      case True
      with 2 show ?thesis by (auto simp: nth_append bit_exp_iff)
    next
      case False
      then have "lowest_table (Suc n) ! b = lowest_table n ! c"
        using 2 by (simp add: nth_append nth_Cons' nth_tl)
      with Suc.IH [OF 2(2) False] 2 bit_lower [OF 2(2), of "lowest_table n ! c"] show ?thesis
        by (auto simp: bit_upper simp del: tables_simps)
    qed
  qed
qed simp

lemma ones_table_nth: "b < 2 ^ n \<Longrightarrow> ones_table n ! b = card {i. bit b i}"
proof (induction n arbitrary: b)
  case 0
  then have "{i. bit b i} = {}" by (auto simp: bit_0_eq)
  with 0 show ?case by simp
next
  case (Suc n)
  from Suc.prems show ?case
  proof (cases rule: half_cases)
    case 1
    with Suc show ?thesis by (simp add: nth_append)
  next
    case (2 c)
    have "{i. bit b i} = insert n {i. bit c i}" using 2 by (auto simp: bit_upper)
    moreover have "{i. bit c i} \<subseteq> {..<n}" using bit_lower [OF 2(2)] by auto
    then have "finite {i. bit c i}" "n \<notin> {i. bit c i}" using finite_subset by auto
    ultimately show ?thesis using Suc.IH [OF 2(2)] 2 by (simp add: nth_append)
  qed
qed

section \<open>Bits of a word\<close>

definition lowest :: "bitmapword \<Rightarrow> nat" where
  "lowest w = (LEAST n. bit w n)"

lemma word_has_bit: "w \<noteq> 0 \<longleftrightarrow> (\<exists>n. bit w n)" for w :: bitmapword
  by (metis bit_0_eq bit_word_eqI bot_apply bot_bool_def)

lemma lowest_bit: "w \<noteq> 0 \<Longrightarrow> bit w (lowest w)"
  unfolding lowest_def word_has_bit by (erule exE) (rule LeastI)

lemma lowest_least: "bit w n \<Longrightarrow> lowest w \<le> n"
  unfolding lowest_def by (rule Least_le)

lemma lowest_eqI: "bit w n \<Longrightarrow> (\<And>m. bit w m \<Longrightarrow> n \<le> m) \<Longrightarrow> lowest w = n"
  unfolding lowest_def by (rule Least_equality)

lemma lowest_bound: "w \<noteq> 0 \<Longrightarrow> lowest w < 32"
  using lowest_bit [of w] bit_imp_le_length by fastforce

text \<open>\<^verbatim>\<open>RIGHTMOST_ONE\<close> is the lowest bit alone.\<close>

lemma odd_and_minus: "odd u \<Longrightarrow> u AND (- u) = 1" for u :: bitmapword
proof -
  assume u: "odd u"
  have "- u = NOT u + 1" by (simp add: minus_eq_not_plus_1)
  also have "\<dots> = NOT u OR 1" by (rule disjunctive_add) (use u in \<open>auto simp: bit_simps bit_1_iff even_iff_mod_2_eq_zero bit_0\<close>)
  finally have "u AND (- u) = u AND 1" by (simp add: bit_eq_iff bit_simps) blast
  with u show ?thesis by (simp add: and_one_eq odd_iff_mod_2_eq_one)
qed

lemma RIGHTMOST_ONE_lowest:
  assumes "w \<noteq> 0"
  shows "RIGHTMOST_ONE w = push_bit (lowest w) 1"
proof -
  let ?k = "lowest w" and ?u = "drop_bit (lowest w) w"
  have w: "w = push_bit ?k ?u"
  proof (rule bit_word_eqI)
    fix n show "bit w n = bit (push_bit ?k ?u) n" if "n < LENGTH(32)"
      using lowest_least [of w n] that by (auto simp: bit_simps)
  qed
  have "odd ?u" using lowest_bit [OF assms] by (simp add: bit_simps flip: bit_0)
  then have "?u AND (- ?u) = 1" by (rule odd_and_minus)
  moreover have "- w = push_bit ?k (- ?u)" by (subst w) (simp add: push_bit_minus)
  ultimately have "push_bit ?k ?u AND push_bit ?k (- ?u) = push_bit ?k 1" by (simp flip: push_bit_and)
  with w \<open>- w = _\<close> show ?thesis by (simp add: RIGHTMOST_ONE_def)
qed

lemma HAS_MULTIPLE_ONES_bits:
  assumes "w \<noteq> 0"
  shows "HAS_MULTIPLE_ONES w \<longleftrightarrow> {n. bit w n} \<noteq> {lowest w}"
proof -
  have "RIGHTMOST_ONE w = w \<longleftrightarrow> (\<forall>n<32. bit w n = (n = lowest w))"
    using lowest_bound [OF assms] by (auto simp: RIGHTMOST_ONE_lowest [OF assms] bit_eq_iff bit_simps bit_1_iff)
  also have "\<dots> \<longleftrightarrow> {n. bit w n} = {lowest w}"
    using lowest_bit [OF assms] bit_imp_le_length [of w] lowest_bound [OF assms] by auto
  finally show ?thesis by (simp add: HAS_MULTIPLE_ONES_def)
qed

text \<open>The loops over the bytes of a word.\<close>

lemma bit_byte_part: "bit (w AND 255) n \<longleftrightarrow> bit w n \<and> n < 8" for w :: bitmapword
proof -
  have "(255 :: bitmapword) = mask 8" by (simp add: mask_eq_exp_minus_1)
  then have "bit (255 :: bitmapword) n \<longleftrightarrow> n < 8" by (simp only: bit_mask_iff) auto
  then show ?thesis by (simp add: bit_and_iff)
qed

lemma byte_part_less: "unat (w AND 255) < 2 ^ 8" for w :: bitmapword
proof -
  have "w AND 255 \<le> 255" by (rule word_and_le1)
  then have "unat (w AND 255) \<le> unat (255 :: bitmapword)" by (simp only: word_le_nat_alt)
  then show ?thesis by simp
qed

lemma lowest_byte:
  assumes "w AND 255 \<noteq> 0"
  shows "rightmost_one_pos ! unat (w AND 255) = lowest w"
proof -
  let ?p = "rightmost_one_pos ! unat (w AND 255)"
  have "unat (w AND 255) \<noteq> 0" using assms by (simp add: unat_eq_zero)
  from lowest_table_nth [OF byte_part_less this] have p: "bit (w AND 255) ?p" "\<forall>m<?p. \<not> bit (w AND 255) m"
    by (simp_all add: rightmost_one_pos_table bit_unsigned_iff)
  then have "bit w ?p" "?p < 8" by (simp_all add: bit_byte_part)
  with p(2) show ?thesis by (intro lowest_eqI [symmetric]) (auto simp: bit_byte_part not_less [symmetric])
qed

lemma lowest_shift:
  assumes "w AND 255 = 0" and "w \<noteq> 0"
  shows "drop_bit 8 w \<noteq> 0" "lowest w = lowest (drop_bit 8 w) + 8"
proof -
  have low: "\<not> bit w n" if "n < 8" for n using bit_byte_part [of w n] assms(1) that by simp
  have b: "bit (drop_bit 8 w) n = bit w (n + 8)" for n by (simp add: bit_simps add.commute)
  have "8 \<le> lowest w" using lowest_bit [OF assms(2)] low by (metis not_less)
  then have k: "bit (drop_bit 8 w) (lowest w - 8)" using lowest_bit [OF assms(2)] by (simp add: b)
  then show "drop_bit 8 w \<noteq> 0" by auto
  have "lowest (drop_bit 8 w) = lowest w - 8"
    by (rule lowest_eqI [OF k]) (use b lowest_least [of w] in fastforce)
  with \<open>8 \<le> lowest w\<close> show "lowest w = lowest (drop_bit 8 w) + 8" by simp
qed

lemma low_bit_loop_lowest: "w \<noteq> 0 \<Longrightarrow> low_bit_loop w r = Some (r + int (lowest w))"
proof (induction "unat w" arbitrary: w r rule: less_induct)
  case less
  show ?case
  proof (cases "w AND 255 = 0")
    case True
    note s = lowest_shift [OF True less.prems]
    from less.hyps [OF drop_bit_less [OF less.prems] s(1), of "r + 8"] True s(2) show ?thesis
      by (subst low_bit_loop.simps) simp
  next
    case False
    then show ?thesis by (subst low_bit_loop.simps) (simp add: lowest_byte)
  qed
qed

definition popcount :: "bitmapword \<Rightarrow> nat" where
  "popcount w = card {n. bit w n}"

lemma popcount_bytes: "popcount w = number_of_ones ! unat (w AND 255) + popcount (drop_bit 8 w)"
proof -
  have fin: "finite {n. bit w' n}" for w' :: bitmapword
    by (rule finite_subset [of _ "{..<32}"]) (auto dest: bit_imp_le_length)
  have "number_of_ones ! unat (w AND 255) = card {n. bit w n \<and> n < 8}"
    using ones_table_nth [OF byte_part_less, of w] by (simp add: number_of_ones_table bit_unsigned_iff bit_byte_part)
  moreover have "{n. bit w n} = {n. bit w n \<and> n < 8} \<union> (\<lambda>n. n + 8) ` {n. bit (drop_bit 8 w) n}"
    by (auto simp: bit_simps image_iff add.commute) (metis add.commute le_add_diff_inverse not_less)
  moreover have "card ({n. bit w n \<and> n < 8} \<union> (\<lambda>n. n + 8) ` {n. bit (drop_bit 8 w) n}) =
      card {n. bit w n \<and> n < 8} + card ((\<lambda>n. n + 8) ` {n. bit (drop_bit 8 w) n})"
    by (rule card_Un_disjoint) (use fin in auto)
  moreover have "card ((\<lambda>n. n + 8) ` {n. bit (drop_bit 8 w) n}) = popcount (drop_bit 8 w)"
    unfolding popcount_def by (rule card_image) simp
  ultimately show ?thesis by (simp add: popcount_def)
qed

lemma ones_loop_popcount: "ones_loop w r = r + int (popcount w)"
proof (induction w r rule: ones_loop.induct)
  case (1 w r)
  show ?case
  proof (cases "w = 0")
    case True
    then show ?thesis by (simp add: ones_loop.simps popcount_def)
  next
    case False
    with 1 show ?thesis by (subst ones_loop.simps) (simp add: popcount_bytes [of w])
  qed
qed

section \<open>Sets of numbers\<close>

primrec in_words :: "nat \<Rightarrow> bitmapword list \<Rightarrow> bool" where
  "in_words x [] = False"
| "in_words x (w # ws) = (if x < 32 then bit w x else in_words (x - 32) ws)"

definition members :: "Bitmapset \<Rightarrow> nat set" where
  "members a = (case a of None \<Rightarrow> {} | Some ws \<Rightarrow> {x. in_words x ws})"

lemma members_simps [simp]: "members None = {}" "members (Some ws) = {x. in_words x ws}"
  by (simp_all add: members_def)

lemma in_words_nth: "in_words x ws \<longleftrightarrow> x div 32 < length ws \<and> bit (ws ! (x div 32)) (x mod 32)"
proof (induction ws arbitrary: x)
  case (Cons w ws)
  show ?case
  proof (cases "x < 32")
    case False
    then have "x div 32 = Suc ((x - 32) div 32)" "x mod 32 = (x - 32) mod 32" by (auto simp: le_div_geq le_mod_geq)
    with Cons False show ?thesis by simp
  qed simp
qed simp

lemma all_in_words_Cons: "(\<forall>x. P x (in_words x (w # ws))) \<longleftrightarrow> (\<forall>x<32. P x (bit w x)) \<and> (\<forall>x. P (x + 32) (in_words x ws))"
proof -
  have "P x (in_words x (w # ws))" if "\<forall>x<32. P x (bit w x)" "\<forall>x. P (x + 32) (in_words x ws)" for x
    using that(1) that(2) [rule_format, of "x - 32"] by (cases "x < 32") auto
  moreover have "P x (bit w x)" if "\<forall>x. P x (in_words x (w # ws))" "x < 32" for x
    using that(1) [rule_format, of x] that(2) by simp
  moreover have "P (x + 32) (in_words x ws)" if "\<forall>x. P x (in_words x (w # ws))" for x
    using that [rule_format, of "x + 32"] by simp
  ultimately show ?thesis by blast
qed

lemma word_zero_bits: "w = 0 \<longleftrightarrow> (\<forall>n<32. \<not> bit w n)" for w :: bitmapword
  using bit_word_eqI [of w 0] by auto

lemma word_eq_bits: "w = v \<longleftrightarrow> (\<forall>n<32. bit w n = bit v n)" for w v :: bitmapword
  using bit_word_eqI [of w v] by auto

lemma words_zero_in: "words_zero ws \<longleftrightarrow> (\<forall>x. \<not> in_words x ws)"
  by (induction ws) (simp_all add: all_in_words_Cons [where P = "\<lambda>_ b. \<not> b"] word_zero_bits del: in_words.simps(2))

lemma in_or_words: "length ys \<le> length xs \<Longrightarrow> in_words x (or_words xs ys) \<longleftrightarrow> in_words x xs \<or> in_words x ys"
  by (induction xs ys arbitrary: x rule: or_words.induct) (auto simp: bit_or_iff)

lemma in_and_words: "length xs \<le> length ys \<Longrightarrow> in_words x (and_words xs ys) \<longleftrightarrow> in_words x xs \<and> in_words x ys"
  by (induction xs ys arbitrary: x rule: and_words.induct) (auto simp: bit_and_iff)

lemma in_and_zero_words: "in_words x (and_zero_words xs ys) \<longleftrightarrow> in_words x xs \<and> in_words x ys"
  by (induction xs ys arbitrary: x rule: and_zero_words.induct) (auto simp: bit_and_iff)

lemma in_minus_words: "in_words x (minus_words xs ys) \<longleftrightarrow> in_words x xs \<and> \<not> in_words x ys"
  by (induction xs ys arbitrary: x rule: minus_words.induct) (auto simp: bit_and_iff bit_not_iff)

lemma words_equal_in: "length xs \<le> length ys \<Longrightarrow> words_equal xs ys \<longleftrightarrow> (\<forall>x. in_words x xs = in_words x ys)"
proof (induction xs ys rule: words_equal.induct)
  case (2 s ss l ls)
  have "(\<forall>x. in_words x (s # ss) = in_words x (l # ls)) \<longleftrightarrow> s = l \<and> (\<forall>x. in_words x ss = in_words x ls)"
    by (subst all_in_words_Cons [where P = "\<lambda>x b. b = in_words x (l # ls)"]) (simp add: word_eq_bits)
  with 2 show ?case by simp
qed (simp_all add: words_zero_in)

lemma subset_words_in: "subset_words xs ys \<longleftrightarrow> (\<forall>x. in_words x xs \<longrightarrow> in_words x ys)"
proof (induction xs ys rule: subset_words.induct)
  case (1 x xs y ys)
  have "(\<forall>n. in_words n (x # xs) \<longrightarrow> in_words n (y # ys)) \<longleftrightarrow> x AND NOT y = 0 \<and> (\<forall>n. in_words n xs \<longrightarrow> in_words n ys)"
    by (subst all_in_words_Cons [where P = "\<lambda>n b. b \<longrightarrow> in_words n (y # ys)"]) (simp add: word_zero_bits bit_simps)
  with 1 show ?case by simp
qed (simp_all add: words_zero_in)

lemma overlap_words_in: "overlap_words xs ys \<longleftrightarrow> (\<exists>x. in_words x xs \<and> in_words x ys)"
proof (induction xs ys rule: overlap_words.induct)
  case (1 x xs y ys)
  have "(\<forall>n. \<not> (in_words n (x # xs) \<and> in_words n (y # ys))) \<longleftrightarrow> x AND y = 0 \<and> (\<forall>n. \<not> (in_words n xs \<and> in_words n ys))"
    by (subst all_in_words_Cons [where P = "\<lambda>n b. \<not> (b \<and> in_words n (y # ys))"]) (simp add: word_zero_bits bit_simps)
  then have "(\<exists>n. in_words n (x # xs) \<and> in_words n (y # ys)) \<longleftrightarrow> x AND y \<noteq> 0 \<or> (\<exists>n. in_words n xs \<and> in_words n ys)" by blast
  with 1 show ?case by (simp del: in_words.simps)
qed simp_all

lemma differ_words_Nil: "differ_words xs [] \<longleftrightarrow> \<not> words_zero xs"
  by (induction xs) auto

lemma differ_words_in: "differ_words xs ys \<longleftrightarrow> \<not> subset_words xs ys"
  by (induction xs ys rule: subset_words.induct) (auto simp: differ_words_Nil)

text \<open>Single members.\<close>

lemma WORDNUM_nat: "WORDNUM (int x) = x div 32" "BITNUM (int x) = x mod 32"
  by (simp_all add: WORDNUM_def BITNUM_def BITS_PER_BITMAPWORD_def nat_div_distrib nat_mod_distrib)

lemma bit_single: "bit (2 ^ k :: bitmapword) n \<longleftrightarrow> n = k \<and> k < 32"
  by (auto simp: bit_exp_iff)

lemma and_single: "w AND 2 ^ k \<noteq> 0 \<longleftrightarrow> bit w k" for w :: bitmapword
proof -
  have "w AND 2 ^ k \<noteq> 0 \<longleftrightarrow> (\<exists>n. bit w n \<and> n = k \<and> k < 32)"
    by (simp add: word_has_bit bit_and_iff bit_single)
  then show ?thesis using bit_imp_le_length [of w k] by auto
qed

lemma in_words_update:
  "i < length ws \<Longrightarrow> in_words x (ws[i := w]) \<longleftrightarrow> (if x div 32 = i then bit w (x mod 32) else in_words x ws)"
  by (auto simp: in_words_nth nth_list_update)

lemma in_words_zeros [simp]: "\<not> in_words x (replicate n 0)"
  by (simp add: in_words_nth)

lemma div_mod_eq: "x div 32 = y div 32 \<and> x mod 32 = y mod 32 \<longleftrightarrow> x = y" for x y :: nat
  by (metis div_mult_mod_eq)

lemma make_singleton_members: "bms_make_singleton (int x) = Inr s \<Longrightarrow> members s = {x} \<and> (\<exists>ws. s = Some ws \<and> length ws = x div 32 + 1)"
proof -
  assume "bms_make_singleton (int x) = Inr s"
  define ws :: "bitmapword list" where "ws = (replicate (x div 32 + 1) 0)[x div 32 := 2 ^ (x mod 32)]"
  have s: "s = Some ws" using \<open>bms_make_singleton (int x) = Inr s\<close> unfolding bms_make_singleton_def WORDNUM_nat ws_def by auto
  have "in_words y ws \<longleftrightarrow> y = x" for y
    using div_mod_eq [of y x] unfolding ws_def by (subst in_words_update) (auto simp: bit_single simp del: replicate_Suc)
  moreover have "length ws = x div 32 + 1" unfolding ws_def by (simp del: replicate_Suc)
  ultimately show ?thesis using s by auto
qed

lemma add_member_members: "bms_add_member a (int x) = Inr s \<Longrightarrow> members s = insert x (members a)"
proof (cases a)
  case None
  assume "bms_add_member a (int x) = Inr s"
  with None have "bms_make_singleton (int x) = Inr s" by (simp add: bms_add_member_def)
  from make_singleton_members [OF this] None show ?thesis by simp
next
  case (Some ws)
  assume add: "bms_add_member a (int x) = Inr s"
  show ?thesis
  proof (cases "x div 32 < length ws")
    case True
    with add Some have "s = Some (ws[x div 32 := ws ! (x div 32) OR 2 ^ (x mod 32)])"
      by (simp add: bms_add_member_def WORDNUM_nat)
    moreover have "in_words y (ws[x div 32 := ws ! (x div 32) OR 2 ^ (x mod 32)]) \<longleftrightarrow> y = x \<or> in_words y ws" for y
      using True div_mod_eq [of y x] by (subst in_words_update) (auto simp: bit_or_iff bit_single in_words_nth)
    ultimately show ?thesis using Some by auto
  next
    case False
    obtain r where r: "bms_make_singleton (int x) = Inr r" by (simp add: bms_make_singleton_def)
    from make_singleton_members [OF r] obtain rs where rs: "r = Some rs" "length rs = x div 32 + 1" "members (Some rs) = {x}" by auto
    have "s = Some (or_words rs ws)" using add Some False r rs(1) by (simp add: bms_add_member_def WORDNUM_nat)
    with rs Some False in_or_words [of ws rs] show ?thesis by auto
  qed
qed

lemma del_member_members: "bms_del_member a (int x) = Inr s \<Longrightarrow> members s = members a - {x}"
proof (cases a)
  case (Some ws)
  assume del: "bms_del_member a (int x) = Inr s"
  show ?thesis
  proof (cases "x div 32 < length ws")
    case True
    with del Some have "s = Some (ws[x div 32 := ws ! (x div 32) AND NOT (2 ^ (x mod 32))])"
      by (simp add: bms_del_member_def WORDNUM_nat)
    moreover have "in_words y (ws[x div 32 := ws ! (x div 32) AND NOT (2 ^ (x mod 32))]) \<longleftrightarrow> y \<noteq> x \<and> in_words y ws" for y
      using True div_mod_eq [of y x]
      by (subst in_words_update) (auto simp: bit_and_iff bit_not_iff bit_single in_words_nth)
    ultimately show ?thesis using Some by auto
  next
    case False
    with del Some have "s = a" by (simp add: bms_del_member_def WORDNUM_nat)
    with Some False show ?thesis by (auto simp: in_words_nth)
  qed
qed (simp add: bms_del_member_def)

section \<open>Counting\<close>

lemma in_words_set_Cons: "{x. in_words x (w # ws)} = {n. bit w n} \<union> (\<lambda>x. x + 32) ` {x. in_words x ws}"
proof -
  have "in_words x (w # ws) \<longleftrightarrow> bit w x \<or> (\<exists>y. in_words y ws \<and> x = y + 32)" for x
    using bit_imp_le_length [of w x] by (auto intro: exI [of _ "x - 32"])
  then show ?thesis by (auto simp del: in_words.simps)
qed

lemma finite_bits [simp]: "finite {n. bit w n}" for w :: bitmapword
  by (rule finite_subset [of _ "{..<32}"]) (auto dest: bit_imp_le_length)

lemma finite_in_words [simp]: "finite {x. in_words x ws}"
  by (induction ws) (simp_all add: in_words_set_Cons del: in_words.simps(2))

lemma card_in_words_Cons: "card {x. in_words x (w # ws)} = popcount w + card {x. in_words x ws}"
proof -
  have "card ({n. bit w n} \<union> (\<lambda>x. x + 32) ` {x. in_words x ws}) = card {n. bit w n} + card ((\<lambda>x. x + 32) ` {x. in_words x ws})"
    by (rule card_Un_disjoint) (auto dest: bit_imp_le_length)
  moreover have "card ((\<lambda>x. x + 32) ` {x. in_words x ws}) = card {x. in_words x ws}" by (rule card_image) simp
  ultimately show ?thesis by (simp only: in_words_set_Cons popcount_def)
qed

lemma popcount_pos: "w \<noteq> 0 \<longleftrightarrow> 0 < popcount w"
  by (simp add: popcount_def card_gt_0_iff word_has_bit)

lemma popcount_multiple: "w \<noteq> 0 \<Longrightarrow> HAS_MULTIPLE_ONES w \<longleftrightarrow> popcount w \<noteq> 1"
  unfolding popcount_def HAS_MULTIPLE_ONES_bits
  by (metis card_1_singletonE is_singletonI is_singleton_altdef lowest_bit mem_Collect_eq singletonD)

lemma num_members_loop: "fold ones_loop ws r = r + int (card {x. in_words x ws})"
proof (induction ws arbitrary: r)
  case (Cons w ws)
  then show ?case using card_in_words_Cons [of w ws] by (simp add: ones_loop_popcount del: in_words.simps)
qed simp

fun classify :: "nat \<Rightarrow> BMS_Membership" where
  "classify 0 = BMS_EMPTY_SET"
| "classify (Suc 0) = BMS_SINGLETON"
| "classify (Suc (Suc _)) = BMS_MULTIPLE"

lemma classify_multiple: "2 \<le> n \<Longrightarrow> classify n = BMS_MULTIPLE"
  by (cases n rule: classify.cases) auto

lemma membership_loop_card: "k < 2 \<Longrightarrow> membership_loop ws (classify k) = classify (k + card {x. in_words x ws})"
proof (induction ws arbitrary: k)
  case (Cons w ws)
  note c = card_in_words_Cons [of w ws]
  show ?case
  proof (cases "w = 0 \<or> k = 0 \<and> \<not> HAS_MULTIPLE_ONES w")
    case True
    then have p: "k + popcount w < 2" "membership_loop (w # ws) (classify k) = membership_loop ws (classify (k + popcount w))"
      using popcount_multiple [of w] popcount_pos [of w] Cons.prems by auto
    then show ?thesis using Cons.IH [OF p(1)] c by (simp add: add.assoc del: in_words.simps)
  next
    case False
    then have "2 \<le> k + popcount w" using popcount_multiple [of w] popcount_pos [of w] by fastforce
    moreover have "membership_loop (w # ws) (classify k) = BMS_MULTIPLE" using False Cons.prems by (cases k rule: classify.cases) auto
    ultimately show ?thesis using c by (simp add: classify_multiple del: in_words.simps)
  qed
qed simp

text \<open>The sole member.\<close>

lemma singleton_loop_found:
  "0 \<le> r \<Longrightarrow> singleton_loop ws k r =
     Some (if {x. in_words x ws} = {} then Inr r else Inl (ERROR ''bitmapset has multiple members''))"
proof (induction ws arbitrary: k)
  case (Cons w ws)
  then show ?case using in_words_set_Cons [of w ws] word_has_bit [of w] by (auto simp del: in_words.simps(2))
qed simp

lemma singleton_loop_spec:
  assumes "0 \<le> k" and "r < 0"
  shows "singleton_loop ws k r = Some (if {x. in_words x ws} = {} then Inl (ERROR ''bitmapset is empty'')
    else if card {x. in_words x ws} = 1 then Inr (k * 32 + int (Min {x. in_words x ws}))
    else Inl (ERROR ''bitmapset has multiple members''))"
  using assms(1)
proof (induction ws arbitrary: k)
  case Nil
  with assms(2) show ?case by simp
next
  case (Cons w ws)
  let ?A = "{x. in_words x (w # ws)}" and ?B = "{x. in_words x ws}"
  note c = card_in_words_Cons [of w ws] and A = in_words_set_Cons [of w ws]
  show ?case
  proof (cases "w = 0")
    case True
    then have A': "?A = (\<lambda>x. x + 32) ` ?B" "card ?A = card ?B" using A c popcount_pos [of w] by auto
    have "Min ?A = Min ?B + 32" if "?B \<noteq> {}"
      unfolding A'(1) using that by (intro hom_Min_commute [symmetric]) auto
    with Cons.IH [of "k + 1"] Cons.prems True A' show ?thesis by (auto simp del: in_words.simps(2))
  next
    case False
    show ?thesis
    proof (cases "HAS_MULTIPLE_ONES w")
      case True
      have n: "popcount w \<noteq> 1" "0 < popcount w" using True False popcount_multiple [OF False] popcount_pos [of w] by auto
      have "{n. bit w n} \<noteq> {}" using False word_has_bit [of w] by simp
      then have "?A \<noteq> {}" unfolding A by blast
      moreover have "card ?A \<noteq> 1" using c n by linarith
      ultimately have ne: "?A \<noteq> {}" "card ?A \<noteq> 1" .
      with True False show ?thesis by (simp del: in_words.simps(2))
    next
      case single: False
      have bits: "{n. bit w n} = {lowest w}" using single HAS_MULTIPLE_ONES_bits [OF False] by simp
      have one: "popcount w = 1" using single popcount_multiple [OF False] by simp
      have "singleton_loop (w # ws) k r = singleton_loop ws (k + 1) (k * 32 + int (lowest w))"
        using False single assms(2) by (simp add: low_bit_loop_lowest BITS_PER_BITMAPWORD_def)
      also have "\<dots> = Some (if ?B = {} then Inr (k * 32 + int (lowest w)) else Inl (ERROR ''bitmapset has multiple members''))"
        by (rule singleton_loop_found) (use Cons.prems in simp)
      finally show ?thesis using A bits c one by (auto simp del: in_words.simps(2) singleton_loop.simps)
    qed
  qed
qed

section \<open>The first member\<close>

lemma first_member_loop_spec:
  assumes "0 \<le> k"
  shows "\<exists>ws'. length ws' = length ws \<and>
    (if {x. in_words x ws} = {} then first_member_loop ws k = Some (-1, ws') \<and> ws' = ws
     else first_member_loop ws k = Some (k * 32 + int (Min {x. in_words x ws}), ws') \<and>
       {x. in_words x ws'} = {x. in_words x ws} - {Min {x. in_words x ws}})"
  using assms
proof (induction ws arbitrary: k)
  case (Cons w ws)
  let ?A = "{x. in_words x (w # ws)}" and ?B = "{x. in_words x ws}"
  note A = in_words_set_Cons [of w ws]
  show ?case
  proof (cases "w = 0")
    case True
    then have A': "?A = (\<lambda>x. x + 32) ` ?B" using A word_has_bit [of w] by auto
    have min: "Min ?A = Min ?B + 32" if "?B \<noteq> {}"
      unfolding A' using that by (intro hom_Min_commute [symmetric]) auto
    from Cons.IH [of "k + 1"] Cons.prems obtain ws' where ws': "length ws' = length ws"
      "if ?B = {} then first_member_loop ws (k + 1) = Some (-1, ws') \<and> ws' = ws
       else first_member_loop ws (k + 1) = Some ((k + 1) * 32 + int (Min ?B), ws') \<and> {x. in_words x ws'} = ?B - {Min ?B}" by auto
    have W: "{x. in_words x (w # ws')} = (\<lambda>x. x + 32) ` {x. in_words x ws'}"
      using in_words_set_Cons [of w ws'] True word_has_bit [of w] by auto
    show ?thesis
    proof (cases "?B = {}")
      case True
      with ws' A' \<open>w = 0\<close> show ?thesis by (intro exI [of _ "w # ws'"]) (auto simp del: in_words.simps(2))
    next
      case False
      then have "{x. in_words x (w # ws')} = ?A - {Min ?A}" unfolding W min [OF False] using ws'(2) A' by auto
      with False ws' A' min [OF False] \<open>w = 0\<close> show ?thesis
        by (intro exI [of _ "w # ws'"]) (auto simp del: in_words.simps(2))
    qed
  next
    case False
    let ?low = "RIGHTMOST_ONE w"
    have low: "?low = 2 ^ lowest w" using RIGHTMOST_ONE_lowest [OF False] by simp
    have bit_low: "bit ?low n \<longleftrightarrow> n = lowest w" for n using lowest_bound [OF False] by (auto simp: low bit_single)
    have "?low \<noteq> 0" using bit_low word_has_bit [of ?low] by blast
    moreover have "lowest ?low = lowest w" by (rule lowest_eqI) (simp_all add: bit_low)
    ultimately have loop: "first_member_loop (w # ws) k = Some (k * 32 + int (lowest w), (w AND NOT ?low) # ws)"
      using False by (simp add: low_bit_loop_lowest BITS_PER_BITMAPWORD_def)
    have min: "Min ?A = lowest w"
    proof (rule Min_eqI)
      show "lowest w \<in> ?A" unfolding A using lowest_bit [OF False] by simp
      show "lowest w \<le> y" if "y \<in> ?A" for y
        using that lowest_least [of w y] lowest_bound [OF False] unfolding A by auto
    qed (rule finite_in_words)
    have "bit (w AND NOT ?low) n \<longleftrightarrow> bit w n \<and> n \<noteq> lowest w" for n
      using bit_imp_le_length [of w n] by (auto simp: bit_and_iff bit_not_iff bit_low)
    then have "{n. bit (w AND NOT ?low) n} = {n. bit w n} - {lowest w}" by auto
    moreover have "lowest w \<notin> (\<lambda>x. x + 32) ` ?B" using lowest_bound [OF False] by auto
    ultimately have "{x. in_words x ((w AND NOT ?low) # ws)} = ?A - {lowest w}"
      unfolding in_words_set_Cons by auto
    moreover have "?A \<noteq> {}" unfolding A using lowest_bit [OF False] by auto
    ultimately show ?thesis using loop min
      by (intro exI [of _ "(w AND NOT ?low) # ws"]) (auto simp del: in_words.simps(2) first_member_loop.simps(2))
  qed
qed simp

lemma finite_members [simp]: "finite (members a)"
  by (cases a) auto

lemma first_member_spec:
  "if members a = {} then bms_first_member a = Some (-1, a)
   else \<exists>a'. bms_first_member a = Some (int (Min (members a)), a') \<and> members a' = members a - {Min (members a)}"
proof (cases a)
  case (Some ws)
  from first_member_loop_spec [OF order_refl, of ws] obtain ws' where
    "if {x. in_words x ws} = {} then first_member_loop ws 0 = Some (-1, ws') \<and> ws' = ws
     else first_member_loop ws 0 = Some (0 * 32 + int (Min {x. in_words x ws}), ws') \<and>
       {x. in_words x ws'} = {x. in_words x ws} - {Min {x. in_words x ws}}" by blast
  with Some show ?thesis by (cases "{x. in_words x ws} = {}") (simp_all add: bms_first_member_def)
qed (simp add: bms_first_member_def)

text \<open>Going through a set as the comment of \<^verbatim>\<open>bms_first_member\<close> recommends.\<close>

partial_function (option) bms_iterate :: "Bitmapset \<Rightarrow> int list option" where
  "bms_iterate a = Option.bind (bms_first_member a) (\<lambda>(x, a).
     if x \<ge> 0 then Option.bind (bms_iterate a) (\<lambda>xs. Some (x # xs)) else Some [])"

lemma bms_iterate_members: "bms_iterate a = Some (map int (sorted_list_of_set (members a)))"
proof (induction "card (members a)" arbitrary: a rule: less_induct)
  case less
  show ?case
  proof (cases "members a = {}")
    case True
    with first_member_spec [of a] show ?thesis by (subst bms_iterate.simps) simp
  next
    case False
    let ?m = "Min (members a)"
    from first_member_spec [of a] False obtain a' where
      a': "bms_first_member a = Some (int ?m, a')" "members a' = members a - {?m}" by auto
    have "card (members a') < card (members a)" unfolding a'(2) using False by (intro card_Diff1_less) auto
    from less [OF this] a'(1) have "bms_iterate a = Some (map int (?m # sorted_list_of_set (members a - {?m})))"
      by (subst bms_iterate.simps) (simp add: a'(2))
    then show ?thesis using False by (subst sorted_list_of_set_nonempty) auto
  qed
qed

section \<open>Hashing\<close>

definition strip :: "bitmapword list \<Rightarrow> bitmapword list" where
  "strip ws = rev (dropWhile (\<lambda>w. w = 0) (rev ws))"

lemma strip_snoc [simp]: "strip [] = []" "strip (ws @ [w]) = (if w = 0 then strip ws else ws @ [w])"
  by (simp_all add: strip_def)

lemma strip_zeros [simp]: "strip (ws @ replicate n 0) = strip ws"
  by (induction n arbitrary: ws) (simp_all flip: replicate_append_same append_assoc del: append_assoc)

lemma lastword_strip:
  "n \<le> length ws \<Longrightarrow> take (nat (lastword_loop ws n + 1)) ws = strip (take n ws) \<and> -1 \<le> lastword_loop ws n \<and>
   (lastword_loop ws n < 0 \<longleftrightarrow> strip (take n ws) = [])"
proof (induction n)
  case (Suc n)
  then have "take (Suc n) ws = take n ws @ [ws ! n]" by (simp add: take_Suc_conv_app_nth)
  with Suc show ?case by (auto simp: nat_add_distrib)
qed simp

lemma hash_value_strip:
  "bms_hash_value big aligned (Some ws) = (if strip ws = [] then 0 else hash_any big aligned (concat (map (store_word big) (strip ws))))"
  using lastword_strip [of "length ws" ws] by (simp add: bms_hash_value_def Let_def)

lemma words_equal_append: "words_equal xs ys \<Longrightarrow> length xs \<le> length ys \<Longrightarrow> \<exists>n. ys = xs @ replicate n 0"
proof (induction xs ys rule: words_equal.induct)
  case (1 longer)
  have "words_zero ws \<Longrightarrow> ws = replicate (length ws) 0" for ws by (induction ws) (auto split: if_splits)
  with 1 show ?case by auto
qed (auto split: if_splits)

lemma words_zero_strip: "words_zero ws \<longleftrightarrow> strip ws = []"
proof -
  have "words_zero ws \<longleftrightarrow> (\<forall>w\<in>set ws. w = 0)" by (induction ws) auto
  then show ?thesis by (simp add: strip_def dropWhile_eq_Nil_conv)
qed

section \<open>Properties\<close>

text \<open>
  C21: the operations on bitmap sets are the operations on sets of numbers, whatever
  number of words the arguments have and whether they are \<^verbatim>\<open>NULL\<close> or not: copy, union,
  intersection, difference, their variants that recycle an argument, and adding and
  removing a member; to make, add or remove a negative member is an error.
\<close>

theorem bms_refines_sets:
  "members (bms_copy a) = members a \<and>
   members (bms_union a b) = members a \<union> members b \<and> members (bms_add_members a b) = members a \<union> members b \<and>
   members (bms_join a b) = members a \<union> members b \<and>
   members (bms_intersect a b) = members a \<inter> members b \<and> members (bms_int_members a b) = members a \<inter> members b \<and>
   members (bms_difference a b) = members a - members b \<and> members (bms_del_members a b) = members a - members b \<and>
   (\<exists>s. bms_make_singleton (int x) = Inr s \<and> members s = {x}) \<and>
   (\<exists>s. bms_add_member a (int x) = Inr s \<and> members s = insert x (members a)) \<and>
   (\<exists>s. bms_del_member a (int x) = Inr s \<and> members s = members a - {x}) \<and>
   bms_make_singleton (-1 - int x) = Inl (ERROR ''negative bitmapset member not allowed'') \<and>
   bms_add_member a (-1 - int x) = Inl (ERROR ''negative bitmapset member not allowed'') \<and>
   bms_del_member a (-1 - int x) = Inl (ERROR ''negative bitmapset member not allowed'')"
proof -
  have neg: "bms_make_singleton (-1 - int x) = Inl (ERROR ''negative bitmapset member not allowed'')"
    "bms_add_member a (-1 - int x) = Inl (ERROR ''negative bitmapset member not allowed'')"
    "bms_del_member a (-1 - int x) = Inl (ERROR ''negative bitmapset member not allowed'')"
    by (simp_all add: bms_make_singleton_def bms_add_member_def bms_del_member_def)
  obtain s where s: "bms_make_singleton (int x) = Inr s" by (simp add: bms_make_singleton_def)
  obtain t where t: "bms_add_member a (int x) = Inr t"
    using s by (cases a; cases "WORDNUM (int x) \<ge> length (the a)") (auto simp: bms_add_member_def)
  obtain d where d: "bms_del_member a (int x) = Inr d"
    by (cases a; cases "WORDNUM (int x) < length (the a)") (auto simp: bms_del_member_def)
  have "members (bms_copy a) = members a" "members (bms_copy b) = members b" by (cases a; cases b; simp add: bms_copy_def)+
  then show ?thesis unfolding neg using s t d make_singleton_members [OF s] add_member_members [OF t] del_member_members [OF d]
    by (cases a; cases b)
      (auto simp: bms_union_def bms_add_members_def bms_join_def bms_intersect_def bms_int_members_def
        bms_difference_def bms_del_members_def in_or_words in_and_words in_and_zero_words in_minus_words)
qed

text \<open>
  C23: the tests on bitmap sets decide what their names say: equality, inclusion, overlap,
  nonempty difference, emptiness, membership of a number, the number of members, and
  whether there are none, one or more.
\<close>

theorem bms_tests_decide:
  "(bms_equal a b \<longleftrightarrow> members a = members b) \<and> (bms_is_subset a b \<longleftrightarrow> members a \<subseteq> members b) \<and>
   (bms_overlap a b \<longleftrightarrow> members a \<inter> members b \<noteq> {}) \<and> (bms_nonempty_difference a b \<longleftrightarrow> members a - members b \<noteq> {}) \<and>
   (bms_is_empty a \<longleftrightarrow> members a = {}) \<and> bms_is_member (int x) a = Inr (x \<in> members a) \<and>
   bms_num_members a = int (card (members a)) \<and> bms_membership a = classify (card (members a))"
proof -
  have empty: "bms_is_empty c \<longleftrightarrow> members c = {}" for c by (cases c) (auto simp: bms_is_empty_def words_zero_in)
  have "bms_equal a b \<longleftrightarrow> members a = members b"
    by (cases a; cases b) (auto simp: bms_equal_def empty words_equal_in)
  moreover have "bms_is_subset a b \<longleftrightarrow> members a \<subseteq> members b"
    by (cases a; cases b) (auto simp: bms_is_subset_def empty subset_words_in)
  moreover have "bms_overlap a b \<longleftrightarrow> members a \<inter> members b \<noteq> {}"
    by (cases a; cases b) (auto simp: bms_overlap_def overlap_words_in)
  moreover have "bms_nonempty_difference a b \<longleftrightarrow> members a - members b \<noteq> {}"
    by (cases a; cases b) (auto simp: bms_nonempty_difference_def empty differ_words_in subset_words_in)
  moreover have "bms_is_member (int x) a = Inr (x \<in> members a)"
    by (cases a) (auto simp: bms_is_member_def WORDNUM_nat in_words_nth and_single)
  moreover have "bms_num_members a = int (card (members a))"
    by (cases a) (simp_all add: bms_num_members_def num_members_loop)
  moreover have "bms_membership a = classify (card (members a))"
    using membership_loop_card [of 0] by (cases a) (simp_all add: bms_membership_def)
  ultimately show ?thesis using empty by blast
qed

text \<open>
  C26: going through a set with \<^verbatim>\<open>bms_first_member\<close> until it returns a negative number
  ends, and gives every member once, in increasing order.
\<close>

theorem bms_first_member_enumerates: "bms_iterate a = Some (map int (sorted_list_of_set (members a)))"
  by (rule bms_iterate_members)

text \<open>
  C27: \<^verbatim>\<open>bms_singleton_member\<close> always returns; it gives the only member of a set that has
  one, and the error for empty sets or for larger sets otherwise.
\<close>

theorem bms_singleton_member_correct:
  "bms_singleton_member a = Some (if members a = {} then Inl (ERROR ''bitmapset is empty'')
     else if card (members a) = 1 then Inr (int (Min (members a)))
     else Inl (ERROR ''bitmapset has multiple members''))"
  by (cases a) (simp_all add: bms_singleton_member_def singleton_loop_spec)

text \<open>
  C28: sets that \<^verbatim>\<open>bms_equal\<close> takes for equal have the same hash value, on machines of
  either byte order.
\<close>

theorem bms_hash_respects_equal:
  assumes "bms_equal a b"
  shows "bms_hash_value big aligned a = bms_hash_value big aligned b"
proof -
  have eq: "words_equal xs ys \<Longrightarrow> length xs \<le> length ys \<Longrightarrow> strip xs = strip ys" for xs ys
    using words_equal_append [of xs ys] by auto
  show ?thesis
  proof (cases a; cases b)
    fix xs ys assume "a = Some xs" "b = Some ys"
    with assms eq [of xs ys] eq [of ys xs] show ?thesis
      by (auto simp: bms_equal_def hash_value_strip split: if_splits)
  qed (use assms in \<open>auto simp: bms_equal_def bms_is_empty_def hash_value_strip words_zero_strip bms_hash_value_def [of _ _ None]\<close>)
qed

theorem bms_hash_respects_equal_witness:
  "bms_equal (Some [5, 0]) (Some [5]) \<and> bms_hash_value False True (Some [5, 0]) = bms_hash_value False True (Some [5])"
proof -
  have "bms_equal (Some [5, 0]) (Some [5])" by (simp add: bms_equal_def)
  from this bms_hash_respects_equal [OF this] show ?thesis by blast
qed

end
