(* ===== verification/PgList.thy ===== *)
theory PgList
  imports Prelude
begin

text \<open>
  The linked lists of \<^verbatim>\<open>backend/nodes/list.c\<close> in a store: list headers and cells have
  addresses, \<^verbatim>\<open>palloc\<close> gives a new address and \<^verbatim>\<open>pfree\<close> takes one back, and using an
  address that is not allocated is an error. A loop that follows the links of a list may
  not end, so a routine with such a loop has an optional result.
\<close>

section \<open>The store\<close>

datatype NodeTag = T_List | T_IntList | T_OidList

text \<open>
  The union of a cell's data; \<open>unset\<close> is what \<^verbatim>\<open>palloc\<close> leaves in a new cell. Lengths are
  unbounded: a list of \<open>2 ^ 31\<close> cells is out of reach of the callers.
\<close>

datatype 'p cell_data = unset | ptr_value 'p | int_value int | oid_value "32 word"

record 'p ListCell =
  data :: "'p cell_data"
  next_cell :: "nat option"

record List_header =
  list_type :: NodeTag
  llength :: int
  head_cell :: "nat option"
  tail_cell :: "nat option"

record 'p store =
  cells :: "nat \<Rightarrow> 'p ListCell option"
  headers :: "nat \<Rightarrow> List_header option"
  next_addr :: nat
  freed_data :: "'p cell_data list"

type_synonym List_ptr = "nat option"

text \<open>Reading and writing through a pointer.\<close>

definition cell_at :: "'p store \<Rightarrow> nat option \<Rightarrow> pg_error + 'p ListCell" where
  "cell_at h p = (case Option.bind p (cells h) of None \<Rightarrow> Inl wild | Some c \<Rightarrow> Inr c)"

definition header_at :: "'p store \<Rightarrow> List_ptr \<Rightarrow> pg_error + List_header" where
  "header_at h l = (case Option.bind l (headers h) of None \<Rightarrow> Inl wild | Some r \<Rightarrow> Inr r)"

definition set_cell :: "nat option \<Rightarrow> 'p ListCell \<Rightarrow> 'p store \<Rightarrow> 'p store" where
  "set_cell p c h = (case p of None \<Rightarrow> h | Some a \<Rightarrow> h\<lparr>cells := (cells h)(a \<mapsto> c)\<rparr>)"

definition set_header :: "List_ptr \<Rightarrow> List_header \<Rightarrow> 'p store \<Rightarrow> 'p store" where
  "set_header l r h = (case l of None \<Rightarrow> h | Some a \<Rightarrow> h\<lparr>headers := (headers h)(a \<mapsto> r)\<rparr>)"

definition palloc_cell :: "'p ListCell \<Rightarrow> 'p store \<Rightarrow> nat option \<times> 'p store" where
  "palloc_cell c h = (Some (next_addr h), h\<lparr>cells := (cells h)(next_addr h \<mapsto> c), next_addr := next_addr h + 1\<rparr>)"

definition palloc_header :: "List_header \<Rightarrow> 'p store \<Rightarrow> nat option \<times> 'p store" where
  "palloc_header r h = (Some (next_addr h), h\<lparr>headers := (headers h)(next_addr h \<mapsto> r), next_addr := next_addr h + 1\<rparr>)"

definition pfree_cell :: "nat option \<Rightarrow> 'p store \<Rightarrow> pg_error + 'p store" where
  "pfree_cell p h = bindE (cell_at h p) (\<lambda>_. Inr (h\<lparr>cells := (cells h)(the p := None)\<rparr>))"

definition pfree_header :: "List_ptr \<Rightarrow> 'p store \<Rightarrow> pg_error + 'p store" where
  "pfree_header l h = bindE (header_at h l) (\<lambda>_. Inr (h\<lparr>headers := (headers h)(the l := None)\<rparr>))"

text \<open>Sequencing for routines that may also not return.\<close>

definition bindO :: "('e + 'a) option \<Rightarrow> ('a \<Rightarrow> ('e + 'b) option) \<Rightarrow> ('e + 'b) option" where
  "bindO m f = Option.bind m (case_sum (\<lambda>e. Some (Inl e)) f)"

lemma bindO_simps [simp]:
  "bindO (Some (Inl e)) f = Some (Inl e)" "bindO (Some (Inr x)) f = f x" "bindO None f = None"
  by (simp_all add: bindO_def)

lemma bindO_mono [partial_function_mono]:
  assumes "mono_option B" "\<And>y. mono_option (\<lambda>f. C y f)"
  shows "mono_option (\<lambda>f. bindO (B f) (\<lambda>y. C y f))"
  unfolding bindO_def
proof (rule Partial_Function.bind_mono [OF assms(1)])
  show "mono_option (\<lambda>f. case_sum (\<lambda>e. Some (Inl e)) (\<lambda>y. C y f) y)" for y
    using assms(2) by (cases y) (auto intro: partial_function_mono)
qed

section \<open>Simple routines\<close>

definition list_head :: "'p store \<Rightarrow> List_ptr \<Rightarrow> pg_error + nat option" where
  "list_head h l = (if l = None then Inr None else bindE (header_at h l) (\<lambda>r. Inr (head_cell r)))"

definition list_tail :: "'p store \<Rightarrow> List_ptr \<Rightarrow> pg_error + nat option" where
  "list_tail h l = (if l = None then Inr None else bindE (header_at h l) (\<lambda>r. Inr (tail_cell r)))"

definition list_length :: "'p store \<Rightarrow> List_ptr \<Rightarrow> pg_error + int" where
  "list_length h l = (if l = None then Inr 0 else bindE (header_at h l) (\<lambda>r. Inr (llength r)))"

definition check_list_invariants :: "List_ptr \<Rightarrow> 'p store \<Rightarrow> pg_error + unit" where
  "check_list_invariants l h =
     (if l = None then Inr ()
      else bindE (header_at h l) (\<lambda>r.
        if \<not> llength r > 0 then Inl (TRAP ''list->length > 0'')
        else if head_cell r = None then Inl (TRAP ''list->head != NULL'')
        else if tail_cell r = None then Inl (TRAP ''list->tail != NULL'')
        else if llength r = 1 \<and> head_cell r \<noteq> tail_cell r then Inl (TRAP ''list->head == list->tail'')
        else bindE (if llength r = 2 then bindE (cell_at h (head_cell r)) (\<lambda>c. Inr (next_cell c = tail_cell r)) else Inr True)
          (\<lambda>ok. if \<not> ok then Inl (TRAP ''list->head->next == list->tail'')
            else bindE (cell_at h (tail_cell r)) (\<lambda>c.
              if next_cell c \<noteq> None then Inl (TRAP ''list->tail->next == NULL'') else Inr ()))))"

text \<open>\<^verbatim>\<open>IsPointerList\<close>, \<^verbatim>\<open>IsIntegerList\<close> and \<^verbatim>\<open>IsOidList\<close>: no list or one of the type.\<close>

definition IsListOf :: "NodeTag \<Rightarrow> List_ptr \<Rightarrow> 'p store \<Rightarrow> pg_error + unit" where
  "IsListOf t l h =
     (if l = None then Inr ()
      else bindE (header_at h l) (\<lambda>r. if list_type r = t then Inr () else Inl (TRAP ''list type'')))"

definition set_cell_data :: "nat option \<Rightarrow> 'p cell_data \<Rightarrow> 'p store \<Rightarrow> pg_error + 'p store" where
  "set_cell_data p d h = bindE (cell_at h p) (\<lambda>c. Inr (set_cell p (c\<lparr>data := d\<rparr>) h))"

definition set_cell_next :: "nat option \<Rightarrow> nat option \<Rightarrow> 'p store \<Rightarrow> pg_error + 'p store" where
  "set_cell_next p q h = bindE (cell_at h p) (\<lambda>c. Inr (set_cell p (c\<lparr>next_cell := q\<rparr>) h))"

definition new_list :: "NodeTag \<Rightarrow> 'p store \<Rightarrow> List_ptr \<times> 'p store" where
  "new_list t h =
     (case palloc_cell \<lparr>data = unset, next_cell = None\<rparr> h of (new_head, h) \<Rightarrow>
        palloc_header \<lparr>list_type = t, llength = 1, head_cell = new_head, tail_cell = new_head\<rparr> h)"

definition new_head_cell :: "List_ptr \<Rightarrow> 'p store \<Rightarrow> pg_error + 'p store" where
  "new_head_cell l h = bindE (header_at h l) (\<lambda>r.
     case palloc_cell \<lparr>data = unset, next_cell = head_cell r\<rparr> h of (new_head, h) \<Rightarrow>
       Inr (set_header l (r\<lparr>head_cell := new_head, llength := llength r + 1\<rparr>) h))"

definition new_tail_cell :: "List_ptr \<Rightarrow> 'p store \<Rightarrow> pg_error + 'p store" where
  "new_tail_cell l h = bindE (header_at h l) (\<lambda>r.
     case palloc_cell \<lparr>data = unset, next_cell = None\<rparr> h of (new_tail, h) \<Rightarrow>
       bindE (set_cell_next (tail_cell r) new_tail h) (\<lambda>h.
         Inr (set_header l (r\<lparr>tail_cell := new_tail, llength := llength r + 1\<rparr>) h)))"

text \<open>
  The three variants of a routine, for pointers, integers and OIDs, differ in the type of
  list they assert and the member of the union they use: one definition takes the type, and
  the variants apply it.
\<close>

definition lappend_of :: "NodeTag \<Rightarrow> List_ptr \<Rightarrow> 'p cell_data \<Rightarrow> 'p store \<Rightarrow> pg_error + List_ptr \<times> 'p store" where
  "lappend_of t l d h = bindE (IsListOf t l h) (\<lambda>_.
     bindE (if l = None then Inr (new_list t h) else bindE (new_tail_cell l h) (\<lambda>h. Inr (l, h))) (\<lambda>(l, h).
       bindE (header_at h l) (\<lambda>r. bindE (set_cell_data (tail_cell r) d h) (\<lambda>h.
         bindE (check_list_invariants l h) (\<lambda>_. Inr (l, h))))))"

definition lappend :: "List_ptr \<Rightarrow> 'p \<Rightarrow> 'p store \<Rightarrow> pg_error + List_ptr \<times> 'p store" where
  "lappend l d = lappend_of T_List l (ptr_value d)"

definition lappend_int :: "List_ptr \<Rightarrow> int \<Rightarrow> 'p store \<Rightarrow> pg_error + List_ptr \<times> 'p store" where
  "lappend_int l d = lappend_of T_IntList l (int_value d)"

definition lappend_oid :: "List_ptr \<Rightarrow> 32 word \<Rightarrow> 'p store \<Rightarrow> pg_error + List_ptr \<times> 'p store" where
  "lappend_oid l d = lappend_of T_OidList l (oid_value d)"

definition add_new_cell :: "List_ptr \<Rightarrow> nat option \<Rightarrow> 'p store \<Rightarrow> pg_error + nat option \<times> 'p store" where
  "add_new_cell l prev_cell h = bindE (cell_at h prev_cell) (\<lambda>pc.
     case palloc_cell \<lparr>data = unset, next_cell = next_cell pc\<rparr> h of (new_cell, h) \<Rightarrow>
       bindE (set_cell_next prev_cell new_cell h) (\<lambda>h. bindE (header_at h l) (\<lambda>r.
         Inr (new_cell, set_header l (r\<lparr>tail_cell := (if tail_cell r = prev_cell then new_cell else tail_cell r),
           llength := llength r + 1\<rparr>) h))))"

definition lappend_cell_of ::
  "NodeTag \<Rightarrow> List_ptr \<Rightarrow> nat option \<Rightarrow> 'p cell_data \<Rightarrow> 'p store \<Rightarrow> pg_error + nat option \<times> 'p store" where
  "lappend_cell_of t l prev d h = bindE (IsListOf t l h) (\<lambda>_.
     bindE (add_new_cell l prev h) (\<lambda>(c, h). bindE (set_cell_data c d h) (\<lambda>h.
       bindE (check_list_invariants l h) (\<lambda>_. Inr (c, h)))))"

definition lappend_cell :: "List_ptr \<Rightarrow> nat option \<Rightarrow> 'p \<Rightarrow> 'p store \<Rightarrow> pg_error + nat option \<times> 'p store" where
  "lappend_cell l prev d = lappend_cell_of T_List l prev (ptr_value d)"

definition lappend_cell_int :: "List_ptr \<Rightarrow> nat option \<Rightarrow> int \<Rightarrow> 'p store \<Rightarrow> pg_error + nat option \<times> 'p store" where
  "lappend_cell_int l prev d = lappend_cell_of T_IntList l prev (int_value d)"

definition lappend_cell_oid :: "List_ptr \<Rightarrow> nat option \<Rightarrow> 32 word \<Rightarrow> 'p store \<Rightarrow> pg_error + nat option \<times> 'p store" where
  "lappend_cell_oid l prev d = lappend_cell_of T_OidList l prev (oid_value d)"

definition lcons_of :: "NodeTag \<Rightarrow> 'p cell_data \<Rightarrow> List_ptr \<Rightarrow> 'p store \<Rightarrow> pg_error + List_ptr \<times> 'p store" where
  "lcons_of t d l h = bindE (IsListOf t l h) (\<lambda>_.
     bindE (if l = None then Inr (new_list t h) else bindE (new_head_cell l h) (\<lambda>h. Inr (l, h))) (\<lambda>(l, h).
       bindE (header_at h l) (\<lambda>r. bindE (set_cell_data (head_cell r) d h) (\<lambda>h.
         bindE (check_list_invariants l h) (\<lambda>_. Inr (l, h))))))"

definition lcons :: "'p \<Rightarrow> List_ptr \<Rightarrow> 'p store \<Rightarrow> pg_error + List_ptr \<times> 'p store" where
  "lcons d = lcons_of T_List (ptr_value d)"

definition lcons_int :: "int \<Rightarrow> List_ptr \<Rightarrow> 'p store \<Rightarrow> pg_error + List_ptr \<times> 'p store" where
  "lcons_int d = lcons_of T_IntList (int_value d)"

definition lcons_oid :: "32 word \<Rightarrow> List_ptr \<Rightarrow> 'p store \<Rightarrow> pg_error + List_ptr \<times> 'p store" where
  "lcons_oid d = lcons_of T_OidList (oid_value d)"

definition list_concat :: "List_ptr \<Rightarrow> List_ptr \<Rightarrow> 'p store \<Rightarrow> pg_error + List_ptr \<times> 'p store" where
  "list_concat l1 l2 h =
     (if l1 = None then Inr (l2, h) else if l2 = None then Inr (l1, h)
      else if l1 = l2 then Inl (ERROR ''cannot list_concat() a list to itself'')
      else bindE (header_at h l1) (\<lambda>r1. bindE (header_at h l2) (\<lambda>r2.
        if list_type r1 \<noteq> list_type r2 then Inl (TRAP ''list1->type == list2->type'')
        else bindE (set_cell_next (tail_cell r1) (head_cell r2) h) (\<lambda>h.
          let h = set_header l1 (r1\<lparr>llength := llength r1 + llength r2, tail_cell := tail_cell r2\<rparr>) h
          in bindE (check_list_invariants l1 h) (\<lambda>_. Inr (l1, h))))))"

section \<open>Loops\<close>

partial_function (option) truncate_loop ::
  "List_ptr \<Rightarrow> int \<Rightarrow> nat option \<Rightarrow> int \<Rightarrow> 'p store \<Rightarrow> (pg_error + List_ptr \<times> 'p store) option" where
  "truncate_loop l new_size cell n h =
     (if cell = None then Some (Inl (TRAP ''false''))
      else if n = new_size then
        Some (bindE (set_cell_next cell None h) (\<lambda>h. bindE (header_at h l) (\<lambda>r.
          let h = set_header l (r\<lparr>tail_cell := cell, llength := new_size\<rparr>) h
          in bindE (check_list_invariants l h) (\<lambda>_. Inr (l, h)))))
      else bindO (Some (cell_at h cell)) (\<lambda>c. truncate_loop l new_size (next_cell c) (n + 1) h))"

definition list_truncate :: "List_ptr \<Rightarrow> int \<Rightarrow> 'p store \<Rightarrow> (pg_error + List_ptr \<times> 'p store) option" where
  "list_truncate l new_size h =
     (if new_size \<le> 0 then Some (Inr (None, h))
      else bindO (Some (list_length h l)) (\<lambda>len.
        if new_size \<ge> len then Some (Inr (l, h))
        else bindO (Some (list_head h l)) (\<lambda>cell. truncate_loop l new_size cell 1 h)))"

fun nth_loop :: "'p store \<Rightarrow> nat \<Rightarrow> nat option \<Rightarrow> pg_error + nat option" where
  "nth_loop h 0 match = Inr match"
| "nth_loop h (Suc n) match = bindE (cell_at h match) (\<lambda>c. nth_loop h n (next_cell c))"

definition list_nth_cell :: "List_ptr \<Rightarrow> int \<Rightarrow> 'p store \<Rightarrow> pg_error + nat option" where
  "list_nth_cell l n h =
     (if l = None then Inl (TRAP ''list != NIL'')
      else if n < 0 then Inl (TRAP ''n >= 0'')
      else bindE (header_at h l) (\<lambda>r.
        if \<not> n < llength r then Inl (TRAP ''n < list->length'')
        else bindE (check_list_invariants l h) (\<lambda>_.
          if n = llength r - 1 then Inr (tail_cell r) else nth_loop h (nat n) (head_cell r))))"

definition list_nth_of :: "NodeTag \<Rightarrow> List_ptr \<Rightarrow> int \<Rightarrow> 'p store \<Rightarrow> pg_error + 'p cell_data" where
  "list_nth_of t l n h = bindE (IsListOf t l h) (\<lambda>_.
     bindE (list_nth_cell l n h) (\<lambda>p. bindE (cell_at h p) (\<lambda>c. Inr (data c))))"

definition list_nth :: "List_ptr \<Rightarrow> int \<Rightarrow> 'p store \<Rightarrow> pg_error + 'p cell_data" where
  "list_nth = list_nth_of T_List"

definition list_nth_int :: "List_ptr \<Rightarrow> int \<Rightarrow> 'p store \<Rightarrow> pg_error + 'p cell_data" where
  "list_nth_int = list_nth_of T_IntList"

definition list_nth_oid :: "List_ptr \<Rightarrow> int \<Rightarrow> 'p store \<Rightarrow> pg_error + 'p cell_data" where
  "list_nth_oid = list_nth_of T_OidList"

text \<open>
  Searching compares with \<^verbatim>\<open>equal()\<close> of \<^verbatim>\<open>equalfuncs.c\<close>, a parameter here, or with the
  equality of pointers, integers and OIDs.
\<close>

definition node_equal :: "('p \<Rightarrow> 'p \<Rightarrow> bool) \<Rightarrow> 'p cell_data \<Rightarrow> 'p cell_data \<Rightarrow> bool" where
  "node_equal equal x y = (case (x, y) of (ptr_value p, ptr_value q) \<Rightarrow> equal p q | _ \<Rightarrow> False)"

partial_function (option) member_loop ::
  "('p cell_data \<Rightarrow> bool) \<Rightarrow> nat option \<Rightarrow> 'p store \<Rightarrow> (pg_error + bool) option" where
  "member_loop test cell h =
     (if cell = None then Some (Inr False)
      else bindO (Some (cell_at h cell)) (\<lambda>c.
        if test (data c) then Some (Inr True) else member_loop test (next_cell c) h))"

definition list_member_of ::
  "NodeTag \<Rightarrow> ('p cell_data \<Rightarrow> 'p cell_data \<Rightarrow> bool) \<Rightarrow> List_ptr \<Rightarrow> 'p cell_data \<Rightarrow> 'p store \<Rightarrow> (pg_error + bool) option" where
  "list_member_of t eq l d h =
     bindO (Some (IsListOf t l h)) (\<lambda>_. bindO (Some (check_list_invariants l h)) (\<lambda>_.
       bindO (Some (list_head h l)) (\<lambda>cell. member_loop (\<lambda>x. eq x d) cell h)))"

definition list_member :: "('p \<Rightarrow> 'p \<Rightarrow> bool) \<Rightarrow> List_ptr \<Rightarrow> 'p \<Rightarrow> 'p store \<Rightarrow> (pg_error + bool) option" where
  "list_member equal l d = list_member_of T_List (node_equal equal) l (ptr_value d)"

definition list_member_ptr :: "List_ptr \<Rightarrow> 'p \<Rightarrow> 'p store \<Rightarrow> (pg_error + bool) option" where
  "list_member_ptr l d = list_member_of T_List (=) l (ptr_value d)"

definition list_member_int :: "List_ptr \<Rightarrow> int \<Rightarrow> 'p store \<Rightarrow> (pg_error + bool) option" where
  "list_member_int l d = list_member_of T_IntList (=) l (int_value d)"

definition list_member_oid :: "List_ptr \<Rightarrow> 32 word \<Rightarrow> 'p store \<Rightarrow> (pg_error + bool) option" where
  "list_member_oid l d = list_member_of T_OidList (=) l (oid_value d)"

section \<open>Freeing and deleting\<close>

text \<open>The objects freed by a deep free are noted in \<open>freed_data\<close>.\<close>

partial_function (option) free_loop ::
  "bool \<Rightarrow> nat option \<Rightarrow> 'p store \<Rightarrow> (pg_error + 'p store) option" where
  "free_loop deep cell h =
     (if cell = None then Some (Inr h)
      else bindO (Some (cell_at h cell)) (\<lambda>c.
        bindO (Some (pfree_cell cell (if deep then h\<lparr>freed_data := data c # freed_data h\<rparr> else h)))
          (\<lambda>h. free_loop deep (next_cell c) h)))"

definition list_free_private :: "List_ptr \<Rightarrow> bool \<Rightarrow> 'p store \<Rightarrow> (pg_error + 'p store) option" where
  "list_free_private l deep h =
     bindO (Some (check_list_invariants l h)) (\<lambda>_. bindO (Some (list_head h l)) (\<lambda>cell.
       bindO (free_loop deep cell h) (\<lambda>h. Some (if l = None then Inr h else pfree_header l h))))"

definition list_free :: "List_ptr \<Rightarrow> 'p store \<Rightarrow> (pg_error + 'p store) option" where
  "list_free l = list_free_private l False"

definition list_free_deep :: "List_ptr \<Rightarrow> 'p store \<Rightarrow> (pg_error + 'p store) option" where
  "list_free_deep l h = bindO (Some (IsListOf T_List l h)) (\<lambda>_. list_free_private l True h)"

definition list_delete_cell ::
  "List_ptr \<Rightarrow> nat option \<Rightarrow> nat option \<Rightarrow> 'p store \<Rightarrow> (pg_error + List_ptr \<times> 'p store) option" where
  "list_delete_cell l cell prev h =
     bindO (Some (check_list_invariants l h)) (\<lambda>_.
     bindO (Some (if prev \<noteq> None then bindE (cell_at h prev) (\<lambda>c. Inr (next_cell c)) else list_head h l)) (\<lambda>follows.
     if follows \<noteq> cell then Some (Inl (TRAP ''lnext(prev) == cell''))
     else bindO (Some (header_at h l)) (\<lambda>r.
       if llength r = 1 then bindO (list_free l h) (\<lambda>h. Some (Inr (None, h)))
       else Some (bindE (cell_at h cell) (\<lambda>c.
         bindE (if prev \<noteq> None then set_cell_next prev (next_cell c) h else Inr h) (\<lambda>h.
           bindE (pfree_cell cell (set_header l (r\<lparr>llength := llength r - 1,
               head_cell := (if prev \<noteq> None then head_cell r else next_cell c),
               tail_cell := (if tail_cell r = cell then prev else tail_cell r)\<rparr>) h))
             (\<lambda>h. Inr (l, h))))))))"

partial_function (option) delete_loop ::
  "('p cell_data \<Rightarrow> bool) \<Rightarrow> List_ptr \<Rightarrow> nat option \<Rightarrow> nat option \<Rightarrow> 'p store \<Rightarrow> (pg_error + List_ptr \<times> 'p store) option" where
  "delete_loop test l cell prev h =
     (if cell = None then Some (Inr (l, h))
      else bindO (Some (cell_at h cell)) (\<lambda>c.
        if test (data c) then list_delete_cell l cell prev h else delete_loop test l (next_cell c) cell h))"

definition list_delete_of ::
  "NodeTag \<Rightarrow> ('p cell_data \<Rightarrow> 'p cell_data \<Rightarrow> bool) \<Rightarrow> List_ptr \<Rightarrow> 'p cell_data \<Rightarrow> 'p store \<Rightarrow> (pg_error + List_ptr \<times> 'p store) option" where
  "list_delete_of t eq l d h =
     bindO (Some (IsListOf t l h)) (\<lambda>_. bindO (Some (check_list_invariants l h)) (\<lambda>_.
       bindO (Some (list_head h l)) (\<lambda>cell. delete_loop (\<lambda>x. eq x d) l cell None h)))"

definition list_delete :: "('p \<Rightarrow> 'p \<Rightarrow> bool) \<Rightarrow> List_ptr \<Rightarrow> 'p \<Rightarrow> 'p store \<Rightarrow> (pg_error + List_ptr \<times> 'p store) option" where
  "list_delete equal l d = list_delete_of T_List (node_equal equal) l (ptr_value d)"

definition list_delete_ptr :: "List_ptr \<Rightarrow> 'p \<Rightarrow> 'p store \<Rightarrow> (pg_error + List_ptr \<times> 'p store) option" where
  "list_delete_ptr l d = list_delete_of T_List (=) l (ptr_value d)"

definition list_delete_int :: "List_ptr \<Rightarrow> int \<Rightarrow> 'p store \<Rightarrow> (pg_error + List_ptr \<times> 'p store) option" where
  "list_delete_int l d = list_delete_of T_IntList (=) l (int_value d)"

definition list_delete_oid :: "List_ptr \<Rightarrow> 32 word \<Rightarrow> 'p store \<Rightarrow> (pg_error + List_ptr \<times> 'p store) option" where
  "list_delete_oid l d = list_delete_of T_OidList (=) l (oid_value d)"

definition list_delete_first :: "List_ptr \<Rightarrow> 'p store \<Rightarrow> (pg_error + List_ptr \<times> 'p store) option" where
  "list_delete_first l h =
     bindO (Some (check_list_invariants l h)) (\<lambda>_.
       if l = None then Some (Inr (None, h))
       else bindO (Some (list_head h l)) (\<lambda>cell. list_delete_cell l cell None h))"

section \<open>Copying\<close>

text \<open>
  The link of a new cell is set when its successor is, or to \<^verbatim>\<open>NULL\<close> after the loop; until
  then nothing reads it.
\<close>

partial_function (option) copy_loop ::
  "nat option \<Rightarrow> nat option \<Rightarrow> 'p store \<Rightarrow> (pg_error + nat option \<times> 'p store) option" where
  "copy_loop newlist_prev oldlist_cur h =
     (if oldlist_cur = None then Some (Inr (newlist_prev, h))
      else bindO (Some (cell_at h oldlist_cur)) (\<lambda>c.
        case palloc_cell \<lparr>data = data c, next_cell = None\<rparr> h of (newlist_cur, h) \<Rightarrow>
          bindO (Some (set_cell_next newlist_prev newlist_cur h)) (\<lambda>h. copy_loop newlist_cur (next_cell c) h)))"

text \<open>Filling the new list, with its header and first cell in place, from a cell on.\<close>

definition copy_from :: "List_ptr \<Rightarrow> nat option \<Rightarrow> 'p store \<Rightarrow> (pg_error + List_ptr \<times> 'p store) option" where
  "copy_from newlist oldlist_cur h =
     bindO (Some (header_at h newlist)) (\<lambda>r.
     bindO (Some (cell_at h oldlist_cur)) (\<lambda>c.
     bindO (Some (set_cell_data (head_cell r) (data c) h)) (\<lambda>h.
     bindO (copy_loop (head_cell r) (next_cell c) h) (\<lambda>(newlist_prev, h).
     bindO (Some (set_cell_next newlist_prev None h)) (\<lambda>h.
       let h = set_header newlist (r\<lparr>tail_cell := newlist_prev\<rparr>) h
       in bindO (Some (check_list_invariants newlist h)) (\<lambda>_. Some (Inr (newlist, h))))))))"

definition list_copy :: "List_ptr \<Rightarrow> 'p store \<Rightarrow> (pg_error + List_ptr \<times> 'p store) option" where
  "list_copy oldlist h =
     (if oldlist = None then Some (Inr (None, h))
      else bindO (Some (header_at h oldlist)) (\<lambda>r.
        case new_list (list_type r) h of (newlist, h) \<Rightarrow>
          bindO (Some (header_at h newlist)) (\<lambda>r'.
            copy_from newlist (head_cell r) (set_header newlist (r'\<lparr>llength := llength r\<rparr>) h))))"

definition list_copy_tail :: "List_ptr \<Rightarrow> int \<Rightarrow> 'p store \<Rightarrow> (pg_error + List_ptr \<times> 'p store) option" where
  "list_copy_tail oldlist nskip h =
     (let nskip = (if nskip < 0 then 0 else nskip)
      in if oldlist = None then Some (Inr (None, h))
         else bindO (Some (header_at h oldlist)) (\<lambda>r.
           if nskip \<ge> llength r then Some (Inr (None, h))
           else case new_list (list_type r) h of (newlist, h) \<Rightarrow>
             bindO (Some (header_at h newlist)) (\<lambda>r'.
               let h = set_header newlist (r'\<lparr>llength := llength r - nskip\<rparr>) h
               in bindO (Some (nth_loop h (nat nskip) (head_cell r))) (\<lambda>oldlist_cur. copy_from newlist oldlist_cur h))))"

section \<open>Lists as sets\<close>

text \<open>Adding to a list what it lacks of another.\<close>

partial_function (option) union_loop ::
  "NodeTag \<Rightarrow> ('p cell_data \<Rightarrow> 'p cell_data \<Rightarrow> bool) \<Rightarrow> nat option \<Rightarrow> List_ptr \<Rightarrow> 'p store \<Rightarrow>
   (pg_error + List_ptr \<times> 'p store) option" where
  "union_loop t eq cell result h =
     (if cell = None then Some (Inr (result, h))
      else bindO (Some (cell_at h cell)) (\<lambda>c.
        bindO (list_member_of t eq result (data c) h) (\<lambda>found.
        bindO (Some (if found then Inr (result, h) else lappend_of t result (data c) h)) (\<lambda>(result, h).
        bindO (Some (cell_at h cell)) (\<lambda>c. union_loop t eq (next_cell c) result h)))))"

definition list_concat_unique_of ::
  "NodeTag \<Rightarrow> ('p cell_data \<Rightarrow> 'p cell_data \<Rightarrow> bool) \<Rightarrow> List_ptr \<Rightarrow> List_ptr \<Rightarrow> 'p store \<Rightarrow>
   (pg_error + List_ptr \<times> 'p store) option" where
  "list_concat_unique_of t eq list1 list2 h =
     bindO (Some (IsListOf t list1 h)) (\<lambda>_. bindO (Some (IsListOf t list2 h)) (\<lambda>_.
     bindO (Some (list_head h list2)) (\<lambda>cell.
     bindO (union_loop t eq cell list1 h) (\<lambda>(list1, h).
     bindO (Some (check_list_invariants list1 h)) (\<lambda>_. Some (Inr (list1, h)))))))"

definition list_union_of ::
  "NodeTag \<Rightarrow> ('p cell_data \<Rightarrow> 'p cell_data \<Rightarrow> bool) \<Rightarrow> List_ptr \<Rightarrow> List_ptr \<Rightarrow> 'p store \<Rightarrow>
   (pg_error + List_ptr \<times> 'p store) option" where
  "list_union_of t eq list1 list2 h =
     bindO (Some (IsListOf t list1 h)) (\<lambda>_. bindO (Some (IsListOf t list2 h)) (\<lambda>_.
     bindO (list_copy list1 h) (\<lambda>(result, h).
     bindO (Some (list_head h list2)) (\<lambda>cell.
     bindO (union_loop t eq cell result h) (\<lambda>(result, h).
     bindO (Some (check_list_invariants result h)) (\<lambda>_. Some (Inr (result, h))))))))"

text \<open>Copying the members of a list that are, or are not, in another.\<close>

partial_function (option) filter_loop ::
  "NodeTag \<Rightarrow> ('p cell_data \<Rightarrow> 'p cell_data \<Rightarrow> bool) \<Rightarrow> bool \<Rightarrow> List_ptr \<Rightarrow> nat option \<Rightarrow> List_ptr \<Rightarrow> 'p store \<Rightarrow>
   (pg_error + List_ptr \<times> 'p store) option" where
  "filter_loop t eq common list2 cell result h =
     (if cell = None then Some (Inr (result, h))
      else bindO (Some (cell_at h cell)) (\<lambda>c.
        bindO (list_member_of t eq list2 (data c) h) (\<lambda>found.
        bindO (Some (if found = common then lappend_of t result (data c) h else Inr (result, h))) (\<lambda>(result, h).
        bindO (Some (cell_at h cell)) (\<lambda>c. filter_loop t eq common list2 (next_cell c) result h)))))"

definition list_intersection ::
  "('p \<Rightarrow> 'p \<Rightarrow> bool) \<Rightarrow> List_ptr \<Rightarrow> List_ptr \<Rightarrow> 'p store \<Rightarrow> (pg_error + List_ptr \<times> 'p store) option" where
  "list_intersection equal list1 list2 h =
     (if list1 = None \<or> list2 = None then Some (Inr (None, h))
      else bindO (Some (IsListOf T_List list1 h)) (\<lambda>_. bindO (Some (IsListOf T_List list2 h)) (\<lambda>_.
        bindO (Some (list_head h list1)) (\<lambda>cell.
        bindO (filter_loop T_List (node_equal equal) True list2 cell None h) (\<lambda>(result, h).
        bindO (Some (check_list_invariants result h)) (\<lambda>_. Some (Inr (result, h))))))))"

definition list_difference_of ::
  "NodeTag \<Rightarrow> ('p cell_data \<Rightarrow> 'p cell_data \<Rightarrow> bool) \<Rightarrow> List_ptr \<Rightarrow> List_ptr \<Rightarrow> 'p store \<Rightarrow>
   (pg_error + List_ptr \<times> 'p store) option" where
  "list_difference_of t eq list1 list2 h =
     bindO (Some (IsListOf t list1 h)) (\<lambda>_. bindO (Some (IsListOf t list2 h)) (\<lambda>_.
     if list2 = None then list_copy list1 h
     else bindO (Some (list_head h list1)) (\<lambda>cell.
       bindO (filter_loop t eq False list2 cell None h) (\<lambda>(result, h).
       bindO (Some (check_list_invariants result h)) (\<lambda>_. Some (Inr (result, h)))))))"

definition list_append_unique_of ::
  "NodeTag \<Rightarrow> ('p cell_data \<Rightarrow> 'p cell_data \<Rightarrow> bool) \<Rightarrow> List_ptr \<Rightarrow> 'p cell_data \<Rightarrow> 'p store \<Rightarrow>
   (pg_error + List_ptr \<times> 'p store) option" where
  "list_append_unique_of t eq l d h =
     bindO (list_member_of t eq l d h) (\<lambda>found. Some (if found then Inr (l, h) else lappend_of t l d h))"

definition list_union :: "('p \<Rightarrow> 'p \<Rightarrow> bool) \<Rightarrow> List_ptr \<Rightarrow> List_ptr \<Rightarrow> 'p store \<Rightarrow> (pg_error + List_ptr \<times> 'p store) option" where
  "list_union equal = list_union_of T_List (node_equal equal)"

definition list_union_ptr :: "List_ptr \<Rightarrow> List_ptr \<Rightarrow> 'p store \<Rightarrow> (pg_error + List_ptr \<times> 'p store) option" where
  "list_union_ptr = list_union_of T_List (=)"

definition list_union_int :: "List_ptr \<Rightarrow> List_ptr \<Rightarrow> 'p store \<Rightarrow> (pg_error + List_ptr \<times> 'p store) option" where
  "list_union_int = list_union_of T_IntList (=)"

definition list_union_oid :: "List_ptr \<Rightarrow> List_ptr \<Rightarrow> 'p store \<Rightarrow> (pg_error + List_ptr \<times> 'p store) option" where
  "list_union_oid = list_union_of T_OidList (=)"

definition list_concat_unique :: "('p \<Rightarrow> 'p \<Rightarrow> bool) \<Rightarrow> List_ptr \<Rightarrow> List_ptr \<Rightarrow> 'p store \<Rightarrow> (pg_error + List_ptr \<times> 'p store) option" where
  "list_concat_unique equal = list_concat_unique_of T_List (node_equal equal)"

definition list_concat_unique_ptr :: "List_ptr \<Rightarrow> List_ptr \<Rightarrow> 'p store \<Rightarrow> (pg_error + List_ptr \<times> 'p store) option" where
  "list_concat_unique_ptr = list_concat_unique_of T_List (=)"

definition list_concat_unique_int :: "List_ptr \<Rightarrow> List_ptr \<Rightarrow> 'p store \<Rightarrow> (pg_error + List_ptr \<times> 'p store) option" where
  "list_concat_unique_int = list_concat_unique_of T_IntList (=)"

definition list_concat_unique_oid :: "List_ptr \<Rightarrow> List_ptr \<Rightarrow> 'p store \<Rightarrow> (pg_error + List_ptr \<times> 'p store) option" where
  "list_concat_unique_oid = list_concat_unique_of T_OidList (=)"

definition list_difference :: "('p \<Rightarrow> 'p \<Rightarrow> bool) \<Rightarrow> List_ptr \<Rightarrow> List_ptr \<Rightarrow> 'p store \<Rightarrow> (pg_error + List_ptr \<times> 'p store) option" where
  "list_difference equal = list_difference_of T_List (node_equal equal)"

definition list_difference_ptr :: "List_ptr \<Rightarrow> List_ptr \<Rightarrow> 'p store \<Rightarrow> (pg_error + List_ptr \<times> 'p store) option" where
  "list_difference_ptr = list_difference_of T_List (=)"

definition list_difference_int :: "List_ptr \<Rightarrow> List_ptr \<Rightarrow> 'p store \<Rightarrow> (pg_error + List_ptr \<times> 'p store) option" where
  "list_difference_int = list_difference_of T_IntList (=)"

definition list_difference_oid :: "List_ptr \<Rightarrow> List_ptr \<Rightarrow> 'p store \<Rightarrow> (pg_error + List_ptr \<times> 'p store) option" where
  "list_difference_oid = list_difference_of T_OidList (=)"

definition list_append_unique :: "('p \<Rightarrow> 'p \<Rightarrow> bool) \<Rightarrow> List_ptr \<Rightarrow> 'p \<Rightarrow> 'p store \<Rightarrow> (pg_error + List_ptr \<times> 'p store) option" where
  "list_append_unique equal l d = list_append_unique_of T_List (node_equal equal) l (ptr_value d)"

definition list_append_unique_ptr :: "List_ptr \<Rightarrow> 'p \<Rightarrow> 'p store \<Rightarrow> (pg_error + List_ptr \<times> 'p store) option" where
  "list_append_unique_ptr l d = list_append_unique_of T_List (=) l (ptr_value d)"

definition list_append_unique_int :: "List_ptr \<Rightarrow> int \<Rightarrow> 'p store \<Rightarrow> (pg_error + List_ptr \<times> 'p store) option" where
  "list_append_unique_int l d = list_append_unique_of T_IntList (=) l (int_value d)"

definition list_append_unique_oid :: "List_ptr \<Rightarrow> 32 word \<Rightarrow> 'p store \<Rightarrow> (pg_error + List_ptr \<times> 'p store) option" where
  "list_append_unique_oid l d = list_append_unique_of T_OidList (=) l (oid_value d)"

end
