(* ===== verification/PgListRep.thy ===== *)
theory PgListRep
  imports PgList
begin

text \<open>
  What the routines of \<^verbatim>\<open>list.c\<close> do to the lists they represent: a list is a chain of
  distinct cells, and each routine carries out an operation on HOL lists.
\<close>

section \<open>Representation\<close>

definition first_cell :: "nat list \<Rightarrow> nat option \<Rightarrow> nat option" where
  "first_cell cs q = (case cs of [] \<Rightarrow> q | a # _ \<Rightarrow> Some a)"

fun linked :: "'p store \<Rightarrow> nat list \<Rightarrow> 'p cell_data list \<Rightarrow> nat option \<Rightarrow> bool" where
  "linked h [] [] q = True"
| "linked h (a # cs) (x # xs) q \<longleftrightarrow> cells h a = Some \<lparr>data = x, next_cell = first_cell cs q\<rparr> \<and> linked h cs xs q"
| "linked h _ _ q = False"

fun has_type :: "NodeTag \<Rightarrow> 'p cell_data \<Rightarrow> bool" where
  "has_type T_List (ptr_value p) = True"
| "has_type T_IntList (int_value i) = True"
| "has_type T_OidList (oid_value w) = True"
| "has_type t d = False"

definition list_rep :: "'p store \<Rightarrow> NodeTag \<Rightarrow> List_ptr \<Rightarrow> nat list \<Rightarrow> 'p cell_data list \<Rightarrow> bool" where
  "list_rep h t l cs xs \<longleftrightarrow> list_all (has_type t) xs \<and>
     (case l of None \<Rightarrow> cs = [] \<and> xs = []
      | Some a \<Rightarrow> cs \<noteq> [] \<and> distinct cs \<and> linked h cs xs None \<and>
          headers h a = Some \<lparr>list_type = t, llength = int (length xs),
            head_cell = Some (hd cs), tail_cell = Some (last cs)\<rparr>)"

definition store_ok :: "'p store \<Rightarrow> bool" where
  "store_ok h \<longleftrightarrow> (\<forall>a\<ge>next_addr h. cells h a = None \<and> headers h a = None)"

text \<open>Nothing but the given header and cells has changed.\<close>

definition untouched :: "'p store \<Rightarrow> 'p store \<Rightarrow> nat set \<Rightarrow> nat set \<Rightarrow> bool" where
  "untouched h h' L C \<longleftrightarrow> next_addr h \<le> next_addr h' \<and>
     (\<forall>a < next_addr h. (a \<notin> C \<longrightarrow> cells h' a = cells h a) \<and> (a \<notin> L \<longrightarrow> headers h' a = headers h a))"

lemma first_cell_simps [simp]: "first_cell [] q = q" "first_cell (a # cs) q = Some a"
  by (simp_all add: first_cell_def)

lemma first_cell_append [simp]: "first_cell (cs @ ds) q = first_cell cs (first_cell ds q)"
  by (cases cs) auto

lemma first_cell_hd: "cs \<noteq> [] \<Longrightarrow> first_cell cs q = Some (hd cs)"
  by (cases cs) auto

lemma linked_length: "linked h cs xs q \<Longrightarrow> length cs = length xs"
  by (induction h cs xs q rule: linked.induct) auto

lemma linked_append:
  "length cs = length xs \<Longrightarrow>
   linked h (cs @ ds) (xs @ ys) q \<longleftrightarrow> linked h cs xs (first_cell ds q) \<and> linked h ds ys q"
  by (induction cs xs rule: list_induct2) auto

lemma linked_frame:
  "(\<And>a. a \<in> set cs \<Longrightarrow> cells h' a = cells h a) \<Longrightarrow> linked h' cs xs q \<longleftrightarrow> linked h cs xs q"
  by (induction h cs xs q rule: linked.induct) auto

lemma linked_allocated: "linked h cs xs q \<Longrightarrow> a \<in> set cs \<Longrightarrow> cells h a \<noteq> None"
  by (induction h cs xs q rule: linked.induct) auto

lemma store_ok_bound:
  assumes "store_ok h" shows "cells h a \<noteq> None \<Longrightarrow> a < next_addr h" "headers h a \<noteq> None \<Longrightarrow> a < next_addr h"
  using assms unfolding store_ok_def by (meson leI)+

lemma linked_bound: "linked h cs xs q \<Longrightarrow> store_ok h \<Longrightarrow> a \<in> set cs \<Longrightarrow> a < next_addr h"
  by (rule store_ok_bound(1), assumption, rule linked_allocated)

lemma linked_Cons_iff:
  "linked h cs (x # xs) q \<longleftrightarrow> (\<exists>a cs'. cs = a # cs' \<and> cells h a = Some \<lparr>data = x, next_cell = first_cell cs' q\<rparr> \<and> linked h cs' xs q)"
  by (cases cs) auto

lemma linked_Nil_iff [simp]: "linked h cs [] q \<longleftrightarrow> cs = []" "linked h [] xs q \<longleftrightarrow> xs = []"
  by (cases cs; simp) (cases xs; simp)

lemma linked_snocE:
  assumes "linked h cs xs q" "cs \<noteq> []"
  obtains ds ys a x where "cs = ds @ [a]" "xs = ys @ [x]" "length ds = length ys"
    "linked h ds ys (Some a)" "cells h a = Some \<lparr>data = x, next_cell = q\<rparr>"
proof -
  have len: "length cs = length xs" using assms(1) by (rule linked_length)
  obtain ds a where cs: "cs = ds @ [a]" using assms(2) by (metis rev_exhaust)
  obtain ys x where xs: "xs = ys @ [x]" using len cs by (cases xs rule: rev_cases) auto
  show thesis using that [OF cs xs] assms(1) len by (auto simp: cs xs linked_append)
qed

lemma untouched_refl [simp]: "untouched h h L C"
  by (simp add: untouched_def)

lemma untouched_trans:
  "untouched h h' L C \<Longrightarrow> untouched h' h'' L' C' \<Longrightarrow> (\<forall>a \<in> L'. a \<in> L \<or> next_addr h \<le> a) \<Longrightarrow>
   (\<forall>a \<in> C'. a \<in> C \<or> next_addr h \<le> a) \<Longrightarrow> untouched h h'' L C"
  unfolding untouched_def by (auto dest: le_trans)

lemma list_rep_frame:
  assumes "list_rep h t l cs xs" "store_ok h" "untouched h h' L C"
    "set cs \<inter> C = {}" "set_option l \<inter> L = {}"
  shows "list_rep h' t l cs xs"
proof (cases l)
  case (Some a)
  have lnk: "linked h cs xs None" and hd: "headers h a \<noteq> None" using assms(1) Some by (auto simp: list_rep_def)
  have "cells h' b = cells h b" if "b \<in> set cs" for b
    using that assms(3,4) linked_bound [OF lnk assms(2) that] by (auto simp: untouched_def)
  then have "linked h' cs xs None" using lnk linked_frame by metis
  moreover have "headers h' a = headers h a"
    using store_ok_bound(2) [OF assms(2) hd] assms(3,5) Some by (auto simp: untouched_def)
  ultimately show ?thesis using assms(1) Some by (simp add: list_rep_def)
qed (use assms(1) in \<open>simp add: list_rep_def\<close>)

section \<open>Access\<close>

lemmas access_defs = cell_at_def header_at_def set_cell_def set_header_def set_cell_next_def set_cell_data_def
  palloc_cell_def palloc_header_def

lemma list_rep_NIL [simp]: "list_rep h t None cs xs \<longleftrightarrow> cs = [] \<and> xs = []"
  by (auto simp: list_rep_def)

lemma IsListOf_rep: "list_rep h t l cs xs \<Longrightarrow> IsListOf t l h = Inr ()"
  by (auto simp: list_rep_def IsListOf_def header_at_def split: option.splits)

lemma IsListOf_NIL [simp]: "IsListOf t None h = Inr ()"
  by (simp add: IsListOf_def)

lemma list_head_rep: "list_rep h t l cs xs \<Longrightarrow> list_head h l = Inr (first_cell cs None)"
  by (cases cs) (auto simp: list_rep_def list_head_def header_at_def split: option.splits)

lemma list_tail_rep: "list_rep h t l cs xs \<Longrightarrow> list_tail h l = Inr (if cs = [] then None else Some (last cs))"
  by (cases cs) (auto simp: list_rep_def list_tail_def header_at_def split: option.splits)

lemma list_length_rep: "list_rep h t l cs xs \<Longrightarrow> list_length h l = Inr (int (length xs))"
  by (auto simp: list_rep_def list_length_def header_at_def split: option.splits)

lemma check_rep:
  assumes "list_rep h t l cs xs" shows "check_list_invariants l h = Inr ()"
proof (cases l)
  case (Some a)
  have rep: "cs \<noteq> []" "linked h cs xs None"
    "headers h a = Some \<lparr>list_type = t, llength = int (length xs), head_cell = Some (hd cs), tail_cell = Some (last cs)\<rparr>"
    using assms Some by (auto simp: list_rep_def)
  have len: "length cs = length xs" using rep(2) by (rule linked_length)
  obtain x where last: "cells h (last cs) = Some \<lparr>data = x, next_cell = None\<rparr>"
    by (rule linked_snocE [OF rep(2,1)]) simp
  have two: "\<exists>y. cells h (hd cs) = Some \<lparr>data = y, next_cell = Some (last cs)\<rparr>" if "length xs = 2"
    using that len rep(2) by (auto simp: length_Suc_conv numeral_2_eq_2)
  have one: "hd cs = last cs" if "length xs = 1"
    using that len by (auto simp: length_Suc_conv)
  show ?thesis using rep(1) len last two one
    by (auto simp: check_list_invariants_def Some header_at_def cell_at_def rep(3))
qed (simp add: check_list_invariants_def)

lemma list_rep_SomeE:
  assumes "list_rep h t (Some a) cs xs"
  obtains "cs \<noteq> []" "distinct cs" "linked h cs xs None" "list_all (has_type t) xs" "length cs = length xs"
    "headers h a = Some \<lparr>list_type = t, llength = int (length xs), head_cell = Some (hd cs), tail_cell = Some (last cs)\<rparr>"
  using assms linked_length by (fastforce simp: list_rep_def)

section \<open>Updates in place\<close>

text \<open>
  What a routine that changes a list promises: it returns, the list then represents the
  changed value, and it has touched no header or cell but those of the list and new ones.
\<close>

definition updated ::
  "'p store \<Rightarrow> NodeTag \<Rightarrow> List_ptr \<Rightarrow> nat list \<Rightarrow> 'p cell_data list \<Rightarrow> List_ptr \<times> 'p store \<Rightarrow> bool" where
  "updated h t l cs ys r \<longleftrightarrow> (\<exists>cs'. store_ok (snd r) \<and> list_rep (snd r) t (fst r) cs' ys \<and>
     untouched h (snd r) (set_option l) (set cs) \<and>
     set cs' \<subseteq> set cs \<union> {next_addr h..} \<and> set_option (fst r) \<subseteq> set_option l \<union> {next_addr h..})"

locale list_update =
  fixes t :: NodeTag and routine :: "List_ptr \<Rightarrow> 'p store \<Rightarrow> (pg_error + List_ptr \<times> 'p store) option"
    and f :: "'p cell_data list \<Rightarrow> 'p cell_data list"
  assumes updates: "store_ok h \<Longrightarrow> list_rep h t l cs xs \<Longrightarrow> \<exists>r. routine l h = Some (Inr r) \<and> updated h t l cs (f xs) r"
begin

lemma other_list:
  assumes "store_ok h" "list_rep h t l cs xs" "list_rep h t' l' cs' ys" "set cs \<inter> set cs' = {}"
    "set_option l \<inter> set_option l' = {}"
  shows "\<exists>l2 h2. routine l h = Some (Inr (l2, h2)) \<and> list_rep h2 t' l' cs' ys"
proof -
  obtain r where r: "routine l h = Some (Inr r)" "updated h t l cs (f xs) r"
    using updates [OF assms(1,2)] by blast
  then have "list_rep (snd r) t' l' cs' ys"
    using list_rep_frame [OF assms(3,1)] assms(4,5) by (auto simp: updated_def)
  with r(1) show ?thesis by (cases r) auto
qed

end

lemma updatedI:
  assumes "store_ok h'" "list_rep h' t l' cs' ys" "untouched h h' (set_option l) (set cs)"
    "set cs' \<subseteq> set cs \<union> {next_addr h..}" "set_option l' \<subseteq> set_option l \<union> {next_addr h..}"
  shows "updated h t l cs ys (l', h')"
  using assms by (auto simp: updated_def)

subsection \<open>Adding a cell\<close>

lemma new_list_updated:
  assumes "store_ok h" "has_type t d" "new_list t h = (l', h1)" 
  shows "\<exists>h2 r. header_at h1 l' = Inr r \<and> head_cell r = tail_cell r \<and> set_cell_data (tail_cell r) d h1 = Inr h2 \<and> updated h t None [] [d] (l', h2)"
  using assms
  by (auto simp: new_list_def access_defs updated_def store_ok_def list_rep_def untouched_def intro!: exI [of _ "[next_addr h]"])

lemma new_tail_updated:
  assumes ok: "store_ok h" and rep: "list_rep h t (Some a) cs xs" and d: "has_type t d"
  shows "\<exists>h1 r h2. new_tail_cell (Some a) h = Inr h1 \<and> header_at h1 (Some a) = Inr r \<and>
    set_cell_data (tail_cell r) d h1 = Inr h2 \<and> updated h t (Some a) cs (xs @ [d]) (Some a, h2)"
proof -
  let ?n = "next_addr h"
  from rep have cs: "cs \<noteq> []" "distinct cs" "linked h cs xs None" "length cs = length xs"
    and ty: "list_all (has_type t) xs"
    and hd: "headers h a = Some \<lparr>list_type = t, llength = int (length xs), head_cell = Some (hd cs), tail_cell = Some (last cs)\<rparr>"
    by (elim list_rep_SomeE; blast)+
  obtain ds ys b x where eq: "cs = ds @ [b]" "xs = ys @ [x]" "length ds = length ys"
    and lnk: "linked h ds ys (Some b)" "cells h b = Some \<lparr>data = x, next_cell = None\<rparr>"
    by (rule linked_snocE [OF cs(3,1)])
  have bound: "c < ?n" if "c \<in> set cs" for c using linked_bound [OF cs(3) ok that] .
  define h2 where "h2 = h\<lparr>cells := (cells h)(b \<mapsto> \<lparr>data = x, next_cell = Some ?n\<rparr>, ?n \<mapsto> \<lparr>data = d, next_cell = None\<rparr>),
    headers := (headers h)(a \<mapsto> \<lparr>list_type = t, llength = int (length xs) + 1, head_cell = Some (hd cs), tail_cell = Some ?n\<rparr>),
    next_addr := ?n + 1\<rparr>"
  have "b < ?n" using bound eq(1) by simp
  have fresh: "a < ?n" using store_ok_bound(2) [OF ok, of a] hd by simp
  have "linked h2 ds ys (Some b)"
    using lnk(1) bound cs(2) by (subst linked_frame [where h = h]) (auto simp: h2_def eq(1))
  then have "linked h2 (ds @ [b, ?n]) (ys @ [x, d]) None"
    using eq(3) \<open>b < ?n\<close> by (simp add: linked_append) (simp add: h2_def)
  then have rep2: "list_rep h2 t (Some a) (cs @ [?n]) (xs @ [d])"
    using cs ty d bound by (auto simp: list_rep_def eq(1,2)) (auto simp: h2_def eq(1,2) hd_append)
  have ok2: "store_ok h2" using ok fresh \<open>b < ?n\<close> by (auto simp: store_ok_def h2_def)
  have "updated h t (Some a) cs (xs @ [d]) (Some a, h2)"
    by (rule updatedI [OF ok2 rep2]) (auto simp: untouched_def h2_def eq(1))
  moreover have "\<exists>h1 r. new_tail_cell (Some a) h = Inr h1 \<and> header_at h1 (Some a) = Inr r \<and> set_cell_data (tail_cell r) d h1 = Inr h2"
    using hd lnk(2) \<open>b < ?n\<close> by (auto simp: new_tail_cell_def access_defs eq(1) h2_def fun_upd_twist)
  ultimately show ?thesis by blast
qed

lemma new_head_updated:
  assumes ok: "store_ok h" and rep: "list_rep h t (Some a) cs xs" and d: "has_type t d"
  shows "\<exists>h1 r h2. new_head_cell (Some a) h = Inr h1 \<and> header_at h1 (Some a) = Inr r \<and>
    set_cell_data (head_cell r) d h1 = Inr h2 \<and> updated h t (Some a) cs (d # xs) (Some a, h2)"
proof -
  let ?n = "next_addr h"
  from rep have cs: "cs \<noteq> []" "distinct cs" "linked h cs xs None" "length cs = length xs"
    and ty: "list_all (has_type t) xs"
    and hd: "headers h a = Some \<lparr>list_type = t, llength = int (length xs), head_cell = Some (hd cs), tail_cell = Some (last cs)\<rparr>"
    by (elim list_rep_SomeE; blast)+
  have bound: "c < ?n" if "c \<in> set cs" for c using linked_bound [OF cs(3) ok that] .
  define h2 where "h2 = h\<lparr>cells := (cells h)(?n \<mapsto> \<lparr>data = d, next_cell = Some (hd cs)\<rparr>),
    headers := (headers h)(a \<mapsto> \<lparr>list_type = t, llength = int (length xs) + 1, head_cell = Some ?n, tail_cell = Some (last cs)\<rparr>),
    next_addr := ?n + 1\<rparr>"
  have fresh: "a < ?n" using store_ok_bound(2) [OF ok, of a] hd by simp
  have "linked h2 cs xs None"
    using cs(3) bound by (subst linked_frame [where h = h]) (auto simp: h2_def)
  then have rep2: "list_rep h2 t (Some a) (?n # cs) (d # xs)"
    using cs ty d bound first_cell_hd [OF cs(1)] by (auto simp: list_rep_def) (auto simp: h2_def)
  have ok2: "store_ok h2" using ok fresh by (auto simp: store_ok_def h2_def)
  have "updated h t (Some a) cs (d # xs) (Some a, h2)"
    by (rule updatedI [OF ok2 rep2]) (auto simp: untouched_def h2_def)
  moreover have "\<exists>h1 r. new_head_cell (Some a) h = Inr h1 \<and> header_at h1 (Some a) = Inr r \<and> set_cell_data (head_cell r) d h1 = Inr h2"
    using hd by (auto simp: new_head_cell_def access_defs h2_def)
  ultimately show ?thesis by blast
qed

lemma updated_check: "updated h t l cs ys (l', h') \<Longrightarrow> check_list_invariants l' h' = Inr ()"
  using check_rep by (auto simp: updated_def)

lemma lappend_updated:
  assumes ok: "store_ok h" and rep: "list_rep h t l cs xs" and d: "has_type t d"
  shows "\<exists>r. lappend_of t l d h = Inr r \<and> updated h t l cs (xs @ [d]) r"
proof (cases l)
  case None
  obtain l' h1 where new: "new_list t h = (l', h1)" by fastforce
  show ?thesis using new_list_updated [OF ok d new] rep None
    by (auto simp: lappend_of_def IsListOf_rep [OF rep] new updated_check)
next
  case (Some a)
  with new_tail_updated [OF ok rep [unfolded Some] d] show ?thesis
    by (auto simp: lappend_of_def IsListOf_rep [OF rep, unfolded Some] updated_check)
qed

lemma lcons_updated:
  assumes ok: "store_ok h" and rep: "list_rep h t l cs xs" and d: "has_type t d"
  shows "\<exists>r. lcons_of t d l h = Inr r \<and> updated h t l cs (d # xs) r"
proof (cases l)
  case None
  obtain l' h1 where new: "new_list t h = (l', h1)" by fastforce
  show ?thesis using new_list_updated [OF ok d new] rep None
    by (auto simp: lcons_of_def IsListOf_rep [OF rep] new updated_check)
next
  case (Some a)
  with new_head_updated [OF ok rep [unfolded Some] d] show ?thesis
    by (auto simp: lcons_of_def IsListOf_rep [OF rep, unfolded Some] updated_check)
qed

text \<open>Appending after a given cell.\<close>

lemma list_rep_splitE:
  assumes "list_rep h t (Some a) (ds @ b # es) xs"
  obtains ys x zs where "xs = ys @ x # zs" "length ds = length ys" "length es = length zs"
    "linked h ds ys (Some b)" "cells h b = Some \<lparr>data = x, next_cell = first_cell es None\<rparr>" "linked h es zs None"
    "distinct (ds @ b # es)" "list_all (has_type t) ys" "has_type t x" "list_all (has_type t) zs"
    "headers h a = Some \<lparr>list_type = t, llength = int (length ys + length zs) + 1, head_cell = first_cell ds (Some b),
      tail_cell = (if es = [] then Some b else Some (last es))\<rparr>"
proof -
  from assms have lnk: "linked h (ds @ b # es) xs None" and len: "length (ds @ b # es) = length xs"
    and dist: "distinct (ds @ b # es)" and ty: "list_all (has_type t) xs"
    and hd: "headers h a = Some \<lparr>list_type = t, llength = int (length xs),
      head_cell = Some (hd (ds @ b # es)), tail_cell = Some (last (ds @ b # es))\<rparr>"
    by (elim list_rep_SomeE; blast)+
  define ys where "ys = take (length ds) xs"
  obtain x zs where zs: "drop (length ds) xs = x # zs" using len by (cases "drop (length ds) xs") auto
  have xs: "xs = ys @ x # zs" unfolding ys_def zs [symmetric] by simp
  have ys: "length ds = length ys" using len by (simp add: ys_def)
  have zs: "length es = length zs" using len ys by (simp add: xs)
  have parts: "linked h ds ys (Some b)" "cells h b = Some \<lparr>data = x, next_cell = first_cell es None\<rparr>" "linked h es zs None"
    using lnk ys by (simp_all add: xs linked_append)
  show thesis
  proof (rule that [OF xs ys zs parts dist])
    show "headers h a = Some \<lparr>list_type = t, llength = int (length ys + length zs) + 1, head_cell = first_cell ds (Some b),
      tail_cell = (if es = [] then Some b else Some (last es))\<rparr>"
      using hd by (cases ds) (auto simp: xs)
  qed (use ty in \<open>simp_all add: xs\<close>)
qed

lemma lappend_cell_updated:
  assumes ok: "store_ok h" and rep: "list_rep h t (Some a) (ds @ b # es) xs" and d: "has_type t d"
  shows "\<exists>c h'. lappend_cell_of t (Some a) (Some b) d h = Inr (c, h') \<and>
    updated h t (Some a) (ds @ b # es) (take (length ds + 1) xs @ d # drop (length ds + 1) xs) (Some a, h')"
proof -
  let ?n = "next_addr h"
  from rep obtain ys x zs where xs: "xs = ys @ x # zs" "length ds = length ys" "length es = length zs"
    and lnk: "linked h ds ys (Some b)" "cells h b = Some \<lparr>data = x, next_cell = first_cell es None\<rparr>" "linked h es zs None"
    and ty: "distinct (ds @ b # es)" "list_all (has_type t) ys" "has_type t x" "list_all (has_type t) zs"
    and hd: "headers h a = Some \<lparr>list_type = t, llength = int (length ys + length zs) + 1, head_cell = first_cell ds (Some b),
      tail_cell = (if es = [] then Some b else Some (last es))\<rparr>"
    by (rule list_rep_splitE)
  define h2 where "h2 = h\<lparr>cells := (cells h)(b \<mapsto> \<lparr>data = x, next_cell = Some ?n\<rparr>,
      ?n \<mapsto> \<lparr>data = d, next_cell = first_cell es None\<rparr>),
    headers := (headers h)(a \<mapsto> \<lparr>list_type = t, llength = int (length ys + length zs) + 2, head_cell = first_cell ds (Some b),
      tail_cell = (if es = [] then Some ?n else Some (last es))\<rparr>), next_addr := ?n + 1\<rparr>"
  have bound: "c < ?n" if "c \<in> set (ds @ b # es)" for c
    using that linked_bound [OF lnk(1) ok] linked_bound [OF lnk(3) ok] store_ok_bound(1) [OF ok, of b] lnk(2) by auto
  have fresh: "a < ?n" "b < ?n" using store_ok_bound(2) [OF ok, of a] hd bound by simp_all
  have "linked h2 ds ys (Some b)" "linked h2 es zs None"
    using lnk(1,3) ty(1) bound by (subst linked_frame [where h = h]; fastforce simp: h2_def)+
  then have "linked h2 (ds @ b # ?n # es) (ys @ x # d # zs) None"
    using xs(2) fresh(2) by (simp add: linked_append) (simp add: h2_def)
  moreover have "distinct (ds @ b # ?n # es)" using ty(1) bound by fastforce
  ultimately have rep2: "list_rep h2 t (Some a) (ds @ b # ?n # es) (ys @ x # d # zs)"
    using ty d by (auto simp: list_rep_def) (auto simp: h2_def first_cell_def split: list.split)
  have ok2: "store_ok h2" using ok fresh by (auto simp: store_ok_def h2_def)
  have up: "updated h t (Some a) (ds @ b # es) (ys @ x # d # zs) (Some a, h2)"
    by (rule updatedI [OF ok2 rep2]) (auto simp: untouched_def h2_def)
  have last: "last es \<noteq> b" if "es \<noteq> []" using last_in_set [OF that] ty(1) by auto
  have "add_new_cell (Some a) (Some b) h = Inr (Some ?n, h2\<lparr>cells := (cells h2)(?n \<mapsto> \<lparr>data = unset, next_cell = first_cell es None\<rparr>)\<rparr>)"
    using lnk(2) hd fresh(2) last by (auto simp: add_new_cell_def access_defs h2_def fun_eq_iff intro!: store.equality)
  moreover have filled: "set_cell_data (Some ?n) d (h2\<lparr>cells := (cells h2)(?n \<mapsto> \<lparr>data = unset, next_cell = first_cell es None\<rparr>)\<rparr>) = Inr h2"
    by (auto simp: access_defs h2_def)
  ultimately have "lappend_cell_of t (Some a) (Some b) d h = Inr (Some ?n, h2)"
    using updated_check [OF up] filled by (simp add: lappend_cell_of_def IsListOf_rep [OF rep])
  with up show ?thesis by (simp add: xs)
qed

subsection \<open>Truncation\<close>

lemma truncate_loop_at:
  assumes "linked h es ys None" "k < length es"
  shows "truncate_loop l n (first_cell es None) (n - int k) h = truncate_loop l n (Some (es ! k)) n h"
  using assms
proof (induction k arbitrary: es ys)
  case 0
  then show ?case by (cases es) auto
next
  case (Suc k)
  then obtain b es' x ys' where "es = b # es'" "ys = x # ys'" by (cases es; cases ys) auto
  with Suc.prems Suc.IH [of es' ys'] show ?case
    by (subst truncate_loop.simps) (simp add: cell_at_def algebra_simps)
qed

lemma truncate_updated:
  assumes ok: "store_ok h" and rep: "list_rep h t l cs xs"
  shows "\<exists>r. list_truncate l n h = Some (Inr r) \<and> updated h t l cs (take (nat n) xs) r"
proof (cases "n \<le> 0 \<or> n \<ge> int (length xs)")
  case True
  then show ?thesis
    using ok rep by (auto simp: list_truncate_def list_length_rep [OF rep] updated_def)
next
  case False
  then obtain a where l: "l = Some a" using rep by (cases l) auto
  obtain k where n: "n = int k + 1" "k < length xs - 1" using False that [of "nat (n - 1)"] by auto
  have len: "length cs = length xs" using rep l by (auto elim: list_rep_SomeE)
  define ds b es where "ds = take k cs" and "b = cs ! k" and "es = drop (Suc k) cs"
  have cs: "cs = ds @ b # es" using n(2) len by (simp add: ds_def b_def es_def id_take_nth_drop)
  obtain ys x zs where xs: "xs = ys @ x # zs" "length ds = length ys" "length es = length zs"
    and lnk: "linked h ds ys (Some b)" "cells h b = Some \<lparr>data = x, next_cell = first_cell es None\<rparr>" "linked h es zs None"
    and ty: "distinct (ds @ b # es)" "list_all (has_type t) ys" "has_type t x" "list_all (has_type t) zs"
    and hd: "headers h a = Some \<lparr>list_type = t, llength = int (length ys + length zs) + 1, head_cell = first_cell ds (Some b),
      tail_cell = (if es = [] then Some b else Some (last es))\<rparr>"
    by (rule list_rep_splitE [OF rep [unfolded l cs]])
  have k: "length ys = k" using xs(2) n(2) len by (simp add: ds_def)
  define h2 where "h2 = h\<lparr>cells := (cells h)(b \<mapsto> \<lparr>data = x, next_cell = None\<rparr>),
    headers := (headers h)(a \<mapsto> \<lparr>list_type = t, llength = n, head_cell = first_cell ds (Some b), tail_cell = Some b\<rparr>)\<rparr>"
  have "linked h2 ds ys (Some b)"
    using lnk(1) ty(1) by (subst linked_frame [where h = h]) (auto simp: h2_def)
  then have "linked h2 (ds @ [b]) (ys @ [x]) None" using xs(2) by (simp add: linked_append) (simp add: h2_def)
  then have rep2: "list_rep h2 t l (ds @ [b]) (ys @ [x])"
    using ty k n(1) by (auto simp: list_rep_def l) (auto simp: h2_def first_cell_def split: list.split)
  have ok2: "store_ok h2"
    using ok store_ok_bound [OF ok] lnk(2) hd by (auto simp: store_ok_def h2_def)
  have up: "updated h t l cs (ys @ [x]) (l, h2)"
    by (rule updatedI [OF ok2 rep2]) (auto simp: untouched_def h2_def l cs)
  have "linked h cs xs None" using rep l by (auto elim: list_rep_SomeE)
  from truncate_loop_at [OF this, of k l n] have "list_truncate l n h = truncate_loop l n (Some b) n h"
    using False len n by (simp add: list_truncate_def list_length_rep [OF rep] list_head_rep [OF rep] b_def)
  also have "\<dots> = Some (Inr (l, h2))"
    using updated_check [OF up] lnk(2) hd by (subst truncate_loop.simps) (simp add: access_defs l h2_def)
  finally show ?thesis using up k n(1) by (simp add: xs nat_add_distrib)
qed

subsection \<open>Deletion\<close>

primrec remove_first :: "('a \<Rightarrow> bool) \<Rightarrow> 'a list \<Rightarrow> 'a list" where
  "remove_first test [] = []"
| "remove_first test (x # xs) = (if test x then xs else x # remove_first test xs)"

lemma remove_first_none: "\<forall>x \<in> set xs. \<not> test x \<Longrightarrow> remove_first test xs = xs"
  by (induction xs) auto

lemma remove_first_split: "\<forall>y \<in> set ys. \<not> test y \<Longrightarrow> test x \<Longrightarrow> remove_first test (ys @ x # zs) = ys @ zs"
  by (induction ys) auto

text \<open>The store without the cells of a list.\<close>

lemma free_loop_linked:
  assumes "linked h cs xs None" "distinct cs"
  shows "free_loop deep (first_cell cs None) h = Some (Inr (h\<lparr>cells := (\<lambda>a. if a \<in> set cs then None else cells h a),
    freed_data := (if deep then rev xs else []) @ freed_data h\<rparr>))"
  using assms
proof (induction cs arbitrary: h xs)
  case Nil
  then show ?case by (subst free_loop.simps) auto
next
  case (Cons b cs)
  then obtain x ys where xs: "xs = x # ys" by (cases xs) auto
  define h1 where "h1 = (if deep then h\<lparr>freed_data := x # freed_data h\<rparr> else h)\<lparr>cells := (cells h)(b := None)\<rparr>"
  have "linked h1 cs ys None"
    using Cons.prems by (subst linked_frame [where h = h]) (auto simp: h1_def xs)
  from Cons.IH [OF this] Cons.prems
  have "free_loop deep (first_cell cs None) h1 = Some (Inr (h\<lparr>cells := (\<lambda>a. if a \<in> set (b # cs) then None else cells h a),
    freed_data := (if deep then rev xs else []) @ freed_data h\<rparr>))"
    by (auto simp: h1_def xs fun_eq_iff intro!: store.equality)
  with Cons.prems show ?case
    by (subst free_loop.simps) (auto simp: cell_at_def pfree_cell_def xs h1_def)
qed

lemma list_free_rep:
  assumes "list_rep h t l cs xs"
  shows "list_free_private l deep h = Some (Inr (h\<lparr>cells := (\<lambda>a. if a \<in> set cs then None else cells h a),
    headers := (\<lambda>a. if l = Some a then None else headers h a),
    freed_data := (if deep then rev xs else []) @ freed_data h\<rparr>))"
proof (cases l)
  case None
  with assms show ?thesis
    by (simp add: list_free_private_def check_list_invariants_def list_head_def free_loop.simps)
next
  case (Some a)
  have "linked h cs xs None" "distinct cs" "headers h a \<noteq> None" using assms Some by (auto elim: list_rep_SomeE)
  then show ?thesis
    by (auto simp: list_free_private_def check_rep [OF assms, unfolded Some] list_head_rep [OF assms, unfolded Some] free_loop_linked Some
        pfree_header_def header_at_def fun_eq_iff intro!: store.equality)
qed

lemma delete_only_cell:
  assumes ok: "store_ok h" and rep: "list_rep h t (Some a) [b] [x]"
  shows "\<exists>r. list_delete_cell (Some a) (Some b) None h = Some (Inr r) \<and>
    updated h t (Some a) [b] [] r \<and> cells (snd r) b = None"
proof -
  have hd: "header_at h (Some a) = Inr \<lparr>list_type = t, llength = 1, head_cell = Some b, tail_cell = Some b\<rparr>"
    using rep by (simp add: list_rep_def header_at_def)
  obtain h' where free: "list_free (Some a) h = Some (Inr h')"
    and h': "h' = h\<lparr>cells := (\<lambda>c. if c = b then None else cells h c), headers := (\<lambda>c. if a = c then None else headers h c)\<rparr>"
    using list_free_rep [OF rep, of False] by (auto simp: list_free_def)
  have "list_delete_cell (Some a) (Some b) None h = Some (Inr (None, h'))"
    by (simp add: list_delete_cell_def check_rep [OF rep] list_head_rep [OF rep] hd free)
  moreover have "updated h t (Some a) [b] [] (None, h')"
    using ok by (intro updatedI [where cs' = "[]"]) (auto simp: h' store_ok_def untouched_def)
  ultimately show ?thesis by (auto simp: h')
qed

lemma delete_cell_updated:
  assumes ok: "store_ok h" and rep: "list_rep h t (Some a) (ds @ b # es) (ys @ x # zs)" and len: "length ds = length ys"
    and more: "\<not> (ds = [] \<and> es = [])"
  shows "\<exists>r. list_delete_cell (Some a) (Some b) (if ds = [] then None else Some (last ds)) h = Some (Inr r) \<and>
    updated h t (Some a) (ds @ b # es) (ys @ zs) r \<and> cells (snd r) b = None"
proof -
  from rep obtain ys' x' zs' where eq: "ys @ x # zs = ys' @ x' # zs'" and len': "length ds = length ys'" "length es = length zs'"
    and lnk': "linked h ds ys' (Some b)" "cells h b = Some \<lparr>data = x', next_cell = first_cell es None\<rparr>" "linked h es zs' None"
    and ty': "distinct (ds @ b # es)" "list_all (has_type t) ys'" "has_type t x'" "list_all (has_type t) zs'"
    and hd': "headers h a = Some \<lparr>list_type = t, llength = int (length ys' + length zs') + 1, head_cell = first_cell ds (Some b),
      tail_cell = (if es = [] then Some b else Some (last es))\<rparr>"
    by (rule list_rep_splitE)
  have same: "ys' = ys" "x' = x" "zs' = zs" using eq len len' by auto
  note lnk = lnk' [unfolded same] and ty = ty' [unfolded same] and hd = hd' [unfolded same]
  let ?prev = "if ds = [] then None else Some (last ds)"
  define h1 where "h1 = (if ds = [] then h
    else h\<lparr>cells := (cells h)(last ds \<mapsto> \<lparr>data = last ys, next_cell = first_cell es None\<rparr>)\<rparr>)"
  define h2 where "h2 = h1\<lparr>headers := (headers h)(a \<mapsto> \<lparr>list_type = t, llength = int (length ys + length zs),
      head_cell = first_cell ds (first_cell es None), tail_cell = (if es = [] then ?prev else Some (last es))\<rparr>),
    cells := (cells h1)(b := None)\<rparr>"
  have prev: "cells h (last ds) = Some \<lparr>data = last ys, next_cell = Some b\<rparr>" if "ds \<noteq> []"
    by (rule linked_snocE [OF lnk(1) that]) simp
  have "linked h2 ds ys (first_cell es None)"
  proof (cases "ds = []")
    case False
    obtain ds' ys' p y where eqs: "ds = ds' @ [p]" "ys = ys' @ [y]" "length ds' = length ys'"
      and l': "linked h ds' ys' (Some p)" by (rule linked_snocE [OF lnk(1) False])
    have "linked h2 ds' ys' (Some p)"
      using l' ty(1) by (subst linked_frame [where h = h]) (auto simp: h2_def h1_def eqs)
    then show ?thesis using eqs ty(1) by (simp add: linked_append) (simp add: h2_def h1_def)
  qed (use len in simp)
  moreover have "linked h2 es zs None"
  proof -
    have "last ds \<notin> set es" if "ds \<noteq> []" using last_in_set [OF that] ty(1) by auto
    then show ?thesis using lnk(3) ty(1) by (subst linked_frame [where h = h]) (auto simp: h2_def h1_def)
  qed
  ultimately have rep2: "list_rep h2 t (Some a) (ds @ es) (ys @ zs)"
    using ty len more by (auto simp: list_rep_def linked_append) (auto simp: h2_def first_cell_def split: list.split)
  have ok2: "store_ok h2"
    using ok store_ok_bound [OF ok] hd prev by (auto simp: store_ok_def h2_def h1_def)
  have apart: "last es \<noteq> b" if "es \<noteq> []" using last_in_set [OF that] ty(1) by auto
  have more': "int (length ys + length zs) + 1 \<noteq> 1" using more len len'(2) unfolding same by (cases ds; cases es) auto
  have "list_delete_cell (Some a) (Some b) ?prev h = Some (Inr (Some a, h2))"
  proof (cases "ds = []")
    case True
    then show ?thesis using lnk(2) hd apart more'
      by (simp add: list_delete_cell_def check_rep [OF rep] list_head_rep [OF rep] access_defs pfree_cell_def h2_def h1_def)
  next
    case False
    then have "last ds \<noteq> b" using ty(1) last_in_set [OF False] by auto
    with False show ?thesis using prev [OF False] lnk(2) hd apart more'
      by (simp add: list_delete_cell_def check_rep [OF rep] list_head_rep [OF rep] access_defs pfree_cell_def h2_def h1_def
          first_cell_hd [OF False])
  qed
  moreover have "updated h t (Some a) (ds @ b # es) (ys @ zs) (Some a, h2)"
    by (rule updatedI [OF ok2 rep2]) (auto simp: untouched_def h2_def h1_def)
  ultimately show ?thesis by (simp add: h2_def)
qed

lemma delete_loop_linked:
  assumes "linked h es (ys @ zs) None" "\<forall>y \<in> set ys. \<not> test y"
  shows "delete_loop test l (first_cell es None) prev h =
    delete_loop test l (first_cell (drop (length ys) es) None) (if ys = [] then prev else Some (es ! (length ys - 1))) h"
  using assms
proof (induction ys arbitrary: es prev)
  case (Cons y ys)
  then obtain b es' where es: "es = b # es'" by (cases es) auto
  have "delete_loop test l (first_cell es None) prev h = delete_loop test l (first_cell es' None) (Some b) h"
    using Cons.prems by (subst delete_loop.simps) (simp add: es cell_at_def)
  also have "\<dots> = delete_loop test l (first_cell (drop (length ys) es') None)
      (if ys = [] then Some b else Some (es' ! (length ys - 1))) h"
    by (rule Cons.IH) (use Cons.prems in \<open>simp_all add: es\<close>)
  finally show ?case by (cases ys) (simp_all add: es)
qed simp

lemma delete_start:
  assumes rep: "list_rep h t l cs xs"
  shows "list_delete_of t eq l d h = delete_loop (\<lambda>x. eq x d) l (first_cell cs None) None h"
  by (simp add: list_delete_of_def IsListOf_rep [OF rep] check_rep [OF rep] list_head_rep [OF rep])

text \<open>The cell with the first match is freed.\<close>

lemma delete_found:
  assumes ok: "store_ok h" and rep: "list_rep h t l cs (ys @ x # zs)" and x: "eq x d" and ys: "\<forall>y \<in> set ys. \<not> eq y d"
  shows "\<exists>r. list_delete_of t eq l d h = Some (Inr r) \<and> updated h t l cs (ys @ zs) r \<and> cells (snd r) (cs ! length ys) = None"
proof -
  obtain a where l: "l = Some a" using rep by (cases l) auto
  have lnk: "linked h cs (ys @ x # zs) None" and len: "length cs = length (ys @ x # zs)"
    using rep l by (auto elim: list_rep_SomeE)
  define ds b es where "ds = take (length ys) cs" and "b = cs ! length ys" and "es = drop (Suc (length ys)) cs"
  have cs: "cs = ds @ b # es" using len by (simp add: ds_def b_def es_def id_take_nth_drop)
  have ds: "length ds = length ys" "(if ds = [] then None else Some (last ds)) = (if ys = [] then None else Some (cs ! (length ys - 1)))"
    using len by (auto simp: ds_def last_conv_nth)
  have c: "cells h b = Some \<lparr>data = x, next_cell = first_cell es None\<rparr>" using lnk ds(1) by (simp add: cs linked_append)
  have rest: "drop (length ys) cs = b # es" using ds(1) by (simp add: cs)
  let ?prev = "if ds = [] then None else Some (last ds)"
  have "list_delete_of t eq l d h = delete_loop (\<lambda>x. eq x d) l (Some b) ?prev h"
    unfolding delete_start [OF rep] delete_loop_linked [OF lnk ys] rest ds(2) by simp
  also have "\<dots> = list_delete_cell l (Some b) ?prev h"
    using c x by (subst delete_loop.simps) (simp add: cell_at_def)
  finally have "list_delete_of t eq l d h = list_delete_cell l (Some b) ?prev h" .
  moreover have "\<exists>r. list_delete_cell l (Some b) ?prev h = Some (Inr r) \<and> updated h t l cs (ys @ zs) r \<and> cells (snd r) b = None"
  proof (cases "ds = [] \<and> es = []")
    case True
    then show ?thesis using delete_only_cell [OF ok, of t a b x] rep ds(1) len by (auto simp: l cs)
  next
    case False
    then show ?thesis using delete_cell_updated [OF ok rep [unfolded l cs] ds(1)] by (auto simp: l cs)
  qed
  ultimately show ?thesis by (simp add: b_def)
qed

lemma delete_updated:
  assumes ok: "store_ok h" and rep: "list_rep h t l cs xs"
  shows "\<exists>r. list_delete_of t eq l d h = Some (Inr r) \<and> updated h t l cs (remove_first (\<lambda>x. eq x d) xs) r"
proof (cases "\<exists>x \<in> set xs. eq x d")
  case False
  have lnk: "linked h cs (xs @ []) None" using rep by (cases l) (auto elim: list_rep_SomeE)
  have "list_delete_of t eq l d h = Some (Inr (l, h))"
    unfolding delete_start [OF rep] using False linked_length [OF lnk]
    by (subst delete_loop_linked [OF lnk]) (simp_all add: delete_loop.simps)
  moreover have "updated h t l cs xs (l, h)" using ok rep by (auto simp: updated_def)
  ultimately show ?thesis using remove_first_none [of xs "\<lambda>x. eq x d"] False by auto
next
  case True
  then obtain ys x zs where xs: "xs = ys @ x # zs" and x: "eq x d" and ys: "\<forall>y \<in> set ys. \<not> eq y d"
    using split_list_first_prop [of xs "\<lambda>x. eq x d"] by blast
  with delete_found [of h t l cs ys x zs eq d] ok rep show ?thesis
    using remove_first_split [of ys "\<lambda>x. eq x d" x zs] by auto
qed

lemma delete_first_updated:
  assumes ok: "store_ok h" and rep: "list_rep h t l cs xs"
  shows "\<exists>r. list_delete_first l h = Some (Inr r) \<and> updated h t l cs (tl xs) r"
proof (cases l)
  case None
  then show ?thesis using ok rep by (auto simp: list_delete_first_def check_list_invariants_def updated_def)
next
  case (Some a)
  then have "length cs = length xs" "cs \<noteq> []" using rep by (auto elim: list_rep_SomeE)
  then obtain b es x zs where cs: "cs = b # es" "xs = x # zs" "length es = length zs" by (cases cs; cases xs) auto
  have "list_delete_first l h = list_delete_cell l (Some b) None h"
    using check_rep [OF rep] list_head_rep [OF rep] Some by (simp add: list_delete_first_def cs)
  moreover have "\<exists>r. list_delete_cell l (Some b) None h = Some (Inr r) \<and> updated h t l cs zs r"
  proof (cases "es = []")
    case True
    then show ?thesis using delete_only_cell [OF ok, of t a b x] rep cs Some by auto
  next
    case False
    then show ?thesis using delete_cell_updated [OF ok, of t a "[]" b es "[]" x zs] rep cs Some by auto
  qed
  ultimately show ?thesis by (simp add: cs)
qed

subsection \<open>Reading\<close>

lemma member_loop_linked:
  "linked h cs xs None \<Longrightarrow> member_loop test (first_cell cs None) h = Some (Inr (\<exists>x \<in> set xs. test x))"
proof (induction cs arbitrary: xs)
  case Nil
  then show ?case by (simp add: member_loop.simps)
next
  case (Cons b cs)
  then obtain x ys where xs: "xs = x # ys" by (cases xs) auto
  with Cons show ?case by (subst member_loop.simps) (simp add: cell_at_def)
qed

lemma member_rep:
  assumes rep: "list_rep h t l cs xs"
  shows "list_member_of t eq l d h = Some (Inr (\<exists>x \<in> set xs. eq x d))"
proof -
  have "linked h cs xs None" using rep by (cases l) (auto elim: list_rep_SomeE)
  then show ?thesis
    by (simp add: list_member_of_def IsListOf_rep [OF rep] check_rep [OF rep] list_head_rep [OF rep] member_loop_linked)
qed

lemma nth_loop_linked: "linked h cs xs q \<Longrightarrow> n < length cs \<Longrightarrow> nth_loop h n (first_cell cs q) = Inr (Some (cs ! n))"
proof (induction n arbitrary: cs xs)
  case 0
  then show ?case by (cases cs) auto
next
  case (Suc n)
  then obtain b cs' x xs' where "cs = b # cs'" "xs = x # xs'" by (cases cs; cases xs) auto
  with Suc.prems Suc.IH [of cs' xs'] show ?case by (simp add: cell_at_def)
qed

lemma linked_nth: "linked h cs xs q \<Longrightarrow> n < length cs \<Longrightarrow> \<exists>p. cells h (cs ! n) = Some \<lparr>data = xs ! n, next_cell = p\<rparr>"
proof (induction n arbitrary: cs xs)
  case 0
  then show ?case by (cases cs; cases xs) auto
next
  case (Suc n)
  then obtain b cs' x xs' where "cs = b # cs'" "xs = x # xs'" by (cases cs; cases xs) auto
  with Suc show ?case by simp
qed

lemma nth_rep:
  assumes rep: "list_rep h t l cs xs"
  shows "list_nth_of t l n h = (if 0 \<le> n \<and> n < int (length xs) then Inr (xs ! nat n)
    else if xs = [] then Inl (TRAP ''list != NIL'') else if n < 0 then Inl (TRAP ''n >= 0'') else Inl (TRAP ''n < list->length''))"
proof (cases l)
  case None
  with rep show ?thesis by (auto simp: list_nth_of_def list_nth_cell_def)
next
  case (Some a)
  then have cs: "cs \<noteq> []" "linked h cs xs None" "length cs = length xs"
    and hd: "headers h a = Some \<lparr>list_type = t, llength = int (length xs), head_cell = Some (hd cs), tail_cell = Some (last cs)\<rparr>"
    using rep by (auto elim: list_rep_SomeE)
  have nonempty: "xs \<noteq> []" using cs by auto
  note reads = list_nth_of_def list_nth_cell_def Some IsListOf_rep [OF rep [unfolded Some]] check_rep [OF rep [unfolded Some]]
    header_at_def hd
  show ?thesis
  proof (cases "0 \<le> n \<and> n < int (length xs)")
    case True
    then obtain k where n: "n = int k" "k < length cs" using cs(3) by (metis nat_0_le of_nat_less_iff)
    obtain p where p: "cells h (cs ! k) = Some \<lparr>data = xs ! k, next_cell = p\<rparr>" using linked_nth [OF cs(2) n(2)] by blast
    have "(if n = int (length xs) - 1 then Inr (Some (last cs)) else nth_loop h k (Some (hd cs))) = (Inr (Some (cs ! k)) :: pg_error + nat option)"
    proof (cases "n = int (length xs) - 1")
      case True
      then have "k = length cs - 1" using n cs(3) by linarith
      with True cs(1) show ?thesis by (simp add: last_conv_nth)
    qed (use nth_loop_linked [OF cs(2) n(2)] first_cell_hd [OF cs(1), of None] in simp)
    then show ?thesis using True n p by (auto simp: reads cell_at_def split: if_splits)
  next
    case False
    then show ?thesis using nonempty by (auto simp: reads)
  qed
qed

section \<open>New lists\<close>

text \<open>A routine that builds a new list touches no old header or cell: it updates the empty list.\<close>

lemma copy_loop_linked:
  assumes "store_ok h" "linked h es zs None" "cells h p = Some \<lparr>data = x, next_cell = None\<rparr>" "p \<notin> set es"
  shows "\<exists>ns h'. copy_loop (Some p) (first_cell es None) h = Some (Inr (Some (last (p # ns)), h')) \<and>
    store_ok h' \<and> linked h' (p # ns) (x # zs) None \<and> distinct ns \<and> set ns \<subseteq> {next_addr h..} \<and>
    untouched h h' {} {p} \<and> headers h' = headers h"
  using assms
proof (induction es arbitrary: h p x zs)
  case Nil
  then show ?case by (intro exI [of _ "[]"]) (auto simp: copy_loop.simps)
next
  case (Cons b es)
  then obtain z ys where zs: "zs = z # ys" by (cases zs) auto
  let ?n = "next_addr h"
  define h2 where "h2 = h\<lparr>next_addr := ?n + 1, cells := (cells h)(?n \<mapsto> \<lparr>data = z, next_cell = None\<rparr>, p \<mapsto> \<lparr>data = x, next_cell = Some ?n\<rparr>)\<rparr>"
  have p: "p < ?n" using Cons.prems(3) store_ok_bound(1) [OF Cons.prems(1), of p] by simp
  have bound: "c < ?n" if "c \<in> set (b # es)" for c using linked_bound [OF Cons.prems(2,1) that] .
  have step: "copy_loop (Some p) (first_cell (b # es) None) h = copy_loop (Some ?n) (first_cell es None) h2"
    using Cons.prems(2,3) p by (subst copy_loop.simps) (simp add: access_defs zs h2_def)
  have ok: "store_ok h2" using Cons.prems(1) p by (auto simp: store_ok_def h2_def)
  have lnk: "linked h2 es ys None"
    using Cons.prems(2,4) bound by (subst linked_frame [where h = h]) (auto simp: h2_def zs)
  have new: "cells h2 ?n = Some \<lparr>data = z, next_cell = None\<rparr>" using p by (simp add: h2_def)
  have apart: "?n \<notin> set es" using bound by auto
  from Cons.IH [OF ok lnk new apart] obtain ns h' where
    run: "copy_loop (Some ?n) (first_cell es None) h2 = Some (Inr (Some (last (?n # ns)), h'))" and
    res: "store_ok h'" "linked h' (?n # ns) (z # ys) None" "distinct ns" "set ns \<subseteq> {next_addr h2..}"
      "untouched h2 h' {} {?n}" "headers h' = headers h2" by blast
  have "cells h' p = Some \<lparr>data = x, next_cell = Some ?n\<rparr>" using res(5) p by (auto simp: untouched_def h2_def)
  with res(2) have lnk': "linked h' (p # ?n # ns) (x # zs) None" by (simp add: zs)
  have un: "untouched h h' {} {p}" using res(5) p by (auto simp: untouched_def h2_def)
  have "distinct (?n # ns)" "set (?n # ns) \<subseteq> {?n..}" "headers h' = headers h" using res(3,4,6) by (auto simp: h2_def)
  then show ?case using step run res(1) lnk' un
    by (intro exI [of _ "?n # ns"] exI [of _ h']) (simp add: zs)
qed

lemma copy_new_updated:
  assumes ok: "store_ok h" and lnk: "linked h es zs None" "es \<noteq> []" and ty: "list_all (has_type t) zs"
  shows "\<exists>l h1 r' r. new_list t h = (l, h1) \<and> header_at h1 l = Inr r' \<and>
    copy_from l (first_cell es None) (set_header l (r'\<lparr>llength := int (length zs)\<rparr>) h1) = Some (Inr r) \<and> updated h t None [] zs r"
proof -
  let ?n = "next_addr h"
  obtain b es' z zs' where eq: "es = b # es'" "zs = z # zs'" using lnk by (cases es; cases zs) auto
  define r0 where "r0 = \<lparr>list_type = t, llength = int (length zs), head_cell = Some ?n, tail_cell = Some ?n\<rparr>"
  define h2 where "h2 = h\<lparr>cells := (cells h)(?n \<mapsto> \<lparr>data = z, next_cell = None\<rparr>),
    headers := (headers h)(?n + 1 \<mapsto> r0), next_addr := ?n + 2\<rparr>"
  have bound: "c < ?n" if "c \<in> set es" for c using linked_bound [OF lnk(1) ok that] .
  have ok2: "store_ok h2" using ok by (auto simp: store_ok_def h2_def)
  have lnk2: "linked h2 es' zs' None"
    using lnk(1) bound by (subst linked_frame [where h = h]) (auto simp: h2_def eq)
  have new: "cells h2 ?n = Some \<lparr>data = z, next_cell = None\<rparr>" by (simp add: h2_def)
  have apart: "?n \<notin> set es'" using bound by (auto simp: eq)
  obtain ns h' where run: "copy_loop (Some ?n) (first_cell es' None) h2 = Some (Inr (Some (last (?n # ns)), h'))" and
    res: "store_ok h'" "linked h' (?n # ns) (z # zs') None" "distinct ns" "set ns \<subseteq> {next_addr h2..}"
      "untouched h2 h' {} {?n}" "headers h' = headers h2"
    using copy_loop_linked [OF ok2 lnk2 new apart] by blast
  define h3 where "h3 = h'\<lparr>headers := (headers h')(?n + 1 \<mapsto> r0\<lparr>tail_cell := Some (last (?n # ns))\<rparr>)\<rparr>"
  obtain y where last: "cells h' (last (?n # ns)) = Some \<lparr>data = y, next_cell = None\<rparr>"
    by (rule linked_snocE [OF res(2)]) auto
  have "linked h3 (?n # ns) zs None" using res(2) by (subst linked_frame [where h = h']) (auto simp: h3_def eq)
  moreover have "distinct (?n # ns)" using res(3,4) by (auto simp: h2_def)
  ultimately have rep3: "list_rep h3 t (Some (?n + 1)) (?n # ns) zs" using ty by (simp add: list_rep_def) (simp add: h3_def r0_def)
  have ok3: "store_ok h3" using res(1,5) by (auto simp: store_ok_def h3_def untouched_def h2_def)
  have up: "updated h t None [] zs (Some (?n + 1), h3)"
    by (rule updatedI [OF ok3 rep3]) (use res(4,5,6) in \<open>auto simp: untouched_def h2_def h3_def\<close>)
  define h1 where "h1 = snd (new_list t h)"
  have h1: "new_list t h = (Some (?n + 1), h1)" "header_at h1 (Some (?n + 1)) = Inr (r0\<lparr>llength := 1\<rparr>)"
    by (simp_all add: h1_def new_list_def access_defs r0_def)
  let ?h1 = "set_header (Some (?n + 1)) (r0\<lparr>llength := 1, llength := int (length zs)\<rparr>) h1"
  have c: "cell_at ?h1 (Some b) = Inr \<lparr>data = z, next_cell = first_cell es' None\<rparr>"
    using lnk(1) bound by (auto simp: h1_def new_list_def access_defs eq)
  have s: "header_at ?h1 (Some (?n + 1)) = Inr r0" "set_cell_data (Some ?n) z ?h1 = Inr h2"
    by (auto simp: h1_def new_list_def access_defs r0_def h2_def intro!: store.equality)
  have nxt: "set_cell_next (Some (last (?n # ns))) None h' = Inr h'"
    using last by (simp add: access_defs fun_upd_idem)
  have "copy_from (Some (?n + 1)) (first_cell es None) ?h1 = Some (Inr (Some (?n + 1), h3))"
    using c s run nxt updated_check [OF up] by (simp add: copy_from_def eq r0_def set_header_def h3_def)
  then show ?thesis using h1 up by auto
qed

lemma linked_rep: "list_rep h t l cs xs \<Longrightarrow> linked h cs xs None"
  by (cases l) (auto elim: list_rep_SomeE)

lemma typed_rep: "list_rep h t l cs xs \<Longrightarrow> list_all (has_type t) xs"
  by (simp add: list_rep_def)

lemma copy_updated:
  assumes ok: "store_ok h" and rep: "list_rep h t l cs xs"
  shows "\<exists>r. list_copy l h = Some (Inr r) \<and> updated h t None [] xs r"
proof (cases l)
  case None
  then show ?thesis using ok rep by (auto simp: list_copy_def updated_def)
next
  case (Some a)
  have cs: "cs \<noteq> []" and hd: "header_at h (Some a) =
      Inr \<lparr>list_type = t, llength = int (length xs), head_cell = Some (hd cs), tail_cell = Some (last cs)\<rparr>"
    using rep Some by (auto simp: header_at_def elim: list_rep_SomeE)
  from copy_new_updated [OF ok linked_rep [OF rep] cs typed_rep [OF rep]] show ?thesis
    using hd first_cell_hd [OF cs] by (auto simp: list_copy_def Some)
qed

lemma copy_tail_updated:
  assumes ok: "store_ok h" and rep: "list_rep h t l cs xs"
  shows "\<exists>r. list_copy_tail l n h = Some (Inr r) \<and> updated h t None [] (drop (nat n) xs) r"
proof (cases "l = None \<or> n \<ge> int (length xs)")
  case True
  have "list_copy_tail l n h = Some (Inr (None, h)) \<and> drop (nat n) xs = []"
  proof (cases l)
    case None
    then show ?thesis using rep by (simp add: list_copy_tail_def)
  next
    case (Some a)
    with True rep show ?thesis by (auto simp: list_copy_tail_def header_at_def elim!: list_rep_SomeE)
  qed
  then show ?thesis using ok by (auto simp: updated_def)
next
  case False
  then obtain a where l: "l = Some a" by auto
  let ?k = "nat n"
  have cs: "cs \<noteq> []" "length cs = length xs" and hd: "header_at h (Some a) =
      Inr \<lparr>list_type = t, llength = int (length xs), head_cell = Some (hd cs), tail_cell = Some (last cs)\<rparr>"
    using rep l by (auto simp: header_at_def elim: list_rep_SomeE)
  have k: "?k < length cs" using False cs by (cases cs) auto
  note lnk = linked_rep [OF rep]
  have "linked h (take ?k cs @ drop ?k cs) (take ?k xs @ drop ?k xs) None" using lnk by simp
  then have lnk2: "linked h (drop ?k cs) (drop ?k xs) None" using cs(2) by (subst (asm) linked_append) auto
  have ty: "list_all (has_type t) (drop ?k xs)" using typed_rep [OF rep] by (auto simp: list_all_iff dest: in_set_dropD)
  obtain l1 h1 r' r where copy: "new_list t h = (l1, h1)" "header_at h1 l1 = Inr r'"
    "copy_from l1 (first_cell (drop ?k cs) None) (set_header l1 (r'\<lparr>llength := int (length (drop ?k xs))\<rparr>) h1) = Some (Inr r)"
    "updated h t None [] (drop ?k xs) r"
    using copy_new_updated [OF ok lnk2 _ ty] k by auto
  let ?h = "set_header l1 (r'\<lparr>llength := int (length (drop ?k xs))\<rparr>) h1"
  have "linked ?h cs xs None"
  proof (subst linked_frame [where h = h])
    fix c assume "c \<in> set cs"
    with linked_bound [OF lnk ok this] copy(1) show "cells ?h c = cells h c"
      by (auto simp: new_list_def palloc_cell_def palloc_header_def set_header_def)
  qed (rule lnk)
  from nth_loop_linked [OF this k] have "nth_loop ?h ?k (Some (hd cs)) = Inr (first_cell (drop ?k cs) None)"
    using k first_cell_hd [OF cs(1), of None] by (simp add: first_cell_hd hd_drop_conv_nth)
  moreover have "int (length xs) - (if n < 0 then 0 else n) = int (length (drop ?k xs))" "nat (if n < 0 then 0 else n) = ?k"
    "\<not> (if n < 0 then 0 else n) \<ge> int (length xs)"
    using False k cs(2) by auto
  ultimately have "list_copy_tail l n h = Some (Inr r)"
    unfolding list_copy_tail_def Let_def l using hd copy(1,2,3) by simp
  with copy(4) show ?thesis by blast
qed

lemma updated_trans:
  assumes "untouched h h1 (set_option l) (set cs)" "set cs1 \<subseteq> set cs \<union> {next_addr h..}"
    "set_option l1 \<subseteq> set_option l \<union> {next_addr h..}" "updated h1 t l1 cs1 zs r"
  shows "updated h t l cs zs r"
proof -
  from assms(4) obtain cs2 where r: "store_ok (snd r)" "list_rep (snd r) t (fst r) cs2 zs"
    "untouched h1 (snd r) (set_option l1) (set cs1)" "set cs2 \<subseteq> set cs1 \<union> {next_addr h1..}"
    "set_option (fst r) \<subseteq> set_option l1 \<union> {next_addr h1..}" by (auto simp: updated_def)
  have "untouched h (snd r) (set_option l) (set cs)"
    using assms(2,3) by (intro untouched_trans [OF assms(1) r(3)]) auto
  moreover have "next_addr h \<le> next_addr h1" using assms(1) by (simp add: untouched_def)
  then have sub: "{next_addr h1..} \<subseteq> A \<union> {next_addr h..}" for A by auto
  have "set cs2 \<subseteq> set cs \<union> {next_addr h..}" by (rule order_trans [OF r(4) Un_least [OF assms(2) sub]])
  moreover have "set_option (fst r) \<subseteq> set_option l \<union> {next_addr h..}" by (rule order_trans [OF r(5) Un_least [OF assms(3) sub]])
  ultimately show ?thesis using r(1,2) unfolding updated_def by (intro exI [of _ cs2] conjI)
qed

primrec add_missing :: "('a \<Rightarrow> 'a \<Rightarrow> bool) \<Rightarrow> 'a list \<Rightarrow> 'a list \<Rightarrow> 'a list" where
  "add_missing eq xs [] = xs"
| "add_missing eq xs (z # zs) = add_missing eq (if \<exists>x \<in> set xs. eq x z then xs else xs @ [z]) zs"

text \<open>One round of a loop that may append to a list apart from the cells it goes through.\<close>

lemma append_apart:
  assumes ok: "store_ok h" and rep: "list_rep h t l cs xs" and d: "has_type t d"
    and lnk: "linked h es zs None" "set es \<inter> set cs = {}"
  obtains l' h' cs' where "lappend_of t l d h = Inr (l', h')" "store_ok h'" "list_rep h' t l' cs' (xs @ [d])"
    "linked h' es zs None" "set es \<inter> set cs' = {}" "\<forall>a \<in> set es. cells h' a = cells h a"
    "untouched h h' (set_option l) (set cs)" "set cs' \<subseteq> set cs \<union> {next_addr h..}" "set_option l' \<subseteq> set_option l \<union> {next_addr h..}"
proof -
  obtain l' h' cs' where res: "lappend_of t l d h = Inr (l', h')" "store_ok h'" "list_rep h' t l' cs' (xs @ [d])"
    "untouched h h' (set_option l) (set cs)" "set cs' \<subseteq> set cs \<union> {next_addr h..}" "set_option l' \<subseteq> set_option l \<union> {next_addr h..}"
    using lappend_updated [OF ok rep d] by (auto simp: updated_def)
  have bound: "a < next_addr h" if "a \<in> set es" for a using linked_bound [OF lnk(1) ok that] .
  have same: "cells h' a = cells h a" if "a \<in> set es" for a
    using that bound [OF that] res(4) lnk(2) by (auto simp: untouched_def)
  have "linked h' es zs None" using lnk(1) linked_frame [of es h' h zs None] same by blast
  moreover have "set es \<inter> set cs' = {}" using res(5) lnk(2) bound by fastforce
  ultimately show thesis using that res same by blast
qed

lemma union_loop_updated:
  assumes "store_ok h" "list_rep h t l cs xs" "linked h es zs None" "set es \<inter> set cs = {}" "list_all (has_type t) zs"
  shows "\<exists>r. union_loop t eq (first_cell es None) l h = Some (Inr r) \<and> updated h t l cs (add_missing eq xs zs) r"
  using assms
proof (induction es arbitrary: h l cs xs zs)
  case Nil
  then show ?case by (auto simp: union_loop.simps updated_def)
next
  case (Cons b es)
  then obtain z ys where zs: "zs = z # ys" by (cases zs) auto
  have c: "cells h b = Some \<lparr>data = z, next_cell = first_cell es None\<rparr>" and lnk: "linked h es ys None"
    and z: "has_type t z" "list_all (has_type t) ys" and apart: "set es \<inter> set cs = {}"
    using Cons.prems by (auto simp: zs)
  note mem = member_rep [OF Cons.prems(2), of eq z]
  show ?case
  proof (cases "\<exists>x \<in> set xs. eq x z")
    case True
    then have "union_loop t eq (first_cell (b # es) None) l h = union_loop t eq (first_cell es None) l h"
      using c mem by (subst union_loop.simps) (simp add: cell_at_def)
    with Cons.IH [OF Cons.prems(1,2) lnk apart z(2)] True show ?thesis by (simp add: zs)
  next
    case False
    obtain l' h' cs' where app: "lappend_of t l z h = Inr (l', h')" "store_ok h'" "list_rep h' t l' cs' (xs @ [z])"
      "linked h' (b # es) zs None" "set (b # es) \<inter> set cs' = {}" "\<forall>a \<in> set (b # es). cells h' a = cells h a"
      "untouched h h' (set_option l) (set cs)" "set cs' \<subseteq> set cs \<union> {next_addr h..}" "set_option l' \<subseteq> set_option l \<union> {next_addr h..}"
      by (rule append_apart [OF Cons.prems(1,2) z(1) Cons.prems(3,4)])
    have "union_loop t eq (first_cell (b # es) None) l h = union_loop t eq (first_cell es None) l' h'"
      using c mem False app(1,6) by (subst union_loop.simps) (simp add: cell_at_def)
    moreover obtain r where "union_loop t eq (first_cell es None) l' h' = Some (Inr r)" "updated h' t l' cs' (add_missing eq (xs @ [z]) ys) r"
      using Cons.IH [OF app(2,3) _ _ z(2)] app(4,5) by (auto simp: zs)
    ultimately show ?thesis using False updated_trans [OF app(7,8,9)] by (auto simp: zs)
  qed
qed

lemma filter_loop_updated:
  assumes "store_ok h" "list_rep h t l cs xs" "linked h es zs None" "set es \<inter> set cs = {}" "list_all (has_type t) zs"
    "list_rep h t l2 cs2 ys" "set cs2 \<inter> set cs = {}" "set_option l2 \<inter> set_option l = {}"
  shows "\<exists>r. filter_loop t eq common l2 (first_cell es None) l h = Some (Inr r) \<and>
    updated h t l cs (xs @ filter (\<lambda>z. (\<exists>y \<in> set ys. eq y z) = common) zs) r"
  using assms
proof (induction es arbitrary: h l cs xs zs)
  case Nil
  then show ?case by (auto simp: filter_loop.simps updated_def)
next
  case (Cons b es)
  then obtain z us where zs: "zs = z # us" by (cases zs) auto
  have c: "cells h b = Some \<lparr>data = z, next_cell = first_cell es None\<rparr>" and lnk: "linked h es us None"
    and z: "has_type t z" "list_all (has_type t) us" and apart: "set es \<inter> set cs = {}"
    using Cons.prems by (auto simp: zs)
  note mem = member_rep [OF Cons.prems(6), of eq z]
  show ?case
  proof (cases "(\<exists>y \<in> set ys. eq y z) = common")
    case False
    then have "filter_loop t eq common l2 (first_cell (b # es) None) l h = filter_loop t eq common l2 (first_cell es None) l h"
      using c mem by (subst filter_loop.simps) (simp add: cell_at_def)
    with Cons.IH [OF Cons.prems(1,2) lnk apart z(2) Cons.prems(6,7,8)] False show ?thesis by (simp add: zs)
  next
    case True
    obtain l' h' cs' where app: "lappend_of t l z h = Inr (l', h')" "store_ok h'" "list_rep h' t l' cs' (xs @ [z])"
      "linked h' (b # es) zs None" "set (b # es) \<inter> set cs' = {}" "\<forall>a \<in> set (b # es). cells h' a = cells h a"
      "untouched h h' (set_option l) (set cs)" "set cs' \<subseteq> set cs \<union> {next_addr h..}" "set_option l' \<subseteq> set_option l \<union> {next_addr h..}"
      by (rule append_apart [OF Cons.prems(1,2) z(1) Cons.prems(3,4)])
    have run: "filter_loop t eq common l2 (first_cell (b # es) None) l h = filter_loop t eq common l2 (first_cell es None) l' h'"
      using c mem True app(1,6) by (subst filter_loop.simps) (simp add: cell_at_def)
    have rep2: "list_rep h' t l2 cs2 ys" by (rule list_rep_frame [OF Cons.prems(6,1) app(7) Cons.prems(7,8)])
    have "a < next_addr h" if "a \<in> set cs2 \<union> set_option l2" for a
      using that linked_bound [OF linked_rep [OF Cons.prems(6)] Cons.prems(1)] store_ok_bound(2) [OF Cons.prems(1)] Cons.prems(6)
      by (auto simp: list_rep_def)
    then have "set cs2 \<inter> set cs' = {}" "set_option l2 \<inter> set_option l' = {}"
      using app(8,9) Cons.prems(7,8) by fastforce+
    from Cons.IH [OF app(2,3) _ _ z(2) rep2 this] obtain r where
      "filter_loop t eq common l2 (first_cell es None) l' h' = Some (Inr r)"
      "updated h' t l' cs' ((xs @ [z]) @ filter (\<lambda>z. (\<exists>y \<in> set ys. eq y z) = common) us) r"
      using app(4,5) by (auto simp: zs)
    with run True updated_trans [OF app(7,8,9)] show ?thesis by (auto simp: zs)
  qed
qed

lemma append_unique_updated:
  assumes ok: "store_ok h" and rep: "list_rep h t l cs xs" and d: "has_type t d"
  shows "\<exists>r. list_append_unique_of t eq l d h = Some (Inr r) \<and> updated h t l cs (add_missing eq xs [d]) r"
proof -
  have "updated h t l cs xs (l, h)" using ok rep by (auto simp: updated_def)
  then show ?thesis using lappend_updated [OF ok rep d] by (auto simp: list_append_unique_of_def member_rep [OF rep])
qed

lemma concat_unique_updated:
  assumes ok: "store_ok h" and rep: "list_rep h t l cs xs" "list_rep h t l2 cs2 ys" and apart: "set cs2 \<inter> set cs = {}"
  shows "\<exists>r. list_concat_unique_of t eq l l2 h = Some (Inr r) \<and> updated h t l cs (add_missing eq xs ys) r"
  using union_loop_updated [OF ok rep(1) linked_rep [OF rep(2)] apart typed_rep [OF rep(2)], of eq]
  by (auto simp: list_concat_unique_of_def IsListOf_rep [OF rep(1)] IsListOf_rep [OF rep(2)] list_head_rep [OF rep(2)] updated_check)

text \<open>A list that was there before a new one was built.\<close>

lemma old_list:
  assumes "store_ok h" "list_rep h t l cs xs" "updated h t' None [] ys r"
  shows "list_rep (snd r) t l cs xs"
  using assms(3) list_rep_frame [OF assms(2,1)] by (auto simp: updated_def)

lemma union_updated:
  assumes ok: "store_ok h" and rep: "list_rep h t l1 cs1 xs" "list_rep h t l2 cs2 ys"
  shows "\<exists>r. list_union_of t eq l1 l2 h = Some (Inr r) \<and> updated h t None [] (add_missing eq xs ys) r"
proof -
  obtain l h1 where copy: "list_copy l1 h = Some (Inr (l, h1))" and up: "updated h t None [] xs (l, h1)"
    using copy_updated [OF ok rep(1)] by auto
  then obtain cs where new: "store_ok h1" "list_rep h1 t l cs xs" "untouched h h1 {} {}" "set cs \<subseteq> {next_addr h..}"
    "set_option l \<subseteq> {next_addr h..}" by (auto simp: updated_def)
  have rep2: "list_rep h1 t l2 cs2 ys" using old_list [OF ok rep(2) up] by simp
  have "set cs2 \<inter> set cs = {}" using linked_bound [OF linked_rep [OF rep(2)] ok] new(4) by fastforce
  from union_loop_updated [OF new(1,2) linked_rep [OF rep2] this typed_rep [OF rep2], of eq] obtain r where
    run: "union_loop t eq (first_cell cs2 None) l h1 = Some (Inr r)" and r: "updated h1 t l cs (add_missing eq xs ys) r" by blast
  have "list_union_of t eq l1 l2 h = Some (Inr r)"
    using run r by (cases r) (simp add: list_union_of_def IsListOf_rep [OF rep(1)] IsListOf_rep [OF rep(2)] copy
        list_head_rep [OF rep2] updated_check)
  moreover have "updated h t None [] (add_missing eq xs ys) r"
    by (rule updated_trans [OF _ _ _ r]) (use new in auto)
  ultimately show ?thesis by blast
qed

lemma filter_new_updated:
  assumes ok: "store_ok h" and rep: "list_rep h t l1 cs1 xs" "list_rep h t l2 cs2 ys"
  shows "\<exists>r. filter_loop t eq common l2 (first_cell cs1 None) None h = Some (Inr r) \<and>
    updated h t None [] (filter (\<lambda>z. (\<exists>y \<in> set ys. eq y z) = common) xs) r"
  using filter_loop_updated [OF ok _ linked_rep [OF rep(1)] _ typed_rep [OF rep(1)] rep(2), of None "[]" "[]" eq common] by simp

lemma intersection_updated:
  assumes ok: "store_ok h" and rep: "list_rep h T_List l1 cs1 xs" "list_rep h T_List l2 cs2 ys"
  shows "\<exists>r. list_intersection equal l1 l2 h = Some (Inr r) \<and>
    updated h T_List None [] (filter (\<lambda>z. \<exists>y \<in> set ys. node_equal equal y z) xs) r"
proof (cases "l1 = None \<or> l2 = None")
  case True
  then have "filter (\<lambda>z. \<exists>y \<in> set ys. node_equal equal y z) xs = []" using rep by auto
  then show ?thesis using ok True by (auto simp: list_intersection_def updated_def)
next
  case False
  then show ?thesis using filter_new_updated [OF ok rep, of "node_equal equal" True]
    by (auto simp: list_intersection_def IsListOf_rep [OF rep(1)] IsListOf_rep [OF rep(2)] list_head_rep [OF rep(1)] updated_check)
qed

lemma difference_updated:
  assumes ok: "store_ok h" and rep: "list_rep h t l1 cs1 xs" "list_rep h t l2 cs2 ys"
  shows "\<exists>r. list_difference_of t eq l1 l2 h = Some (Inr r) \<and>
    updated h t None [] (filter (\<lambda>z. \<not> (\<exists>y \<in> set ys. eq y z)) xs) r"
proof (cases "l2 = None")
  case True
  then have "ys = []" using rep(2) by simp
  with True copy_updated [OF ok rep(1)] show ?thesis by (simp add: list_difference_of_def IsListOf_rep [OF rep(1)])
next
  case False
  then show ?thesis using filter_new_updated [OF ok rep, of eq False]
    by (auto simp: list_difference_of_def IsListOf_rep [OF rep(1)] IsListOf_rep [OF rep(2)] list_head_rep [OF rep(1)] updated_check)
qed

subsection \<open>Concatenation\<close>

lemma concat_linked:
  assumes ok: "store_ok h" and rep: "list_rep h t (Some a) cs1 xs" "list_rep h t (Some a2) cs2 ys"
    and apart: "a \<noteq> a2" "set cs1 \<inter> set cs2 = {}"
  obtains h' where "list_concat (Some a) (Some a2) h = Inr (Some a, h')" "store_ok h'" "list_rep h' t (Some a) (cs1 @ cs2) (xs @ ys)"
    "list_rep h' t (Some a2) cs2 ys" "untouched h h' {a} (set cs1)"
proof -
  obtain ds us b x where eq: "cs1 = ds @ [b]" "xs = us @ [x]" "length ds = length us"
    and lnk: "linked h ds us (Some b)" "cells h b = Some \<lparr>data = x, next_cell = None\<rparr>"
    using rep(1) by (elim list_rep_SomeE) (rule linked_snocE)
  from rep(1) have hd1: "headers h a = Some \<lparr>list_type = t, llength = int (length xs), head_cell = Some (hd cs1), tail_cell = Some (last cs1)\<rparr>"
    and d1: "distinct cs1" and ty1: "list_all (has_type t) xs" by (elim list_rep_SomeE; blast)+
  from rep(2) have hd2: "headers h a2 = Some \<lparr>list_type = t, llength = int (length ys), head_cell = Some (hd cs2), tail_cell = Some (last cs2)\<rparr>"
    and d2: "distinct cs2" "cs2 \<noteq> []" and lnk2: "linked h cs2 ys None" and ty2: "list_all (has_type t) ys" by (elim list_rep_SomeE; blast)+
  define h' where "h' = h\<lparr>cells := (cells h)(b \<mapsto> \<lparr>data = x, next_cell = Some (hd cs2)\<rparr>), headers := (headers h)(a \<mapsto>
    \<lparr>list_type = t, llength = int (length xs) + int (length ys), head_cell = Some (hd cs1), tail_cell = Some (last cs2)\<rparr>)\<rparr>"
  have un: "untouched h h' {a} (set cs1)" by (auto simp: untouched_def h'_def eq)
  have rep2: "list_rep h' t (Some a2) cs2 ys" by (rule list_rep_frame [OF rep(2) ok un]) (use apart in auto)
  have "linked h' ds us (Some b)" using lnk(1) d1 by (subst linked_frame [where h = h]) (auto simp: h'_def eq)
  moreover have "linked h' cs2 ys None" by (rule linked_rep [OF rep2])
  ultimately have "linked h' (ds @ b # cs2) (us @ x # ys) None"
    using eq(3) first_cell_hd [OF d2(2)] by (simp add: linked_append) (simp add: h'_def)
  then have rep1: "list_rep h' t (Some a) (cs1 @ cs2) (xs @ ys)"
    using d1 d2 ty1 ty2 apart(2) by (auto simp: list_rep_def eq(1,2)) (auto simp: h'_def eq hd_append)
  have ok': "store_ok h'" using ok store_ok_bound [OF ok] lnk(2) hd1 by (auto simp: store_ok_def h'_def)
  have "list_concat (Some a) (Some a2) h = Inr (Some a, h')"
    using hd1 hd2 lnk(2) apart(1) check_rep [OF rep1] by (simp add: list_concat_def access_defs eq(1) h'_def)
  with that ok' rep1 rep2 un show thesis by blast
qed

lemma lappend_cell_nth:
  assumes ok: "store_ok h" and rep: "list_rep h t l cs xs" and d: "has_type t d" and k: "k < length xs"
  shows "\<exists>c h'. lappend_cell_of t l (Some (cs ! k)) d h = Inr (c, h') \<and>
    updated h t l cs (take (k + 1) xs @ d # drop (k + 1) xs) (l, h')"
proof -
  obtain a where l: "l = Some a" using rep k by (cases l) auto
  have len: "length cs = length xs" by (rule linked_length [OF linked_rep [OF rep]])
  define ds es where "ds = take k cs" and "es = drop (Suc k) cs"
  have cs: "cs = ds @ cs ! k # es" using k len by (simp add: ds_def es_def id_take_nth_drop)
  have "length ds = k" using k len by (simp add: ds_def)
  then show ?thesis using lappend_cell_updated [OF ok _ d, of a ds "cs ! k" es xs] rep
    unfolding l cs [symmetric] by simp
qed

section \<open>The contract of the variants\<close>

interpretation lappend_upd: list_update T_List "\<lambda>l h. Some (lappend l d h)" "\<lambda>xs. xs @ [ptr_value d]" for d
  by unfold_locales (use lappend_updated in \<open>fastforce simp: lappend_def\<close>)

interpretation lappend_int_upd: list_update T_IntList "\<lambda>l h. Some (lappend_int l d h)" "\<lambda>xs. xs @ [int_value d]" for d
  by unfold_locales (use lappend_updated in \<open>fastforce simp: lappend_int_def\<close>)

interpretation lappend_oid_upd: list_update T_OidList "\<lambda>l h. Some (lappend_oid l d h)" "\<lambda>xs. xs @ [oid_value d]" for d
  by unfold_locales (use lappend_updated in \<open>fastforce simp: lappend_oid_def\<close>)

interpretation lcons_upd: list_update T_List "\<lambda>l h. Some (lcons d l h)" "\<lambda>xs. ptr_value d # xs" for d
  by unfold_locales (use lcons_updated in \<open>fastforce simp: lcons_def\<close>)

interpretation lcons_int_upd: list_update T_IntList "\<lambda>l h. Some (lcons_int d l h)" "\<lambda>xs. int_value d # xs" for d
  by unfold_locales (use lcons_updated in \<open>fastforce simp: lcons_int_def\<close>)

interpretation lcons_oid_upd: list_update T_OidList "\<lambda>l h. Some (lcons_oid d l h)" "\<lambda>xs. oid_value d # xs" for d
  by unfold_locales (use lcons_updated in \<open>fastforce simp: lcons_oid_def\<close>)

interpretation truncate_upd: list_update t "\<lambda>l. list_truncate l n" "take (nat n)" for t n
  by unfold_locales (rule truncate_updated)

interpretation delete_upd: list_update T_List "\<lambda>l. list_delete equal l d" "remove_first (\<lambda>x. node_equal equal x (ptr_value d))" for equal d
  by unfold_locales (unfold list_delete_def, rule delete_updated)

interpretation delete_ptr_upd: list_update T_List "\<lambda>l. list_delete_ptr l d" "remove_first (\<lambda>x. x = ptr_value d)" for d
  by unfold_locales (unfold list_delete_ptr_def, rule delete_updated)

interpretation delete_int_upd: list_update T_IntList "\<lambda>l. list_delete_int l d" "remove_first (\<lambda>x. x = int_value d)" for d
  by unfold_locales (unfold list_delete_int_def, rule delete_updated)

interpretation delete_oid_upd: list_update T_OidList "\<lambda>l. list_delete_oid l d" "remove_first (\<lambda>x. x = oid_value d)" for d
  by unfold_locales (unfold list_delete_oid_def, rule delete_updated)

interpretation delete_first_upd: list_update t list_delete_first tl for t
  by unfold_locales (rule delete_first_updated)

interpretation append_unique_upd:
  list_update T_List "\<lambda>l. list_append_unique equal l d" "\<lambda>xs. add_missing (node_equal equal) xs [ptr_value d]" for equal d
  by unfold_locales (unfold list_append_unique_def, rule append_unique_updated, assumption+, simp)

text \<open>A store with two lists of integers, 5, 6 and 6, 8.\<close>

definition demo_store :: "nat store" where
  "demo_store = \<lparr>cells = [0 \<mapsto> \<lparr>data = int_value 5, next_cell = Some 2\<rparr>, 2 \<mapsto> \<lparr>data = int_value 6, next_cell = None\<rparr>,
       3 \<mapsto> \<lparr>data = int_value 6, next_cell = Some 5\<rparr>, 5 \<mapsto> \<lparr>data = int_value 8, next_cell = None\<rparr>],
     headers = [1 \<mapsto> \<lparr>list_type = T_IntList, llength = 2, head_cell = Some 0, tail_cell = Some 2\<rparr>,
       4 \<mapsto> \<lparr>list_type = T_IntList, llength = 2, head_cell = Some 3, tail_cell = Some 5\<rparr>],
     next_addr = 6, freed_data = []\<rparr>"

lemma demo_store_ok: "store_ok demo_store"
  by (auto simp: store_ok_def demo_store_def)

lemma demo_lists:
  "list_rep demo_store T_IntList (Some 1) [0, 2] [int_value 5, int_value 6]"
  "list_rep demo_store T_IntList (Some 4) [3, 5] [int_value 6, int_value 8]"
  by (simp_all add: list_rep_def demo_store_def)

section \<open>The routines on the lists they represent\<close>

text \<open>C17: The routines that change a list in place: on a well-formed list each returns a list
  that represents the result of the operation on HOL lists, of the same type, and touches only
  the header and the cells of its argument and new memory.\<close>

theorem list_updates_refine:
  assumes "store_ok h" "list_rep h t l cs xs" "has_type t d"
  shows "(\<exists>r. lappend_of t l d h = Inr r \<and> updated h t l cs (xs @ [d]) r) \<and>
    (\<exists>r. lcons_of t d l h = Inr r \<and> updated h t l cs (d # xs) r) \<and>
    (\<forall>k < length xs. \<exists>c h'. lappend_cell_of t l (Some (cs ! k)) d h = Inr (c, h') \<and>
      updated h t l cs (take (k + 1) xs @ d # drop (k + 1) xs) (l, h')) \<and>
    (\<exists>r. list_truncate l n h = Some (Inr r) \<and> updated h t l cs (take (nat n) xs) r) \<and>
    (\<exists>r. list_delete_of t eq l d h = Some (Inr r) \<and> updated h t l cs (remove_first (\<lambda>x. eq x d) xs) r) \<and>
    (\<exists>r. list_delete_first l h = Some (Inr r) \<and> updated h t l cs (tl xs) r) \<and>
    (\<exists>r. list_append_unique_of t eq l d h = Some (Inr r) \<and> updated h t l cs (if \<exists>x \<in> set xs. eq x d then xs else xs @ [d]) r) \<and>
    list_free_private l deep h = Some (Inr (h\<lparr>cells := (\<lambda>a. if a \<in> set cs then None else cells h a),
      headers := (\<lambda>a. if l = Some a then None else headers h a), freed_data := (if deep then rev xs else []) @ freed_data h\<rparr>))"
  using lappend_updated [OF assms] lcons_updated [OF assms] lappend_cell_nth [OF assms] truncate_updated [OF assms(1,2), of n]
    delete_updated [OF assms(1,2), of eq d] delete_first_updated [OF assms(1,2)] append_unique_updated [OF assms, of eq]
    list_free_rep [OF assms(2), of deep]
  by simp

theorem list_updates_refine_witness:
  "\<exists>r. list_delete_of T_IntList (=) (Some 1) (int_value 5) demo_store = Some (Inr r) \<and>
     updated demo_store T_IntList (Some 1) [0, 2] [int_value 6] r"
  using list_updates_refine [OF demo_store_ok demo_lists(1), of "int_value 5" 1 "(=)" False] by simp

text \<open>C18: The routines that make a new list from old ones: the result represents the copy, the
  rest of a list, the union, the common members or the difference, in new memory only, and both
  arguments represent what they did.\<close>

theorem list_copies_fresh:
  assumes "store_ok h" "list_rep h t l1 cs1 xs" "list_rep h t l2 cs2 ys"
    and op: "(op, zs) \<in> {(list_copy l1, xs), (list_copy_tail l1 n, drop (nat n) xs), (list_union_of t eq l1 l2, add_missing eq xs ys),
      (list_difference_of t eq l1 l2, filter (\<lambda>x. \<not> (\<exists>y \<in> set ys. eq y x)) xs)} \<or>
      t = T_List \<and> (op, zs) = (list_intersection equal l1 l2, filter (\<lambda>x. \<exists>y \<in> set ys. node_equal equal y x) xs)"
  shows "\<exists>r. op h = Some (Inr r) \<and> updated h t None [] zs r \<and>
    list_rep (snd r) t l1 cs1 xs \<and> list_rep (snd r) t l2 cs2 ys"
proof -
  have "\<exists>r. op h = Some (Inr r) \<and> updated h t None [] zs r"
    using op copy_updated [OF assms(1,2)] copy_tail_updated [OF assms(1,2)] union_updated [OF assms(1,2,3)]
      difference_updated [OF assms(1,2,3)] intersection_updated [OF assms(1), of l1 cs1 xs l2 cs2 ys equal] assms(2,3)
    by auto
  then show ?thesis using old_list [OF assms(1,2)] old_list [OF assms(1,3)] by blast
qed

theorem list_copies_fresh_witness:
  "\<exists>r. list_union_of T_IntList (=) (Some 1) (Some 4) demo_store = Some (Inr r) \<and>
     updated demo_store T_IntList None [] [int_value 5, int_value 6, int_value 8] r \<and>
     list_rep (snd r) T_IntList (Some 1) [0, 2] [int_value 5, int_value 6] \<and>
     list_rep (snd r) T_IntList (Some 4) [3, 5] [int_value 6, int_value 8]"
  using list_copies_fresh [OF demo_store_ok demo_lists, of "list_union_of T_IntList (=) (Some 1) (Some 4)"
      "[int_value 5, int_value 6, int_value 8]" 0 "(=)"]
  by simp

text \<open>C24: \<^verbatim>\<open>list_concat\<close> of two lists apart appends the second to the first without copying: the
  second list is still there, on cells of the first, and freeing it makes the first unusable, as
  every routine that checks it then reads an invalid address. A list is not concatenated to itself.\<close>

theorem list_concat_shares:
  assumes "store_ok h" "list_rep h t (Some a) cs1 xs" "list_rep h t (Some a2) cs2 ys" "a \<noteq> a2" "set cs1 \<inter> set cs2 = {}"
  shows "list_concat (Some a) (Some a) h = Inl (ERROR ''cannot list_concat() a list to itself'') \<and>
    (\<exists>h'. list_concat (Some a) (Some a2) h = Inr (Some a, h') \<and> list_rep h' t (Some a) (cs1 @ cs2) (xs @ ys) \<and>
       list_rep h' t (Some a2) cs2 ys \<and>
       (\<exists>h''. list_free (Some a2) h' = Some (Inr h'') \<and> check_list_invariants (Some a) h'' = Inl wild))"
proof -
  obtain h' where h': "list_concat (Some a) (Some a2) h = Inr (Some a, h')" "store_ok h'"
    "list_rep h' t (Some a) (cs1 @ cs2) (xs @ ys)" "list_rep h' t (Some a2) cs2 ys" "untouched h h' {a} (set cs1)"
    by (rule concat_linked [OF assms])
  define h'' where "h'' = h'\<lparr>cells := (\<lambda>c. if c \<in> set cs2 then None else cells h' c), headers := (\<lambda>c. if Some a2 = Some c then None else headers h' c)\<rparr>"
  have free: "list_free (Some a2) h' = Some (Inr h'')" using list_free_rep [OF h'(4), of False] by (simp add: list_free_def h''_def)
  have cs: "cs1 \<noteq> []" "cs2 \<noteq> []" "xs \<noteq> []" "ys \<noteq> []" using assms(2,3) by (auto simp: list_rep_def)
  have hd: "headers h'' a = Some \<lparr>list_type = t, llength = int (length (xs @ ys)), head_cell = Some (hd cs1), tail_cell = Some (last cs2)\<rparr>"
    using h'(3) assms(4) cs by (simp add: list_rep_def h''_def)
  have gone: "cells h'' (last cs2) = None" using cs by (simp add: h''_def)
  have two: "cell_at h'' (Some (hd cs1)) = Inr \<lparr>data = hd xs, next_cell = Some (last cs2)\<rparr>" if len2: "length (xs @ ys) = 2"
  proof -
    have "length cs1 = length xs" "length cs2 = length ys" using linked_length [OF linked_rep] assms(2,3) by blast+
    then obtain c1 c2 x y where one: "cs1 = [c1]" "cs2 = [c2]" "xs = [x]" "ys = [y]"
      using len2 cs by (cases cs1; cases cs2; cases xs; cases ys) auto
    then show ?thesis using linked_rep [OF h'(3)] assms(5) by (simp add: cell_at_def h''_def)
  qed
  have len: "\<not> length (xs @ ys) \<le> 1" using cs by (cases xs; cases ys) auto
  have "check_list_invariants (Some a) h'' = Inl wild"
  proof (cases "length (xs @ ys) = 2")
    case True
    then show ?thesis using hd gone two by (simp add: check_list_invariants_def header_at_def) (simp add: cell_at_def)
  next
    case False
    then show ?thesis using hd gone len by (simp add: check_list_invariants_def header_at_def cell_at_def)
  qed
  with h' free show ?thesis by (auto simp: list_concat_def)
qed

theorem list_concat_shares_witness:
  "\<exists>h' h''. list_concat (Some 1) (Some 4) demo_store = Inr (Some 1, h') \<and>
     list_rep h' T_IntList (Some 1) [0, 2, 3, 5] [int_value 5, int_value 6, int_value 6, int_value 8] \<and>
     list_free (Some 4) h' = Some (Inr h'') \<and> check_list_invariants (Some 1) h'' = Inl wild"
  using list_concat_shares [OF demo_store_ok demo_lists] by auto

text \<open>C25: Reading the n-th member of a list: on a list of the routine's type the result is the n-th
  datum and of that type for every index in range, and an index out of range, a missing list or a
  list of another type fails an assertion. The routines for the length and for membership agree
  with the represented list.\<close>

theorem list_reads_typed:
  assumes "list_rep h t l cs xs"
  shows "list_nth_of t' l n h =
      (if l = None then Inl (TRAP ''list != NIL'')
       else if t' \<noteq> t then Inl (TRAP ''list type'')
       else if n < 0 then Inl (TRAP ''n >= 0'')
       else if n < int (length xs) then Inr (xs ! nat n) else Inl (TRAP ''n < list->length'')) \<and>
    (list_nth_of t' l n h = Inr d \<longrightarrow> has_type t' d) \<and>
    list_length h l = Inr (int (length xs)) \<and>
    list_member_of t eq l d h = Some (Inr (\<exists>x \<in> set xs. eq x d))"
proof -
  have nth: "list_nth_of t' l n h =
      (if l = None then Inl (TRAP ''list != NIL'')
       else if t' \<noteq> t then Inl (TRAP ''list type'')
       else if n < 0 then Inl (TRAP ''n >= 0'')
       else if n < int (length xs) then Inr (xs ! nat n) else Inl (TRAP ''n < list->length''))"
  proof (cases "t' = t")
    case True
    then show ?thesis using nth_rep [OF assms, of n] assms by (cases l) (auto simp: list_rep_def)
  next
    case False
    then show ?thesis using assms by (cases l) (auto simp: list_nth_of_def list_nth_cell_def IsListOf_def header_at_def list_rep_def)
  qed
  have "has_type t' d" if "list_nth_of t' l n h = Inr d"
    using that typed_rep [OF assms] unfolding nth by (auto simp: list_all_length split: if_splits)
  with nth list_length_rep [OF assms] member_rep [OF assms] show ?thesis by blast
qed

theorem list_reads_typed_witness:
  "list_nth_of T_IntList (Some 1) 1 demo_store = Inr (int_value 6) \<and>
   list_nth_of T_OidList (Some 1) 1 demo_store = Inl (TRAP ''list type'')"
  using list_reads_typed [OF demo_lists(1), of T_IntList 1] list_reads_typed [OF demo_lists(1), of T_OidList 1] by simp

end
