(* ===== verification/SharedLists.thy ===== *)
theory SharedLists
  imports PgListRep Workers SpinLock
begin

text \<open>
  The shared lists of \<^verbatim>\<open>backend/storage/lmgr/parallel.c\<close> on the linked lists they are made
  of, and the loops that release workers (\<^verbatim>\<open>ExecEndSort\<close> in \<^verbatim>\<open>nodeSort.c\<close> and
  \<^verbatim>\<open>cleanup\<close>) over the store: they remove the member at which the loop stands.
\<close>

section \<open>Shared lists\<close>

text \<open>
  A shared list is a pointer to a list with a spin lock. The routines take the lock, store back
  what the routine of \<^verbatim>\<open>list.c\<close> returns and release the lock; an error of that routine
  leaves the lock taken.
\<close>

record SharedList =
  sl_mutex :: bool
  sl_list :: List_ptr

definition createShList :: SharedList where
  "createShList = \<lparr>sl_mutex = False, sl_list = None\<rparr>"

definition parallel_init :: "SharedList \<times> SharedList" where
  "parallel_init = (let prlJobsList = createShList; workersToCancel = createShList in (prlJobsList, workersToCancel))"

definition shListAppend :: "SharedList \<Rightarrow> 'p \<Rightarrow> 'p store \<Rightarrow> pg_error + SharedList \<times> 'p store" where
  "shListAppend l object h =
     bindE (SpinLockAcquire (sl_mutex l)) (\<lambda>m. let l = l\<lparr>sl_mutex := m\<rparr> in
     bindE (lappend (sl_list l) object h) (\<lambda>(p, h). let l = l\<lparr>sl_list := p\<rparr> in
       Inr (l\<lparr>sl_mutex := SpinLockRelease (sl_mutex l)\<rparr>, h)))"

definition shListRemove :: "SharedList \<Rightarrow> 'p \<Rightarrow> 'p store \<Rightarrow> (pg_error + SharedList \<times> 'p store) option" where
  "shListRemove l object h =
     bindO (Some (SpinLockAcquire (sl_mutex l))) (\<lambda>m. let l = l\<lparr>sl_mutex := m\<rparr> in
     bindO (list_delete_ptr (sl_list l) object h) (\<lambda>(p, h). let l = l\<lparr>sl_list := p\<rparr> in
       Some (Inr (l\<lparr>sl_mutex := SpinLockRelease (sl_mutex l)\<rparr>, h))))"

definition shListRemoveNoLock :: "SharedList \<Rightarrow> 'p \<Rightarrow> 'p store \<Rightarrow> (pg_error + SharedList \<times> 'p store) option" where
  "shListRemoveNoLock l object h =
     bindO (list_delete_ptr (sl_list l) object h) (\<lambda>(p, h). Some (Inr (l\<lparr>sl_list := p\<rparr>, h)))"

definition shListAppendInt :: "SharedList \<Rightarrow> int \<Rightarrow> 'p store \<Rightarrow> pg_error + SharedList \<times> 'p store" where
  "shListAppendInt l v h =
     bindE (SpinLockAcquire (sl_mutex l)) (\<lambda>m. let l = l\<lparr>sl_mutex := m\<rparr> in
     bindE (lappend_int (sl_list l) v h) (\<lambda>(p, h). let l = l\<lparr>sl_list := p\<rparr> in
       Inr (l\<lparr>sl_mutex := SpinLockRelease (sl_mutex l)\<rparr>, h)))"

text \<open>
  The master asks the postmaster to cancel all its workers: their process numbers go to the
  list \<^verbatim>\<open>workersToCancel\<close>. The list of workers is read without its lock.
\<close>

partial_function (option) cancel_loop ::
  "Worker list \<Rightarrow> nat option \<Rightarrow> SharedList \<Rightarrow> nat store \<Rightarrow> (pg_error + SharedList \<times> nat store) option" where
  "cancel_loop tab cell workersToCancel h =
     (if cell = None then Some (Inr (workersToCancel, h))
      else bindO (Some (cell_at h cell)) (\<lambda>c.
        case data c of
          ptr_value w \<Rightarrow>
            bindO (Some (shListAppendInt workersToCancel (workerPid (tab ! w)) h)) (\<lambda>(workersToCancel, h).
              bindO (Some (cell_at h cell)) (\<lambda>c. cancel_loop tab (next_cell c) workersToCancel h))
        | _ \<Rightarrow> Some (Inl wild)))"

definition cancelWorkers ::
  "Worker list \<Rightarrow> SharedList \<Rightarrow> SharedList \<Rightarrow> nat store \<Rightarrow> (pg_error + SharedList \<times> nat store) option" where
  "cancelWorkers tab wlist workersToCancel h =
     bindO (Some (list_head h (sl_list wlist))) (\<lambda>cell. cancel_loop tab cell workersToCancel h)"

section \<open>Releasing workers\<close>

text \<open>
  The part of the loops that works on the lists: \<open>wlist\<close> is the list of workers, the loop goes
  through it from \<open>cell\<close>, \<open>jlist\<close> is the list of the postmaster, \<open>work_of\<close> the pointer to the work
  of a worker. The draining of the queue works on other memory.
\<close>

partial_function (option) release_loop ::
  "(nat \<Rightarrow> bool) \<Rightarrow> (nat \<Rightarrow> nat) \<Rightarrow> nat option \<Rightarrow> List_ptr \<Rightarrow> List_ptr \<Rightarrow> nat store \<Rightarrow>
   (pg_error + (List_ptr \<times> List_ptr) \<times> nat store) option" where
  "release_loop mine work_of cell wlist jlist h =
     (if cell = None then Some (Inr ((wlist, jlist), h))
      else bindO (Some (cell_at h cell)) (\<lambda>c.
        case data c of
          ptr_value w \<Rightarrow>
            bindO (if mine w
                   then bindO (list_delete_ptr jlist (work_of w) h) (\<lambda>(jlist, h).
                     bindO (list_delete_ptr wlist w h) (\<lambda>(wlist, h). Some (Inr ((wlist, jlist), h))))
                   else Some (Inr ((wlist, jlist), h)))
              (\<lambda>((wlist, jlist), h). bindO (Some (cell_at h cell)) (\<lambda>c.
                 release_loop mine work_of (next_cell c) wlist jlist h))
        | _ \<Rightarrow> Some (Inl wild)))"

definition ExecEndSort_release ::
  "int \<Rightarrow> Worker list \<Rightarrow> (nat \<Rightarrow> nat) \<Rightarrow> List_ptr \<Rightarrow> List_ptr \<Rightarrow> nat store \<Rightarrow>
   (pg_error + (List_ptr \<times> List_ptr) \<times> nat store) option" where
  "ExecEndSort_release job tab work_of wlist jlist h =
     bindO (Some (list_head h wlist)) (\<lambda>cell.
       release_loop (\<lambda>i. valid (tab ! i) \<and> jobId (work (tab ! i)) = job) work_of cell wlist jlist h)"

definition cleanup_release ::
  "(nat \<Rightarrow> nat) \<Rightarrow> List_ptr \<Rightarrow> List_ptr \<Rightarrow> nat store \<Rightarrow> (pg_error + (List_ptr \<times> List_ptr) \<times> nat store) option" where
  "cleanup_release work_of wlist jlist h =
     bindO (Some (list_head h wlist)) (\<lambda>cell. release_loop (\<lambda>_. True) work_of cell wlist jlist h)"

section \<open>Lists of pointers\<close>

abbreviation pointers :: "'p list \<Rightarrow> 'p cell_data list" where
  "pointers ws \<equiv> map ptr_value ws"

lemma remove_first_pointers: "remove_first (\<lambda>x. x = ptr_value w) (pointers ws) = pointers (remove1 w ws)"
  by (induction ws) auto

lemma release_prefix:
  assumes "linked h cs (pointers (us @ vs)) None" "\<forall>u \<in> set us. \<not> mine u"
  shows "release_loop mine work_of (first_cell cs None) wlist jlist h =
    release_loop mine work_of (first_cell (drop (length us) cs) None) wlist jlist h"
  using assms
proof (induction us arbitrary: cs)
  case (Cons u us)
  then obtain b cs' where cs: "cs = b # cs'" by (cases cs) auto
  have "release_loop mine work_of (first_cell cs None) wlist jlist h =
      release_loop mine work_of (first_cell cs' None) wlist jlist h"
    using Cons.prems by (subst release_loop.simps) (simp add: cs cell_at_def)
  also have "\<dots> = release_loop mine work_of (first_cell (drop (length us) cs') None) wlist jlist h"
    by (rule Cons.IH) (use Cons.prems in \<open>simp_all add: cs\<close>)
  finally show ?case by (simp add: cs)
qed simp

lemma release_reaches_freed:
  assumes ok: "store_ok h" and rep: "list_rep h T_List l cs (pointers ws)" "list_rep h T_List jl js (pointers jobs)"
    and apart: "set js \<inter> set cs = {}" "set_option jl \<inter> set_option l = {}"
    and ws: "distinct ws" "w \<in> set ws" "mine w"
  shows "release_loop mine work_of (first_cell cs None) l jl h = Some (Inl wild)"
proof -
  obtain us w vs where eq: "ws = us @ w # vs" and w: "mine w" and us: "\<forall>u \<in> set us. \<not> mine u"
    using split_list_first_prop [of ws mine] ws(2,3) by blast
  have lnk: "linked h cs (pointers (us @ w # vs)) None" using linked_rep [OF rep(1)] by (simp add: eq)
  have len: "length us < length cs" using linked_length [OF lnk] by simp
  obtain p where c: "cells h (cs ! length us) = Some \<lparr>data = ptr_value w, next_cell = p\<rparr>"
    using linked_nth [OF lnk len] by (auto simp: nth_append)
  obtain jl' h1 where del1: "list_delete_ptr jl (work_of w) h = Some (Inr (jl', h1))"
      and rep1: "list_rep h1 T_List l cs (pointers ws)"
    using delete_ptr_upd.other_list [OF ok rep(2,1) apart] by blast
  have ok1: "store_ok h1"
    using delete_ptr_upd.updates [OF ok rep(2), of "work_of w"] del1 by (auto simp: updated_def)
  have rep2: "list_rep h1 T_List l cs (pointers us @ ptr_value w # pointers vs)" using rep1 by (simp add: eq)
  have fresh: "\<forall>y \<in> set (pointers us). \<not> y = ptr_value w" using ws(1) by (auto simp: eq)
  obtain r where del2: "list_delete_ptr l w h1 = Some (Inr r)" and gone: "cells (snd r) (cs ! length us) = None"
    using delete_found [OF ok1 rep2, of "(=)" "ptr_value w"] fresh by (auto simp: list_delete_ptr_def)
  obtain l2 h2 where r: "r = (l2, h2)" by fastforce
  have "release_loop mine work_of (first_cell cs None) l jl h =
      release_loop mine work_of (Some (cs ! length us)) l jl h"
    using release_prefix [OF lnk us, of work_of l jl] len by (simp add: first_cell_hd hd_drop_conv_nth)
  also have "\<dots> = Some (Inl wild)"
    using c w del1 del2 gone by (subst release_loop.simps) (simp add: cell_at_def r)
  finally show ?thesis .
qed

lemma release_none:
  assumes "linked h cs (pointers ws) None" "\<forall>w \<in> set ws. \<not> mine w"
  shows "release_loop mine work_of (first_cell cs None) l jl h = Some (Inr ((l, jl), h))"
  using release_prefix [of h cs ws "[]" mine work_of l jl] linked_length [OF assms(1)] assms
  by (simp add: release_loop.simps)

section \<open>What the shared lists do\<close>

text \<open>
  The contract of a routine that changes a shared list under its lock: with the lock free it
  carries the change out and gives the lock back; with the lock taken it changes nothing and ends
  in a stuck spin lock.
\<close>

definition shared_updated ::
  "'p store \<Rightarrow> NodeTag \<Rightarrow> SharedList \<Rightarrow> nat list \<Rightarrow> 'p cell_data list \<Rightarrow> bool \<Rightarrow> SharedList \<times> 'p store \<Rightarrow> bool" where
  "shared_updated h t l cs ys taken r \<longleftrightarrow> sl_mutex (fst r) = taken \<and> updated h t (sl_list l) cs ys (sl_list (fst r), snd r)"

lemma list_rep_bound:
  assumes "list_rep h t l cs xs" "store_ok h"
  shows "c \<in> set cs \<Longrightarrow> c < next_addr h" "a \<in> set_option l \<Longrightarrow> a < next_addr h"
proof -
  show "c < next_addr h" if "c \<in> set cs"
    using linked_bound [OF linked_rep [OF assms(1)] assms(2) that] .
  show "a < next_addr h" if "a \<in> set_option l"
    using that assms(1) store_ok_bound(2) [OF assms(2), of a] by (auto simp: list_rep_def)
qed

locale shared_update =
  fixes t :: NodeTag and routine :: "SharedList \<Rightarrow> 'p store \<Rightarrow> (pg_error + SharedList \<times> 'p store) option"
    and f :: "'p cell_data list \<Rightarrow> 'p cell_data list"
  assumes free: "store_ok h \<Longrightarrow> list_rep h t (sl_list l) cs xs \<Longrightarrow> \<not> sl_mutex l \<Longrightarrow>
      \<exists>r. routine l h = Some (Inr r) \<and> shared_updated h t l cs (f xs) False r"
    and taken: "sl_mutex l \<Longrightarrow> routine l h = Some (Inl s_lock_stuck)"
begin

lemma beside_list:
  assumes ok: "store_ok h" and rep: "list_rep h t (sl_list l) cs xs" and l: "\<not> sl_mutex l"
    and other: "list_rep h t' l' cs' ys" "set cs \<inter> set cs' = {}" "set_option (sl_list l) \<inter> set_option l' = {}"
  shows "\<exists>l2 h2 cs2. routine l h = Some (Inr (l2, h2)) \<and> \<not> sl_mutex l2 \<and> store_ok h2 \<and> list_rep h2 t (sl_list l2) cs2 (f xs) \<and>
    list_rep h2 t' l' cs' ys \<and> set cs2 \<inter> set cs' = {} \<and> set_option (sl_list l2) \<inter> set_option l' = {} \<and>
    shared_updated h t l cs (f xs) False (l2, h2)"
proof -
  obtain l2 h2 where r: "routine l h = Some (Inr (l2, h2))" and up: "shared_updated h t l cs (f xs) False (l2, h2)"
    using free [OF ok rep l] by auto
  then obtain cs2 where u: "\<not> sl_mutex l2" "store_ok h2" "list_rep h2 t (sl_list l2) cs2 (f xs)"
    "untouched h h2 (set_option (sl_list l)) (set cs)" "set cs2 \<subseteq> set cs \<union> {next_addr h..}"
    "set_option (sl_list l2) \<subseteq> set_option (sl_list l) \<union> {next_addr h..}"
    by (auto simp: shared_updated_def updated_def)
  have "list_rep h2 t' l' cs' ys" using list_rep_frame [OF other(1) ok u(4)] other(2,3) by auto
  moreover have "c < next_addr h" if "c \<in> set cs'" for c using list_rep_bound(1) [OF other(1) ok that] .
  moreover have "a < next_addr h" if "a \<in> set_option l'" for a using list_rep_bound(2) [OF other(1) ok that] .
  ultimately show ?thesis using r up u other(2,3) by (intro exI [of _ l2] exI [of _ h2] exI [of _ cs2]) fastforce
qed

end

interpretation append_shared: shared_update T_List "\<lambda>l h. Some (shListAppend l d h)" "\<lambda>xs. xs @ [ptr_value d]" for d
proof unfold_locales
  fix h :: "'a store" and l :: SharedList and cs xs
  assume "store_ok h" "list_rep h T_List (sl_list l) cs xs" "\<not> sl_mutex l"
  with lappend_upd.updates [of h "sl_list l" cs xs d]
  show "\<exists>r. Some (shListAppend l d h) = Some (Inr r) \<and> shared_updated h T_List l cs (xs @ [ptr_value d]) False r"
    by (auto simp: shListAppend_def shared_updated_def SpinLockRelease_def)
qed (simp add: shListAppend_def)

interpretation append_int_shared: shared_update T_IntList "\<lambda>l h. Some (shListAppendInt l d h)" "\<lambda>xs. xs @ [int_value d]" for d
proof unfold_locales
  fix h :: "'a store" and l :: SharedList and cs xs
  assume "store_ok h" "list_rep h T_IntList (sl_list l) cs xs" "\<not> sl_mutex l"
  with lappend_int_upd.updates [of h "sl_list l" cs xs d]
  show "\<exists>r. Some (shListAppendInt l d h) = Some (Inr r) \<and> shared_updated h T_IntList l cs (xs @ [int_value d]) False r"
    by (auto simp: shListAppendInt_def shared_updated_def SpinLockRelease_def)
qed (simp add: shListAppendInt_def)

interpretation remove_shared: shared_update T_List "\<lambda>l. shListRemove l d" "remove_first (\<lambda>x. x = ptr_value d)" for d
proof unfold_locales
  fix h :: "'a store" and l :: SharedList and cs xs
  assume "store_ok h" "list_rep h T_List (sl_list l) cs xs" "\<not> sl_mutex l"
  with delete_ptr_upd.updates [of h "sl_list l" cs xs d]
  show "\<exists>r. shListRemove l d h = Some (Inr r) \<and> shared_updated h T_List l cs (remove_first (\<lambda>x. x = ptr_value d) xs) False r"
    by (auto simp: shListRemove_def shared_updated_def SpinLockRelease_def)
qed (simp add: shListRemove_def)

lemma remove_no_lock:
  assumes "store_ok h" "list_rep h T_List (sl_list l) cs (pointers ws)"
  shows "\<exists>r. shListRemoveNoLock l w h = Some (Inr r) \<and> shared_updated h T_List l cs (pointers (remove1 w ws)) (sl_mutex l) r"
  using delete_ptr_upd.updates [OF assms, of w]
  by (auto simp: shListRemoveNoLock_def shared_updated_def remove_first_pointers)

text \<open>Cancelling adds the process numbers of all workers, in their order.\<close>

lemma cancel_loop_adds:
  assumes "store_ok h" "list_rep h T_List wl cs (pointers ws)" "cs = ds @ es" "length ds = length us" "ws = us @ vs"
    "list_rep h T_IntList (sl_list l) ci (map int_value is)" "\<not> sl_mutex l" "set ci \<inter> set cs = {}"
    "set_option (sl_list l) \<inter> set_option wl = {}"
  shows "\<exists>l' h' ci'. cancel_loop tab (first_cell es None) l h = Some (Inr (l', h')) \<and> \<not> sl_mutex l' \<and>
    list_rep h' T_IntList (sl_list l') ci' (map int_value (is @ map (\<lambda>w. workerPid (tab ! w)) vs)) \<and>
    list_rep h' T_List wl cs (pointers ws)"
  using assms
proof (induction vs arbitrary: h ds es us l ci "is")
  case Nil
  have "length cs = length ws" using linked_length [OF linked_rep [OF Nil(2)]] by simp
  then have "es = []" using Nil(3-5) by simp
  then show ?case using Nil(2,6,7) by (subst cancel_loop.simps) auto
next
  case (Cons v vs)
  have lnk: "linked h cs (pointers ws) None" by (rule linked_rep [OF Cons.prems(2)])
  have "length cs = length ws" using linked_length [OF lnk] by simp
  then obtain e es' where es: "es = e # es'" using Cons.prems(3-5) by (cases es) auto
  have at: "cells h' e = Some \<lparr>data = ptr_value v, next_cell = first_cell es' None\<rparr>" if "linked h' cs (pointers ws) None" for h'
    using that Cons.prems(3-5) es by (simp add: linked_append)
  obtain l2 h2 ci2 where r: "shListAppendInt l (workerPid (tab ! v)) h = Inr (l2, h2)"
    and n: "\<not> sl_mutex l2" "store_ok h2" "list_rep h2 T_IntList (sl_list l2) ci2 (map int_value is @ [int_value (workerPid (tab ! v))])"
      "list_rep h2 T_List wl cs (pointers ws)" "set ci2 \<inter> set cs = {}" "set_option (sl_list l2) \<inter> set_option wl = {}"
    using append_int_shared.beside_list [OF Cons.prems(1,6,7,2,8,9), of "workerPid (tab ! v)"] by blast
  have rep: "list_rep h2 T_IntList (sl_list l2) ci2 (map int_value (is @ [workerPid (tab ! v)]))" using n(3) by simp
  have eq: "cs = (ds @ [e]) @ es'" "length (ds @ [e]) = length (us @ [v])" "ws = (us @ [v]) @ vs" using Cons.prems(3-5) es by auto
  have "cancel_loop tab (first_cell es None) l h = cancel_loop tab (first_cell es' None) l2 h2"
    using at [OF lnk] at [OF linked_rep [OF n(4)]] r by (subst cancel_loop.simps) (simp add: es cell_at_def)
  with Cons.IH [OF n(2,4) eq rep n(1,5,6)] show ?case by simp
qed

section \<open>Properties\<close>

text \<open>C19: the routines on shared lists keep the lists and their locks. With its lock free, a list
  gets a pointer or an integer appended or loses the first occurrence of a pointer, and its lock is
  free again; with its lock taken these routines change nothing and end in a stuck spin lock, and
  only the removal without locking goes through, for a caller that holds the lock, and leaves it
  taken. Cancelling appends the process numbers of all workers to the list of the postmaster
  and leaves the list of workers as it is.\<close>

theorem shared_lists_refine:
  assumes "store_ok h" "list_rep h T_List (sl_list l) cs (pointers ws)" "list_rep h T_IntList (sl_list li) ci (map int_value is)"
    "set ci \<inter> set cs = {}" "set_option (sl_list li) \<inter> set_option (sl_list l) = {}"
  shows "(\<not> sl_mutex l \<longrightarrow>
      (\<exists>r. shListAppend l w h = Inr r \<and> shared_updated h T_List l cs (pointers (ws @ [w])) False r) \<and>
      (\<exists>r. shListRemove l w h = Some (Inr r) \<and> shared_updated h T_List l cs (pointers (remove1 w ws)) False r)) \<and>
    (sl_mutex l \<longrightarrow> shListAppend l w h = Inl s_lock_stuck \<and> shListRemove l w h = Some (Inl s_lock_stuck)) \<and>
    (\<exists>r. shListRemoveNoLock l w h = Some (Inr r) \<and> shared_updated h T_List l cs (pointers (remove1 w ws)) (sl_mutex l) r) \<and>
    (\<not> sl_mutex li \<longrightarrow>
      (\<exists>r. shListAppendInt li i h = Inr r \<and> shared_updated h T_IntList li ci (map int_value (is @ [i])) False r) \<and>
      (\<exists>l' h' ci'. cancelWorkers tab l li h = Some (Inr (l', h')) \<and> \<not> sl_mutex l' \<and>
         list_rep h' T_IntList (sl_list l') ci' (map int_value (is @ map (\<lambda>w. workerPid (tab ! w)) ws)) \<and>
         list_rep h' T_List (sl_list l) cs (pointers ws))) \<and>
    (sl_mutex li \<longrightarrow> shListAppendInt li i h = Inl s_lock_stuck)"
proof -
  have "cancelWorkers tab l li h = cancel_loop tab (first_cell cs None) li h"
    by (simp add: cancelWorkers_def list_head_rep [OF assms(2)])
  then show ?thesis
    using append_shared.free [OF assms(1,2), of w] remove_shared.free [OF assms(1,2), of w] append_shared.taken [of l w h]
      remove_shared.taken [of l w h] remove_no_lock [OF assms(1,2), of w] append_int_shared.free [OF assms(1,3), of i]
      append_int_shared.taken [of li i h] cancel_loop_adds [OF assms(1,2), of "[]" cs "[]" ws li ci "is" tab] assms(3-5)
    by (simp add: remove_first_pointers)
qed

text \<open>Workers 0, 1, 2 with their jobs 10, 11, 12.\<close>

definition demo_workers :: "nat store" where
  "demo_workers = \<lparr>cells = [0 \<mapsto> \<lparr>data = ptr_value 0, next_cell = Some 2\<rparr>, 2 \<mapsto> \<lparr>data = ptr_value 1, next_cell = Some 3\<rparr>,
       3 \<mapsto> \<lparr>data = ptr_value 2, next_cell = None\<rparr>, 4 \<mapsto> \<lparr>data = ptr_value 10, next_cell = Some 6\<rparr>,
       6 \<mapsto> \<lparr>data = ptr_value 11, next_cell = Some 7\<rparr>, 7 \<mapsto> \<lparr>data = ptr_value 12, next_cell = None\<rparr>],
     headers = [1 \<mapsto> \<lparr>list_type = T_List, llength = 3, head_cell = Some 0, tail_cell = Some 3\<rparr>,
       5 \<mapsto> \<lparr>list_type = T_List, llength = 3, head_cell = Some 4, tail_cell = Some 7\<rparr>],
     next_addr = 8, freed_data = []\<rparr>"

lemma demo_workers_ok: "store_ok demo_workers"
  by (auto simp: store_ok_def demo_workers_def)

lemma demo_workers_lists:
  "list_rep demo_workers T_List (Some 1) [0, 2, 3] (pointers [0, 1, 2])"
  "list_rep demo_workers T_List (Some 5) [4, 6, 7] (pointers [10, 11, 12])"
  by (simp_all add: list_rep_def demo_workers_def)

theorem shared_lists_refine_witness:
  "(\<exists>r. shListRemove \<lparr>sl_mutex = False, sl_list = Some 1\<rparr> 1 demo_workers = Some (Inr r) \<and>
     shared_updated demo_workers T_List \<lparr>sl_mutex = False, sl_list = Some 1\<rparr> [0, 2, 3] (pointers [0, 2]) False r) \<and>
   shListRemove \<lparr>sl_mutex = True, sl_list = Some 1\<rparr> 1 demo_workers = Some (Inl s_lock_stuck)"
  using shared_lists_refine [OF demo_workers_ok, of "\<lparr>sl_mutex = False, sl_list = Some 1\<rparr>" "[0, 2, 3]" "[0, 1, 2]" createShList "[]" "[]" 1]
    shared_lists_refine [OF demo_workers_ok, of "\<lparr>sl_mutex = True, sl_list = Some 1\<rparr>" "[0, 2, 3]" "[0, 1, 2]" createShList "[]" "[]" 1]
    demo_workers_lists(1) by (simp add: createShList_def list_rep_def)

text \<open>C20: The loop with which \<^verbatim>\<open>ExecEndSort\<close> releases the workers of its job, and that of
  \<^verbatim>\<open>cleanup\<close>, go on from a list cell they have just freed: as soon as one worker is released they
  read an invalid address. Only when there is nothing to release do they run to the end.\<close>

theorem release_reads_freed_cell:
  assumes "store_ok h" "list_rep h T_List l cs (pointers ws)" "list_rep h T_List jl js (pointers jobs)"
    "set js \<inter> set cs = {}" "set_option jl \<inter> set_option l = {}" "distinct ws"
  shows "ExecEndSort_release job tab work_of l jl h =
      (if \<exists>w \<in> set ws. valid (tab ! w) \<and> jobId (work (tab ! w)) = job then Some (Inl wild) else Some (Inr ((l, jl), h))) \<and>
    cleanup_release work_of l jl h = (if ws \<noteq> [] then Some (Inl wild) else Some (Inr ((l, jl), h)))"
proof -
  have loop: "release_loop mine work_of (first_cell cs None) l jl h =
      (if \<exists>w \<in> set ws. mine w then Some (Inl wild) else Some (Inr ((l, jl), h)))" for mine
    using release_reaches_freed [OF assms, of _ mine work_of] release_none [OF linked_rep [OF assms(2)], of mine work_of l jl]
    by auto
  show ?thesis
    by (cases ws) (auto simp: ExecEndSort_release_def cleanup_release_def list_head_rep [OF assms(2)] loop)
qed

theorem release_reads_freed_cell_witness:
  "cleanup_release (\<lambda>w. w + 10) (Some 1) (Some 5) demo_workers = Some (Inl wild)"
  using release_reads_freed_cell [OF demo_workers_ok demo_workers_lists, of 0 "[]" "\<lambda>w. w + 10"] by simp

end
