(* ===== verification/Spec2Isabelle.thy ===== *)
theory Spec2Isabelle
  imports ParallelResult BitmapSet SharedLists
begin

text \<open>
  A verification of the parallel sort of this PostgreSQL fork and of the parts it is built from.
  All paths below are relative to \<^verbatim>\<open>src/prlpg/src\<close>.

  \<^bold>\<open>The program.\<close> A query whose plan has a sort node calls \<^verbatim>\<open>ExecSort\<close>
  (\<^verbatim>\<open>backend/executor/nodeSort.c\<close>). Without workers it feeds the tuples of its subplan to a
  tuplesort (\<^verbatim>\<open>backend/utils/sort/tuplesort.c\<close>), which sorts them in memory with
  \<^verbatim>\<open>port/qsort_arg.c\<close>, keeps only the smallest in a bounded heap when there is a limit, or writes
  sorted runs to tapes (\<^verbatim>\<open>logtape.c\<close>) and merges them. With workers, the backend becomes a master:
  it deals the tuples out in turn to slave backends (\<^verbatim>\<open>backend/postmaster/slaveworker.c\<close>) through
  bounded queues in shared memory (\<^verbatim>\<open>backend/storage/lmgr/parallel.c\<close>), each worker sorts its share
  with a tuplesort of its own and sends it back through its queue, and the master merges the
  streams with the heap of the tuplesort. At the end it stops the workers and releases queues,
  semaphores and list entries.

  \<^bold>\<open>Theories.\<close> Every theory opens with a text of its own; the groups are these.

  \<^item> \<open>Prelude\<close>: errors (\<open>ERROR\<close>, \<open>FATAL\<close> and \<open>PANIC\<close> are \<^verbatim>\<open>ereport\<close>, \<open>TRAP\<close> a failed \<^verbatim>\<open>Assert\<close>; assertions
    are on; \<open>wild\<close> is an access to memory that has been freed), sequencing, 32-bit wrap-around, arrays, the locale \<open>sort_comparator\<close>.
  \<^item> \<open>SortKeys\<close>: \<^verbatim>\<open>nbtcompare.c\<close>, scan keys, \<^verbatim>\<open>inlineApplySortFunction\<close>, \<^verbatim>\<open>comparetup_heap\<close>; the locale
    \<open>btree_proc\<close> is the contract of a support procedure, interpreted on the six of \<^verbatim>\<open>nbtcompare.c\<close>.
    \<open>TupleHeap\<close>: the heap loops over \<^verbatim>\<open>memtuples\<close>. \<open>TupleQueue\<close>: the locale \<open>tuple_queue\<close>, what merging
    needs of a priority queue, with the invariant of a merge proved in it; \<open>TupleState\<close> has the record
    \<open>Tuplesortstate\<close> and interprets the locale on the heap of the sort.
  \<^item> \<open>QSortArg\<close>: \<^verbatim>\<open>qsort_arg\<close>, with the proof that it sorts and permutes.
  \<^item> \<open>Tapes\<close>, \<open>RunBuilding\<close>, \<open>TapeMerge\<close>, \<open>Tuplesort\<close>: the phases of a tuplesort and its interface.
    \<open>BoundedHeap\<close>, \<open>MemorySort\<close>: correctness of sorts that stay in memory, with and without a limit,
    of reading back and forth, of mark and restore. \<open>MemoryLimits\<close>: the accounting of memory, and
    when a sort stays within it.
  \<^item> \<open>SpinLock\<close>: \<^verbatim>\<open>backend/storage/lmgr/s_lock.c\<close>, waiting for a spin lock with growing delays until it
    is taken for stuck. \<open>SemPool\<close>: semaphores and their pool, creating and destroying a queue. \<open>BufferQueue\<close>: the queue's
    routines at the grain of semaphore operations, run by any number of processes in any order; the
    locale \<open>bounded_channel\<close> states what a channel promises and is interpreted on the queue.
  \<^item> \<open>Workers\<close>: worker records, transitions, waiting loops. \<open>ParallelSort\<close>: the processes of a parallel
    sort as program counters with one step function each and the relation \<open>sort_step\<close> of their
    interleavings. \<open>ParallelWorker\<close>, \<open>ParallelMerge\<close>, \<open>ParallelRun\<close>: the invariant of all reachable
    states, by stage of each worker and place of the master, with a rank that every step lowers.
    \<open>ParallelResult\<close>: what follows for whole runs.
  \<^item> \<open>PgList\<close>, \<open>PgListRep\<close>: \<^verbatim>\<open>backend/nodes/list.c\<close> in a store with allocation and freeing, and what the
    routines do to the lists they represent; the locale \<open>list_update\<close> is the contract of a routine
    that changes a list, interpreted on each of them. \<open>SharedLists\<close>: the shared lists of
    \<^verbatim>\<open>parallel.c\<close>, with their spin locks, on these lists (locale \<open>shared_update\<close>), \<^verbatim>\<open>cancelWorkers\<close>, and
    the loops that release workers.
  \<^item> \<open>HashFunc\<close>, \<open>BitmapSet\<close>: \<^verbatim>\<open>backend/access/hash/hashfunc.c\<close> and \<^verbatim>\<open>backend/nodes/bitmapset.c\<close>.

  \<^bold>\<open>How state and effects correspond.\<close> A C struct is a record with the fields of the source, an
  array a list as long as its allocation, a pointer into an array an index, a routine that changes
  a struct a function that returns the changed record, a routine that can raise an error one with
  result \<open>pg_error + 'a\<close>. An optional result is \<open>None\<close> when the routine does not return: it waits for
  ever or its loop does not end. Loops whose end depends on memory or tapes are
  \<^theory_text>\<open>partial_function\<close>, and the theorems about them state that they return. There is no fuel. Processes
  that share memory are program counters; a step runs to the next access that another process can
  see. A section under the spin lock of a worker or of the list of workers is one step, except that
  \<^verbatim>\<open>ExecEndSort\<close> stops a worker in two, between which it keeps the lock of the worker. The values of data, the attributes of a tuple, the
  size of a tuple in memory and the support procedures of the sort keys are parameters, gathered in
  the record \<open>sort_env\<close>, with the hypotheses that the theorems name.

  \<^bold>\<open>What is shown.\<close> For every interleaving of master and workers, a parallel sort whose workers' shares
  fit into their memory returns the input in the order of the keys, or its first tuples if there is
  a limit; it returns what the sort without workers returns up to ties. It starts if there are
  enough semaphores, raises no error while it works, does not deadlock and takes a bounded number of
  steps, also when it is shut down early; its semaphores are all given back. The shutdown, though, ends
  in the last loop of \<^verbatim>\<open>ExecEndSort\<close>, which drains queues that have been freed. The queue between
  processes is a bounded first-in first-out channel with mutual exclusion. The sort in memory, the
  bounded sort and \<^verbatim>\<open>qsort_arg\<close> are correct, a sort keeps to its work memory, and scans can go
  back and be restored to a mark. Lists, shared lists, bitmap sets and hash functions do what their
  names say, and share or touch only the memory they should. Other theorems that state errors of the
  code: a failed creation of a queue keeps the lock of the pool, at which the next one to come
  brings the server down, and the loops that release workers read a list cell that they have freed.

  \<^bold>\<open>Bounds.\<close> The theorems on whole sorts assume that the tuples fit into \<^verbatim>\<open>work_mem\<close> (hypotheses
  \<open>local_fits\<close>, \<open>share_fits\<close>), so that no tape is used; \<open>memory_holds\<close> and \<open>job_limits\<close> are conditions
  on the sizes alone that imply it. Counts of tuples and blocks are unbounded
  numbers: the code's limits on them are memory limits. Where the width matters, in hashing, in bit
  sets, in the results of comparison functions and in the lengths written to tape, values are machine
  words or wrap explicitly.

  \<^bold>\<open>Not modelled.\<close>
  \<^item> Of \<^verbatim>\<open>tuplesort.c\<close>: the index and datum variants, which repeat the heap variant over other tuple
    formats; statistics; trace output. Of \<^verbatim>\<open>nodeSort.c\<close>: the branch \<^verbatim>\<open>prl_test\<close>, which is test code,
    and the entry points that only pass on to the tuplesort.
  \<^item> \<^verbatim>\<open>nodeAppend.c\<close>, \<^verbatim>\<open>nodePrlSend.c\<close> and the query work of a worker: the workers parse and plan a query
    text, which would need the parser and the planner.
  \<^item> Signals that end the waiting loops of master and workers early, and failures of the semaphore calls
    of the operating system, which are \<open>FATAL\<close> in the code. A parallel sort has the pool of semaphores
    to itself while it runs.
  \<^item> \<^verbatim>\<open>shmctx.c\<close>, process start and signals (\<^verbatim>\<open>postmaster.c\<close>, \<^verbatim>\<open>slaveworker.c\<close> before its main loop): they
    are calls into the operating system and the allocator.
  \<^item> The rest of the server, its clients and tools: they are unchanged PostgreSQL, do not take part in
    the parallel sort and are too large to be modelled here.
\<close>

end
